(* ===== verification/Prelude.thy ===== *)
theory Prelude
  imports "HOL-Library.Word" "HOL-Library.Multiset" "HOL-Library.Monad_Syntax"
begin

text \<open>
  Shared vocabulary of the development: the machine integers of the code, overflow-checked
  arithmetic, array accesses that can panic, the chaining of fallible steps, and the generic
  lemmas on words and lists the components share.

  Conventions, used by every theory:
  \<^item> \<open>u8\<close> \<dots> \<open>u64\<close> are words of their width. The model is of the build with overflow
    checks (the profile of \<open>cargo test\<close>): an addition or subtraction that does not fit panics.
    Where no panic occurs, the wrapping operations of a release build compute the same values,
    so a theorem that an operation returns speaks about both builds.
  \<^item> \<open>usize\<close> is \<open>nat\<close>: these are byte counts, buffer positions and counters of a 64-bit
    process; their subtraction and division are checked, their additions cannot reach \<open>2 ^ 64\<close>.
  \<^item> A result of type \<open>'a option\<close> is \<open>None\<close> where the task that runs the code stops
    for good (a panic, or a wait that only the task itself could end).
  \<^item> A result of type \<open>'e + 'a\<close> is \<open>Inl\<close> of the error the code returns; a fallible operation
    on a state returns the state too, because the code keeps what it wrote before the error.
\<close>

unbundle bit_operations_syntax

section \<open>Machine integers\<close>

type_synonym u8 = "8 word"
type_synonym u16 = "16 word"
type_synonym u32 = "32 word"
type_synonym u64 = "64 word"
type_synonym usize = nat
type_synonym f32_bits = "32 word" \<comment> \<open>an \<open>f32\<close> as the bit pattern that travels on the wire\<close>
type_synonym bytes = "u8 list"

named_theorems checked_arith \<open>what a checked operation that did not panic computes\<close>

definition uadd :: "'w::len word \<Rightarrow> 'w word \<Rightarrow> 'w word option" where
  "uadd a b = (if unat a + unat b < 2 ^ LENGTH('w) then Some (a + b) else None)"

definition usub :: "'w::len word \<Rightarrow> 'w word \<Rightarrow> 'w word option" where
  "usub a b = (if b \<le> a then Some (a - b) else None)"

definition size_sub :: "usize \<Rightarrow> usize \<Rightarrow> usize option" where
  "size_sub a b = (if b \<le> a then Some (a - b) else None)"

definition size_div :: "usize \<Rightarrow> usize \<Rightarrow> usize option" where
  "size_div a b = (if b = 0 then None else Some (a div b))"

lemma uadd_Some_iff [checked_arith]:
  "uadd a b = Some c \<longleftrightarrow> unat c = unat a + unat (b :: 'w::len word)"
proof (cases "unat a + unat b < 2 ^ LENGTH('w)")
  case True
  then have "unat (a + b) = unat a + unat b"
    by (simp add: unat_word_ariths)
  with True show ?thesis by (auto simp: uadd_def word_unat_eq_iff)
next
  case False
  moreover have "unat c < 2 ^ LENGTH('w)" by (rule unsigned_less)
  ultimately have "unat c \<noteq> unat a + unat b" by linarith
  with False show ?thesis by (simp add: uadd_def)
qed

lemma usub_Some_iff [checked_arith]:
  "usub a b = Some c \<longleftrightarrow> unat a = unat b + unat c"
  by (auto simp: usub_def word_le_nat_alt unat_sub word_unat_eq_iff split: if_splits)

lemma size_sub_Some_iff [checked_arith]:
  "size_sub a b = Some c \<longleftrightarrow> a = b + c"
  by (auto simp: size_sub_def)

lemma size_div_Some_iff [checked_arith]:
  "size_div a b = Some c \<longleftrightarrow> b \<noteq> 0 \<and> c = a div b"
  by (auto simp: size_div_def)

lemma uadd_None_iff: "uadd a b = None \<longleftrightarrow> 2 ^ LENGTH('w) \<le> unat a + unat (b :: 'w::len word)"
  by (auto simp: uadd_def)

lemma usub_None_iff: "usub a b = None \<longleftrightarrow> unat a < unat b"
  by (auto simp: usub_def word_le_nat_alt)

lemma size_sub_None_iff: "size_sub a b = None \<longleftrightarrow> a < b"
  by (auto simp: size_sub_def)

lemmas checked_arith_None = uadd_None_iff usub_None_iff size_sub_None_iff

section \<open>Arrays\<close>

text \<open>Indexing panics out of range, for reads and for writes.\<close>

definition array_get :: "'a list \<Rightarrow> usize \<Rightarrow> 'a option" where
  "array_get xs i = (if i < length xs then Some (xs ! i) else None)"

definition array_set :: "'a list \<Rightarrow> usize \<Rightarrow> 'a \<Rightarrow> 'a list option" where
  "array_set xs i v = (if i < length xs then Some (xs[i := v]) else None)"

lemma array_get_Some_iff [checked_arith]:
  "array_get xs i = Some v \<longleftrightarrow> i < length xs \<and> v = xs ! i"
  by (auto simp: array_get_def)

lemma array_set_Some_iff [checked_arith]:
  "array_set xs i v = Some ys \<longleftrightarrow> i < length xs \<and> ys = xs[i := v]"
  by (auto simp: array_set_def)

section \<open>Fallible steps on a state\<close>

text \<open>
  \<open>('s, 'e, 'a) step\<close> is the result of a method with \<open>&mut self\<close> that returns
  \<open>Result<'a, 'e>\<close>: it may panic, and it returns the state on success and on error.
  \<open>and_then\<close> is the \<open>?\<close> operator.
\<close>

type_synonym ('s, 'e, 'a) step = "(('e + 'a) \<times> 's) option"

definition and_then ::
  "('s, 'e, 'a) step \<Rightarrow> ('a \<Rightarrow> 's \<Rightarrow> ('s, 'e, 'b) step) \<Rightarrow> ('s, 'e, 'b) step" where
  "and_then m f =
     (case m of
        None \<Rightarrow> None
      | Some (Inl e, s) \<Rightarrow> Some (Inl e, s)
      | Some (Inr a, s) \<Rightarrow> f a s)"

lemma and_then_simps [simp]:
  "and_then None f = None"
  "and_then (Some (Inl e, s)) f = Some (Inl e, s)"
  "and_then (Some (Inr a, s)) f = f a s"
  by (simp_all add: and_then_def)

lemma and_then_Inr_iff:
  "and_then m f = Some (Inr b, t) \<longleftrightarrow> (\<exists>a s. m = Some (Inr a, s) \<and> f a s = Some (Inr b, t))"
  by (auto simp: and_then_def split: option.splits sum.splits)

lemma and_then_Some_cases:
  assumes "and_then m f = Some r"
  obtains (err) e s where "m = Some (Inl e, s)" "r = (Inl e, s)"
  | (ok) a s where "m = Some (Inr a, s)" "f a s = Some r"
  using assms by (auto simp: and_then_def split: option.splits sum.splits)

section \<open>Shared lemmas\<close>

lemma unat_ucast_up:
  "LENGTH('a) \<le> LENGTH('b) \<Longrightarrow> unat (ucast (n :: 'a::len word) :: 'b::len word) = unat n"
proof -
  assume "LENGTH('a) \<le> LENGTH('b)"
  then have "(2 :: nat) ^ LENGTH('a) \<le> 2 ^ LENGTH('b)" by simp
  moreover have "unat n < 2 ^ LENGTH('a)" by (rule unsigned_less)
  ultimately have "unat n < 2 ^ LENGTH('b)" by linarith
  then show ?thesis by (simp add: unsigned_ucast_eq take_bit_nat_eq_self)
qed

lemma uadd_fits:
  assumes "unat a + unat b < 2 ^ LENGTH('w)"
  shows "\<exists>x. uadd a b = Some x \<and> unat (x :: 'w::len word) = unat a + unat b"
proof -
  have "uadd a b = Some (a + b)" using assms by (simp add: uadd_def)
  then show ?thesis by (metis uadd_Some_iff)
qed

lemma uadd_of_nat:
  assumes "unat s + i < 2 ^ LENGTH('w)"
  shows "\<exists>x. uadd s (word_of_nat i) = Some x \<and> unat (x :: 'w::len word) = unat s + i"
proof -
  have i: "unat (word_of_nat i :: 'w word) = i"
    using assms by (simp add: unat_of_nat)
  then have u: "uadd s (word_of_nat i) = Some (s + word_of_nat i)"
    using assms by (simp add: uadd_def)
  then have "unat (s + word_of_nat i) = unat s + i"
    by (simp only: uadd_Some_iff i)
  with u show ?thesis by blast
qed

lemma unat_word_of_nat: "i < 2 ^ LENGTH('w) \<Longrightarrow> unat (word_of_nat i :: 'w::len word) = i"
  by (simp add: unat_of_nat)

lemma uadd_of_nat_1:
  assumes "Suc i < 2 ^ LENGTH('w)"
  shows "\<exists>x. uadd (word_of_nat i) 1 = Some x \<and> unat (x :: 'w::len word) = Suc i"
  using uadd_of_nat [of "word_of_nat i :: 'w word" 1] unat_word_of_nat [of i, where ?'w = 'w] assms
  by auto

lemma nat_mask_eq_mod: "(n :: nat) AND (2 ^ k - 1) = n mod 2 ^ k"
  by (simp add: take_bit_eq_mask mask_eq_exp_minus_1 flip: take_bit_eq_mod)

lemma mod_neq_in_window:
  fixes a b n :: nat
  assumes "a < b" "b < a + n"
  shows "a mod n \<noteq> b mod n"
proof
  assume "a mod n = b mod n"
  then have "n dvd b - a"
    using assms(1) by (metis less_imp_le mod_eq_dvd_iff_nat)
  then show False
    using assms by (auto dest: dvd_imp_le)
qed

lemma mod_eq_in_window:
  fixes a b s n :: nat
  assumes "s \<le> a" "a < s + n" "s \<le> b" "b < s + n" "a mod n = b mod n"
  shows "a = b"
  using assms mod_neq_in_window [of a b n] mod_neq_in_window [of b a n]
  by (metis add_le_mono1 less_le_trans linorder_neqE_nat)

text \<open>Every slot of a ring of size \<open>n\<close> belongs to one index of the window.\<close>

lemma slot_in_window:
  fixes j n s :: nat
  assumes "j < n"
  obtains i where "s \<le> i" "i < s + n" "i mod n = j"
proof
  define i where "i = s + (j + n - s mod n) mod n"
  have "s mod n \<le> j + n"
    using assms by (meson less_imp_le mod_less_divisor order_le_less_trans trans_le_add2 zero_le)
  then have "(s + (j + n - s mod n)) mod n = j mod n"
    by (metis add.commute le_add_diff_inverse2 mod_add_left_eq mod_add_self2)
  then show "i mod n = j"
    using assms by (simp add: i_def mod_add_right_eq)
  show "s \<le> i" "i < s + n"
    using assms by (simp_all add: i_def)
qed

lemma drop_append_eq [simp]: "length xs = n \<Longrightarrow> drop n (xs @ ys) = ys"
  by simp

lemma take_append_eq [simp]: "length xs = n \<Longrightarrow> take n (xs @ ys) = xs"
  by simp

end
