(* ===== verification/Fragment.thy ===== *)
theory Fragment
  imports Prelude
begin

text \<open>
  The data that travels between peers: \<open>reliability/fragment.rs\<close> (reliability classes and
  send priorities) and \<open>proto/datagram.rs\<close> (fragments, datagrams, their flags and sizes).
\<close>

section \<open>Reliability classes\<close>

datatype reliability =
    Unreliable
  | UnreliableSequenced
  | Reliable
  | ReliableOrdered
  | ReliableSequenced
  | UnreliableWithAckReceipt
  | ReliableWithAckReceipt
  | ReliableOrderedWithAckReceipt

definition reliability_from_u8 :: "u8 \<Rightarrow> reliability option" where
  "reliability_from_u8 v =
     (if v = 0 then Some Unreliable
      else if v = 1 then Some UnreliableSequenced
      else if v = 2 then Some Reliable
      else if v = 3 then Some ReliableOrdered
      else if v = 4 then Some ReliableSequenced
      else if v = 5 then Some UnreliableWithAckReceipt
      else if v = 6 then Some ReliableWithAckReceipt
      else if v = 7 then Some ReliableOrderedWithAckReceipt
      else None)"

fun reliability_to_u8 :: "reliability \<Rightarrow> u8" where
  "reliability_to_u8 Unreliable = 0"
| "reliability_to_u8 UnreliableSequenced = 1"
| "reliability_to_u8 Reliable = 2"
| "reliability_to_u8 ReliableOrdered = 3"
| "reliability_to_u8 ReliableSequenced = 4"
| "reliability_to_u8 UnreliableWithAckReceipt = 5"
| "reliability_to_u8 ReliableWithAckReceipt = 6"
| "reliability_to_u8 ReliableOrderedWithAckReceipt = 7"

fun is_reliable :: "reliability \<Rightarrow> bool" where
  "is_reliable Reliable = True"
| "is_reliable ReliableOrdered = True"
| "is_reliable ReliableSequenced = True"
| "is_reliable ReliableWithAckReceipt = True"
| "is_reliable ReliableOrderedWithAckReceipt = True"
| "is_reliable _ = False"

fun is_sequenced :: "reliability \<Rightarrow> bool" where
  "is_sequenced UnreliableSequenced = True"
| "is_sequenced ReliableSequenced = True"
| "is_sequenced _ = False"

fun is_ordered :: "reliability \<Rightarrow> bool" where
  "is_ordered ReliableOrdered = True"
| "is_ordered ReliableOrderedWithAckReceipt = True"
| "is_ordered _ = False"

fun reliablize :: "reliability \<Rightarrow> reliability" where
  "reliablize Unreliable = Reliable"
| "reliablize UnreliableSequenced = ReliableSequenced"
| "reliablize UnreliableWithAckReceipt = ReliableWithAckReceipt"
| "reliablize r = r"

section \<open>Priorities\<close>

text \<open>The derived \<open>Ord\<close> follows the declaration order; \<open>as usize\<close> is the discriminant.\<close>

datatype priority = Immediate | High | Medium | Low

fun priority_index :: "priority \<Rightarrow> usize" where
  "priority_index Immediate = 0"
| "priority_index High = 1"
| "priority_index Medium = 2"
| "priority_index Low = 3"

definition PRIORITY_COUNT :: usize where
  "PRIORITY_COUNT = 4"

lemma priority_index_inject [simp]: "priority_index p = priority_index q \<longleftrightarrow> p = q"
  by (cases p; cases q) simp_all

lemma priority_index_less [simp]: "priority_index p < PRIORITY_COUNT"
  by (cases p) (simp_all add: PRIORITY_COUNT_def)

instantiation priority :: linorder
begin

definition less_eq_priority :: "priority \<Rightarrow> priority \<Rightarrow> bool" where
  "less_eq_priority p q \<longleftrightarrow> priority_index p \<le> priority_index q"

definition less_priority :: "priority \<Rightarrow> priority \<Rightarrow> bool" where
  "less_priority p q \<longleftrightarrow> priority_index p < priority_index q"

instance
  by standard (auto simp: less_eq_priority_def less_priority_def)

end

section \<open>Fragments\<close>

record ordering_info =
  ordering_index :: u32
  channel :: u8

record split_info =
  split_size :: u32
  split_id :: u16
  split_index :: u32

record fragment =
  reliability :: reliability
  reliable_index :: "u32 option"
  sequence_index :: "u32 option"
  ordering_info :: "ordering_info option"
  split_info :: "split_info option"
  data :: bytes

definition SPLIT_INFO_SIZE :: usize where
  "SPLIT_INFO_SIZE = 10"

definition RELIABILITY_MASK :: u8 where
  "RELIABILITY_MASK = 0xE0"

definition IS_SPLIT :: u8 where
  "IS_SPLIT = 0x10"

definition calc_header_size :: "fragment \<Rightarrow> usize" where
  "calc_header_size f =
     1 + 2
     + (if is_reliable (reliability f) then 3 else 0)
     + (if is_sequenced (reliability f) then 3 + 4
        else if is_ordered (reliability f) then 4
        else 0)
     + (if split_info f \<noteq> None then 10 else 0)"

definition calc_full_size :: "fragment \<Rightarrow> usize" where
  "calc_full_size f = calc_header_size f + length (data f)"

section \<open>Datagrams\<close>

datatype datagram =
    Ack "f32_bits option" "u32 list" \<comment> \<open>\<open>arrival_rate\<close>, \<open>seqs\<close>\<close>
  | Nak "u32 list"
  | Packet bool bool bool u32 "fragment list"
      \<comment> \<open>\<open>is_packet_pair\<close>, \<open>is_continuous_send\<close>, \<open>needs_arrival_rate\<close>, \<open>seq\<close>, \<open>fragments\<close>\<close>

definition HEADER_SIZE :: usize where
  "HEADER_SIZE = 1"

definition PACKET_HEADER_SIZE :: usize where
  "PACKET_HEADER_SIZE = 3"

definition IS_VALID :: u8 where "IS_VALID = 0x80"
definition IS_ACK :: u8 where "IS_ACK = 0x40"
definition IS_NAK :: u8 where "IS_NAK = 0x20"
definition HAS_ARRIVAL_RATE :: u8 where "HAS_ARRIVAL_RATE = 0x20"
definition IS_PACKET_PAIR :: u8 where "IS_PACKET_PAIR = 0x10"
definition IS_CONTINUOUS_SEND :: u8 where "IS_CONTINUOUS_SEND = 0x08"
definition NEEDS_ARRIVAL_RATE :: u8 where "NEEDS_ARRIVAL_RATE = 0x04"

lemmas flag_defs =
  IS_VALID_def IS_ACK_def IS_NAK_def HAS_ARRIVAL_RATE_def IS_PACKET_PAIR_def
  IS_CONTINUOUS_SEND_def NEEDS_ARRIVAL_RATE_def RELIABILITY_MASK_def IS_SPLIT_def

section \<open>Basic facts\<close>

lemma reliability_from_to_u8 [simp]: "reliability_from_u8 (reliability_to_u8 r) = Some r"
  by (cases r) (simp_all add: reliability_from_u8_def)

lemma reliability_to_from_u8: "reliability_from_u8 v = Some r \<Longrightarrow> reliability_to_u8 r = v"
  by (auto simp: reliability_from_u8_def split: if_splits)

lemma reliability_to_u8_less: "reliability_to_u8 r < 8"
  by (cases r) simp_all

lemma not_ordered_and_sequenced: "is_ordered r \<Longrightarrow> \<not> is_sequenced r"
  by (cases r) simp_all

lemma is_ordered_reliable: "is_ordered r \<Longrightarrow> is_reliable r"
  by (cases r) simp_all

lemma calc_header_size_bounds:
  "3 \<le> calc_header_size f" "calc_header_size f \<le> 23"
  by (simp_all add: calc_header_size_def)

text \<open>
  The fields a fragment carries on the wire are determined by its reliability class; the
  numbers are cut to 24 bits by the encoder, and the payload length travels as a bit count
  in 16 bits.
\<close>

definition fits_u24 :: "u32 \<Rightarrow> bool" where
  "fits_u24 n \<longleftrightarrow> unat n < 2 ^ 24"

definition fields_match :: "fragment \<Rightarrow> bool" where
  "fields_match f \<longleftrightarrow>
     (reliable_index f \<noteq> None \<longleftrightarrow> is_reliable (reliability f)) \<and>
     (sequence_index f \<noteq> None \<longleftrightarrow> is_sequenced (reliability f)) \<and>
     (ordering_info f \<noteq> None \<longleftrightarrow> is_sequenced (reliability f) \<or> is_ordered (reliability f))"

definition wire_fragment :: "fragment \<Rightarrow> bool" where
  "wire_fragment f \<longleftrightarrow>
     fields_match f \<and>
     pred_option fits_u24 (reliable_index f) \<and>
     pred_option fits_u24 (sequence_index f) \<and>
     pred_option (\<lambda>oi. fits_u24 (ordering_index oi)) (ordering_info f) \<and>
     length (data f) < 2 ^ 13"

end
