(* ===== verification/Message.thy ===== *)
theory Message
  imports Prelude
begin

text \<open>
  The identifiers of the handshake and control messages (\<open>proto/message.rs\<close>), the protocol
  constants (\<open>proto/mod.rs\<close>), the error types (\<open>error.rs\<close>) and the messages handed to the
  application (\<open>app.rs\<close>).
\<close>

section \<open>Message identifiers\<close>

datatype offline_id =
    UnconnectedPing
  | UnconnectedPong
  | OpenConnectionRequest1
  | OpenConnectionReply1
  | OpenConnectionRequest2
  | OpenConnectionReply2
  | AlreadyConnected
  | NoFreeIncomingConnections
  | ConnectionBanned
  | IncompatibleProtocolVersion
  | IpRecentlyConnected

definition offline_from_u8 :: "u8 \<Rightarrow> offline_id option" where
  "offline_from_u8 v =
     (if v = 0x01 then Some UnconnectedPing
      else if v = 0x1c then Some UnconnectedPong
      else if v = 0x05 then Some OpenConnectionRequest1
      else if v = 0x06 then Some OpenConnectionReply1
      else if v = 0x07 then Some OpenConnectionRequest2
      else if v = 0x08 then Some OpenConnectionReply2
      else if v = 0x12 then Some AlreadyConnected
      else if v = 0x14 then Some NoFreeIncomingConnections
      else if v = 0x17 then Some ConnectionBanned
      else if v = 0x19 then Some IncompatibleProtocolVersion
      else if v = 0x1a then Some IpRecentlyConnected
      else None)"

fun offline_to_u8 :: "offline_id \<Rightarrow> u8" where
  "offline_to_u8 UnconnectedPing = 0x01"
| "offline_to_u8 UnconnectedPong = 0x1c"
| "offline_to_u8 OpenConnectionRequest1 = 0x05"
| "offline_to_u8 OpenConnectionReply1 = 0x06"
| "offline_to_u8 OpenConnectionRequest2 = 0x07"
| "offline_to_u8 OpenConnectionReply2 = 0x08"
| "offline_to_u8 AlreadyConnected = 0x12"
| "offline_to_u8 NoFreeIncomingConnections = 0x14"
| "offline_to_u8 ConnectionBanned = 0x17"
| "offline_to_u8 IncompatibleProtocolVersion = 0x19"
| "offline_to_u8 IpRecentlyConnected = 0x1a"

datatype online_id =
    ConnectedPing
  | ConnectedPong
  | ConnectionRequest
  | ConnectionRequestAccepted
  | NewIncomingConnection
  | DisconnectionNotification

definition online_from_u8 :: "u8 \<Rightarrow> online_id option" where
  "online_from_u8 v =
     (if v = 0x00 then Some ConnectedPing
      else if v = 0x03 then Some ConnectedPong
      else if v = 0x09 then Some ConnectionRequest
      else if v = 0x10 then Some ConnectionRequestAccepted
      else if v = 0x13 then Some NewIncomingConnection
      else if v = 0x15 then Some DisconnectionNotification
      else None)"

fun online_to_u8 :: "online_id \<Rightarrow> u8" where
  "online_to_u8 ConnectedPing = 0x00"
| "online_to_u8 ConnectedPong = 0x03"
| "online_to_u8 ConnectionRequest = 0x09"
| "online_to_u8 ConnectionRequestAccepted = 0x10"
| "online_to_u8 NewIncomingConnection = 0x13"
| "online_to_u8 DisconnectionNotification = 0x15"

lemma offline_from_to_u8 [simp]: "offline_from_u8 (offline_to_u8 i) = Some i"
  by (cases i) (simp_all add: offline_from_u8_def)

lemma online_from_to_u8 [simp]: "online_from_u8 (online_to_u8 i) = Some i"
  by (cases i) (simp_all add: online_from_u8_def)

lemma offline_from_u8_Some_iff: "offline_from_u8 v = Some i \<longleftrightarrow> v = offline_to_u8 i"
  by (cases i) (auto simp: offline_from_u8_def)

lemma online_from_u8_Some_iff: "online_from_u8 v = Some i \<longleftrightarrow> v = online_to_u8 i"
  by (cases i) (auto simp: online_from_u8_def)

section \<open>Protocol constants\<close>

definition PROTOCOL_VERSION :: u8 where "PROTOCOL_VERSION = 11"
definition MAX_MTU_SIZE :: usize where "MAX_MTU_SIZE = 1492"
definition MIN_MTU_SIZE :: usize where "MIN_MTU_SIZE = 576"
definition IP_UDP_HEADER_SIZE :: usize where "IP_UDP_HEADER_SIZE = 28"
definition MTU_SIZES :: "usize list" where "MTU_SIZES = [MAX_MTU_SIZE, 1200, MIN_MTU_SIZE]"
definition MIN_ONLINE_PACKET_SIZE :: usize where "MIN_ONLINE_PACKET_SIZE = 6"
definition MIN_PACKET_SIZE :: usize where "MIN_PACKET_SIZE = MIN_ONLINE_PACKET_SIZE"
definition MIN_OFFLINE_PACKET_SIZE :: usize where "MIN_OFFLINE_PACKET_SIZE = 25"
definition DEFAULT_TIMEOUT :: u64 where "DEFAULT_TIMEOUT = 10000"

definition OFFLINE_MESSAGE_DATA_ID :: bytes where
  "OFFLINE_MESSAGE_DATA_ID =
     [0x00, 0xFF, 0xFF, 0x00, 0xFE, 0xFE, 0xFE, 0xFE,
      0xFD, 0xFD, 0xFD, 0xFD, 0x12, 0x34, 0x56, 0x78]"

lemma length_OFFLINE_MESSAGE_DATA_ID [simp]: "length OFFLINE_MESSAGE_DATA_ID = 16"
  by (simp add: OFFLINE_MESSAGE_DATA_ID_def)

section \<open>Errors\<close>

datatype ruk_bytes_error =
    TryGet
  | Utf8
  | FromUtf8
  | InvalidData string

datatype buffer_overflow_error = BufferOverflowError

datatype layer_error =
    LayerRukBytes ruk_bytes_error
  | BufferOverflow buffer_overflow_error
  | LayerFailedToSend

datatype peer_error =
    PeerRukBytes ruk_bytes_error
  | InvalidAddress
  | FailedToBind
  | AlreadyListening
  | AlreadyConnecting
  | InvalidPacket string
  | FailedToSend

end
