(* ===== verification/Wire.thy ===== *)
theory Wire
  imports Prelude
begin

text \<open>
  The byte-level interface of the \<open>bytes\<close> crate, which is not part of the repository. A
  \<open>Bytes\<close> or \<open>BytesMut\<close> value is the sequence of its bytes; how a number is laid out in
  bytes is the crate's business, so the layout is a parameter \<open>wire\<close> of every encoder and
  decoder. The locale \<open>wire_format\<close> states what its documentation promises; \<open>network_wire\<close>
  (big endian, and little endian for \<open>put_uint_le\<close>) shows the promises can be kept.
\<close>

record wire =
  put_u16 :: "u16 \<Rightarrow> bytes"
  get_u16 :: "bytes \<Rightarrow> u16"
  put_u32 :: "u32 \<Rightarrow> bytes"
  get_u32 :: "bytes \<Rightarrow> u32"
  put_u64 :: "u64 \<Rightarrow> bytes"
  get_u64 :: "bytes \<Rightarrow> u64"
  put_f32 :: "f32_bits \<Rightarrow> bytes"
  get_f32 :: "bytes \<Rightarrow> f32_bits"
  put_uint_le :: "u64 \<Rightarrow> usize \<Rightarrow> bytes"
  get_uint_le :: "bytes \<Rightarrow> u64"

locale wire_format =
  fixes w :: wire
  assumes length_put_u16 [simp]: "length (put_u16 w n16) = 2"
    and get_put_u16 [simp]: "get_u16 w (put_u16 w n16) = n16"
    and length_put_u32 [simp]: "length (put_u32 w n32) = 4"
    and get_put_u32 [simp]: "get_u32 w (put_u32 w n32) = n32"
    and length_put_u64 [simp]: "length (put_u64 w n64) = 8"
    and get_put_u64 [simp]: "get_u64 w (put_u64 w n64) = n64"
    and length_put_f32 [simp]: "length (put_f32 w x) = 4"
    and get_put_f32 [simp]: "get_f32 w (put_f32 w x) = x"
    and length_put_uint_le [simp]: "k \<le> 8 \<Longrightarrow> length (put_uint_le w n64 k) = k"
    and get_put_uint_le:
      "k \<le> 8 \<Longrightarrow> unat (get_uint_le w (put_uint_le w n64 k)) = unat n64 mod 256 ^ k"
    and get_uint_le_less: "length bs \<le> 8 \<Longrightarrow> unat (get_uint_le w bs) < 256 ^ length bs"

section \<open>An instance: network byte order\<close>

fun le_bytes :: "nat \<Rightarrow> nat \<Rightarrow> bytes" where
  "le_bytes 0 n = []"
| "le_bytes (Suc k) n = word_of_nat (n mod 256) # le_bytes k (n div 256)"

fun le_value :: "bytes \<Rightarrow> nat" where
  "le_value [] = 0"
| "le_value (b # bs) = unat b + 256 * le_value bs"

definition network_wire :: wire where
  "network_wire =
     \<lparr>put_u16 = (\<lambda>n. rev (le_bytes 2 (unat n))),
      get_u16 = (\<lambda>bs. word_of_nat (le_value (rev bs))),
      put_u32 = (\<lambda>n. rev (le_bytes 4 (unat n))),
      get_u32 = (\<lambda>bs. word_of_nat (le_value (rev bs))),
      put_u64 = (\<lambda>n. rev (le_bytes 8 (unat n))),
      get_u64 = (\<lambda>bs. word_of_nat (le_value (rev bs))),
      put_f32 = (\<lambda>n. rev (le_bytes 4 (unat n))),
      get_f32 = (\<lambda>bs. word_of_nat (le_value (rev bs))),
      put_uint_le = (\<lambda>n k. le_bytes k (unat n)),
      get_uint_le = (\<lambda>bs. word_of_nat (le_value bs))\<rparr>"

lemma length_le_bytes [simp]: "length (le_bytes k n) = k"
  by (induction k arbitrary: n) simp_all

lemma le_value_le_bytes [simp]: "le_value (le_bytes k n) = n mod 256 ^ k"
proof (induction k arbitrary: n)
  case (Suc k)
  have "unat (word_of_nat (n mod 256) :: u8) = n mod 256"
    by (simp add: unat_of_nat)
  then show ?case
    by (simp add: Suc.IH mod_mult2_eq)
qed simp

lemma le_value_less: "le_value bs < 256 ^ length bs"
proof (induction bs)
  case (Cons b bs)
  have "unat b < 2 ^ LENGTH(8)" by (rule unsigned_less)
  then have "unat b < 256" by simp
  with Cons.IH show ?case by simp
qed simp

lemma word_of_unat_mod: "m = 2 ^ LENGTH('w) \<Longrightarrow> word_of_nat (unat n mod m) = (n :: 'w::len word)"
proof -
  assume "m = 2 ^ LENGTH('w)"
  moreover have "unat n < 2 ^ LENGTH('w)" by (rule unsigned_less)
  ultimately have "unat n mod m = unat n" by simp
  then show ?thesis by simp
qed

lemma network_wire_format: "wire_format network_wire"
proof
  fix bs :: bytes
  assume "length bs \<le> 8"
  then have "256 ^ length bs \<le> (256 :: nat) ^ 8"
    by (rule power_increasing) simp
  with le_value_less [of bs] have "le_value bs < 2 ^ 64"
    by simp
  then show "unat (get_uint_le network_wire bs) < 256 ^ length bs"
    using le_value_less [of bs] by (simp add: network_wire_def unat_of_nat)
next
  fix k :: usize and n :: u64
  assume "k \<le> 8"
  have "unat n mod 256 ^ k \<le> unat n" by simp
  also have "unat n < 2 ^ LENGTH(64)" by (rule unsigned_less)
  finally show "unat (get_uint_le network_wire (put_uint_le network_wire n k)) = unat n mod 256 ^ k"
    by (simp add: network_wire_def unat_of_nat)
qed (simp_all add: network_wire_def word_of_unat_mod)

interpretation network: wire_format network_wire
  by (rule network_wire_format)

end
