(* ===== verification/Utf8.thy ===== *)
theory Utf8
  imports Prelude
begin

text \<open>
  Rust strings as their UTF-8 bytes, and \<open>String::from_utf8_lossy\<close> of the standard library,
  which the decoder applies to received strings: every maximal invalid prefix of a character
  is replaced by U+FFFD, valid text is unchanged.
\<close>

definition is_continuation :: "u8 \<Rightarrow> bool" where
  "is_continuation b \<longleftrightarrow> b AND 0xC0 = 0x80"

definition byte_at :: "bytes \<Rightarrow> nat \<Rightarrow> u8" where
  "byte_at bs i = (if i < length bs then bs ! i else 0)"

text \<open>The second byte of a three or four byte character, by its first.\<close>

definition second_of_3 :: "u8 \<Rightarrow> u8 \<Rightarrow> bool" where
  "second_of_3 a b \<longleftrightarrow>
     (a = 0xE0 \<and> 0xA0 \<le> b \<and> b \<le> 0xBF) \<or>
     (0xE1 \<le> a \<and> a \<le> 0xEC \<and> 0x80 \<le> b \<and> b \<le> 0xBF) \<or>
     (a = 0xED \<and> 0x80 \<le> b \<and> b \<le> 0x9F) \<or>
     (0xEE \<le> a \<and> a \<le> 0xEF \<and> 0x80 \<le> b \<and> b \<le> 0xBF)"

definition second_of_4 :: "u8 \<Rightarrow> u8 \<Rightarrow> bool" where
  "second_of_4 a b \<longleftrightarrow>
     (a = 0xF0 \<and> 0x90 \<le> b \<and> b \<le> 0xBF) \<or>
     (0xF1 \<le> a \<and> a \<le> 0xF3 \<and> 0x80 \<le> b \<and> b \<le> 0xBF) \<or>
     (a = 0xF4 \<and> 0x80 \<le> b \<and> b \<le> 0x8F)"

text \<open>Whether the input starts with a character, and how many bytes the chunk takes.\<close>

definition utf8_chunk :: "bytes \<Rightarrow> bool \<times> nat" where
  "utf8_chunk bs =
     (let a = byte_at bs 0; b = byte_at bs 1; c = byte_at bs 2; d = byte_at bs 3 in
      if a < 0x80 then (True, 1)
      else if 0xC2 \<le> a \<and> a \<le> 0xDF then
        (if is_continuation b then (True, 2) else (False, 1))
      else if 0xE0 \<le> a \<and> a \<le> 0xEF then
        (if \<not> second_of_3 a b then (False, 1)
         else if is_continuation c then (True, 3) else (False, 2))
      else if 0xF0 \<le> a \<and> a \<le> 0xF4 then
        (if \<not> second_of_4 a b then (False, 1)
         else if \<not> is_continuation c then (False, 2)
         else if is_continuation d then (True, 4) else (False, 3))
      else (False, 1))"

lemma utf8_chunk_pos: "0 < snd (utf8_chunk bs)"
  by (simp add: utf8_chunk_def Let_def)

definition replacement_character :: bytes where
  "replacement_character = [0xEF, 0xBF, 0xBD]"

function from_utf8_lossy :: "bytes \<Rightarrow> bytes" where
  "from_utf8_lossy bs =
     (if bs = [] then []
      else case utf8_chunk bs of (valid, n) \<Rightarrow>
        (if valid then take n bs else replacement_character) @ from_utf8_lossy (drop n bs))"
  by pat_completeness auto
termination
proof (relation "measure length")
  fix bs valid n
  assume "bs \<noteq> []" "(valid, n) = utf8_chunk bs"
  then show "(drop n bs, bs) \<in> measure length"
    using utf8_chunk_pos [of bs] by (metis diff_less in_measure length_drop length_greater_0_conv snd_conv)
qed simp

declare from_utf8_lossy.simps [simp del]

text \<open>A Rust \<open>String\<close>: bytes that are a sequence of characters.\<close>

inductive valid_utf8 :: "bytes \<Rightarrow> bool" where
  valid_nil: "valid_utf8 []"
| valid_char: "bs \<noteq> [] \<Longrightarrow> utf8_chunk bs = (True, n) \<Longrightarrow> valid_utf8 (drop n bs) \<Longrightarrow> valid_utf8 bs"

lemma from_utf8_lossy_valid: "valid_utf8 bs \<Longrightarrow> from_utf8_lossy bs = bs"
proof (induction rule: valid_utf8.induct)
  case valid_nil
  show ?case by (subst from_utf8_lossy.simps) simp
next
  case (valid_char bs n)
  then show ?case by (subst from_utf8_lossy.simps) simp
qed

lemma valid_utf8_ascii: "\<forall>b \<in> set bs. b < 0x80 \<Longrightarrow> valid_utf8 bs"
proof (induction bs)
  case (Cons b bs)
  then have "utf8_chunk (b # bs) = (True, 1)"
    by (simp add: utf8_chunk_def byte_at_def)
  with Cons show ?case
    by (simp add: valid_char [of "b # bs" 1])
qed (rule valid_nil)

end
