(* ===== verification/Codec.thy ===== *)
theory Codec
  imports Fragment Message Wire Utf8
begin

text \<open>
  The wire codec, \<open>proto/bytes.rs\<close>: \<open>RukBuf\<close> decodes from a buffer that it consumes from the
  front, \<open>RukBufMut\<close> appends to a buffer. A decoder is a function from the remaining bytes to an
  error or the value and the bytes left; an encoder gives the bytes it appends. The theory
  defines both traits, proves that decoders only consume, that decoding inverts encoding, that
  the encoded length of a fragment is \<open>calc_full_size\<close>, and what the decoder accepts.
\<close>

section \<open>Decoders\<close>

type_synonym 'a parser = "bytes \<Rightarrow> ruk_bytes_error + ('a \<times> bytes)"

definition preturn :: "'a \<Rightarrow> 'a parser" where
  "preturn a = (\<lambda>bs. Inr (a, bs))"

definition pfail :: "ruk_bytes_error \<Rightarrow> 'a parser" where
  "pfail e = (\<lambda>bs. Inl e)"

definition pbind :: "'a parser \<Rightarrow> ('a \<Rightarrow> 'b parser) \<Rightarrow> 'b parser" where
  "pbind p f = (\<lambda>bs. case p bs of Inl e \<Rightarrow> Inl e | Inr (a, r) \<Rightarrow> f a r)"

definition pmap :: "('a \<Rightarrow> 'b) \<Rightarrow> 'a parser \<Rightarrow> 'b parser" where
  "pmap f p = pbind p (\<lambda>a. preturn (f a))"

definition pwhen :: "bool \<Rightarrow> 'a parser \<Rightarrow> 'a option parser" where
  "pwhen c p = (if c then pmap Some p else preturn None)"

fun ptimes :: "nat \<Rightarrow> 'a parser \<Rightarrow> 'a list parser" where
  "ptimes 0 p = preturn []"
| "ptimes (Suc n) p = pbind p (\<lambda>a. pbind (ptimes n p) (\<lambda>xs. preturn (a # xs)))"

lemmas parser_defs = preturn_def pfail_def pbind_def pmap_def pwhen_def

text \<open>The crate's fallible reads: an error, and nothing consumed, when too few bytes are left.\<close>

definition try_get_u8 :: "u8 parser" where
  "try_get_u8 bs = (case bs of [] \<Rightarrow> Inl TryGet | b # r \<Rightarrow> Inr (b, r))"

definition try_take :: "usize \<Rightarrow> bytes parser" where
  "try_take n bs = (if length bs < n then Inl TryGet else Inr (take n bs, drop n bs))"

definition try_get_u16 :: "wire \<Rightarrow> u16 parser" where
  "try_get_u16 w = pmap (get_u16 w) (try_take 2)"

definition try_get_u32 :: "wire \<Rightarrow> u32 parser" where
  "try_get_u32 w = pmap (get_u32 w) (try_take 4)"

definition try_get_u64 :: "wire \<Rightarrow> u64 parser" where
  "try_get_u64 w = pmap (get_u64 w) (try_take 8)"

definition try_get_f32 :: "wire \<Rightarrow> f32_bits parser" where
  "try_get_f32 w = pmap (get_f32 w) (try_take 4)"

text \<open>The trait \<open>RukBuf\<close>.\<close>

definition try_advance :: "usize \<Rightarrow> unit parser" where
  "try_advance n bs =
     (if length bs < n then Inl (InvalidData ''Not enough data'') else Inr ((), drop n bs))"

definition try_split_to :: "usize \<Rightarrow> bytes parser" where
  "try_split_to n bs =
     (if length bs < n then Inl (InvalidData ''Not enough data'')
      else Inr (take n bs, drop n bs))"

definition try_get_u24_le :: "wire \<Rightarrow> u32 parser" where
  "try_get_u24_le w = pmap (\<lambda>bs. ucast (get_uint_le w bs)) (try_take 3)"

definition try_get_string :: "wire \<Rightarrow> bytes parser" where
  "try_get_string w =
     pbind (try_get_u16 w) (\<lambda>len. pmap from_utf8_lossy (try_split_to (unat len)))"

text \<open>
  \<open>SocketAddr\<close> of the standard library: \<open>V4\<close> with four octets and a port, \<open>V6\<close> with sixteen
  octets, a port, the flow information and the scope id.
\<close>

datatype socket_addr = V4 bytes u16 | V6 bytes u16 u32 u32

definition try_get_addr :: "wire \<Rightarrow> socket_addr parser" where
  "try_get_addr w =
     pbind try_get_u8 (\<lambda>kind.
       if kind = 4 then
         pbind (ptimes 4 try_get_u8) (\<lambda>ip.
         pbind (try_get_u16 w) (\<lambda>port.
         preturn (V4 ip port)))
       else if kind = 6 then
         pbind (try_get_u16 w) (\<lambda>_.
         pbind (try_get_u16 w) (\<lambda>port.
         pbind (try_get_u32 w) (\<lambda>_.
         pbind (ptimes 16 try_get_u8) (\<lambda>ip.
         pbind (try_get_u32 w) (\<lambda>_.
         preturn (V6 ip port 0 0))))))
       else pfail (InvalidData ''Invalid address type''))"

definition range_inclusive :: "u32 \<Rightarrow> u32 \<Rightarrow> u32 list" where
  "range_inclusive start end' = map word_of_nat [unat start ..< Suc (unat end')]"

fun try_get_seqs_loop :: "wire \<Rightarrow> nat \<Rightarrow> u32 list parser" where
  "try_get_seqs_loop w 0 = preturn []"
| "try_get_seqs_loop w (Suc n) =
     pbind try_get_u8 (\<lambda>tag.
       if tag = 0 then
         pbind (try_get_u24_le w) (\<lambda>start.
         pbind (try_get_u24_le w) (\<lambda>end'.
         pmap (\<lambda>seqs. range_inclusive start end' @ seqs) (try_get_seqs_loop w n)))
       else if tag = 1 then
         pbind (try_get_u24_le w) (\<lambda>seq.
         pmap (\<lambda>seqs. seq # seqs) (try_get_seqs_loop w n))
       else pfail (InvalidData ''Invalid seq type''))"

definition try_get_seqs :: "wire \<Rightarrow> u32 list parser" where
  "try_get_seqs w = pbind (try_get_u16 w) (\<lambda>size. try_get_seqs_loop w (unat size))"

definition try_get_ordering_info :: "wire \<Rightarrow> ordering_info parser" where
  "try_get_ordering_info w =
     pbind (try_get_u24_le w) (\<lambda>i.
     pbind try_get_u8 (\<lambda>ch.
     preturn \<lparr>ordering_index = i, channel = ch\<rparr>))"

definition try_get_split_info :: "wire \<Rightarrow> split_info parser" where
  "try_get_split_info w =
     pbind (try_get_u32 w) (\<lambda>size.
     pbind (try_get_u16 w) (\<lambda>i.
     pbind (try_get_u32 w) (\<lambda>index.
     preturn \<lparr>split_size = size, split_id = i, split_index = index\<rparr>)))"

definition flags_reliability :: "u8 \<Rightarrow> reliability option" where
  "flags_reliability b = reliability_from_u8 (drop_bit 5 (b AND RELIABILITY_MASK))"

definition try_get_fragment :: "wire \<Rightarrow> fragment parser" where
  "try_get_fragment w =
     pbind try_get_u8 (\<lambda>bit_flags.
     case flags_reliability bit_flags of
       None \<Rightarrow> pfail (InvalidData ''Invalid reliability'')
     | Some r \<Rightarrow>
         pbind (try_get_u16 w) (\<lambda>bits.
         pbind (pwhen (is_reliable r) (try_get_u24_le w)) (\<lambda>ri.
         pbind (pwhen (is_sequenced r) (try_get_u24_le w)) (\<lambda>si.
         pbind (pwhen (is_sequenced r \<or> is_ordered r) (try_get_ordering_info w)) (\<lambda>oi.
         pbind (pwhen (bit_flags AND IS_SPLIT \<noteq> 0) (try_get_split_info w)) (\<lambda>sp.
         pbind (try_split_to (unat (bits div 8))) (\<lambda>d.
         preturn \<lparr>reliability = r, reliable_index = ri, sequence_index = si,
                  ordering_info = oi, split_info = sp, data = d\<rparr>)))))))"

subsection \<open>Decoders only consume\<close>

definition consuming :: "'a parser \<Rightarrow> bool" where
  "consuming p \<longleftrightarrow> (\<forall>bs a r. p bs = Inr (a, r) \<longrightarrow> length r \<le> length bs)"

named_theorems consuming_intros \<open>decoders never lengthen the input\<close>

lemma consuming_preturn [consuming_intros]: "consuming (preturn a)"
  by (simp add: consuming_def preturn_def)

lemma consuming_pfail [consuming_intros]: "consuming (pfail e)"
  by (simp add: consuming_def pfail_def)

lemma consuming_pbind [consuming_intros]:
  assumes "consuming p" "\<And>a. consuming (f a)"
  shows "consuming (pbind p f)"
  using assms unfolding consuming_def pbind_def
  by (fastforce split: sum.splits intro: order_trans)

lemma consuming_pmap [consuming_intros]: "consuming p \<Longrightarrow> consuming (pmap f p)"
  unfolding pmap_def by (intro consuming_intros)

lemma consuming_pwhen [consuming_intros]: "consuming p \<Longrightarrow> consuming (pwhen c p)"
  unfolding pwhen_def by (simp add: consuming_intros)

lemma consuming_try_get_u8 [consuming_intros]: "consuming try_get_u8"
  by (auto simp: consuming_def try_get_u8_def split: list.splits)

lemma consuming_try_take [consuming_intros]: "consuming (try_take n)"
  by (auto simp: consuming_def try_take_def split: if_splits)

lemma consuming_try_split_to [consuming_intros]: "consuming (try_split_to n)"
  by (auto simp: consuming_def try_split_to_def split: if_splits)

lemma consuming_numbers [consuming_intros]:
  "consuming (try_get_u16 w)" "consuming (try_get_u32 w)" "consuming (try_get_u64 w)"
  "consuming (try_get_f32 w)" "consuming (try_get_u24_le w)"
  unfolding try_get_u16_def try_get_u32_def try_get_u64_def try_get_f32_def try_get_u24_le_def
  by (intro consuming_intros)+

lemma consuming_infos [consuming_intros]:
  "consuming (try_get_ordering_info w)" "consuming (try_get_split_info w)"
  unfolding try_get_ordering_info_def try_get_split_info_def by (intro consuming_intros)+

lemma try_get_fragment_consumes:
  assumes "try_get_fragment w bs = Inr (f, r)"
  shows "length r < length bs"
proof -
  let ?rest = "\<lambda>bit_flags.
     case flags_reliability bit_flags of
       None \<Rightarrow> pfail (InvalidData ''Invalid reliability'')
     | Some r \<Rightarrow>
         pbind (try_get_u16 w) (\<lambda>bits.
         pbind (pwhen (is_reliable r) (try_get_u24_le w)) (\<lambda>ri.
         pbind (pwhen (is_sequenced r) (try_get_u24_le w)) (\<lambda>si.
         pbind (pwhen (is_sequenced r \<or> is_ordered r) (try_get_ordering_info w)) (\<lambda>oi.
         pbind (pwhen (bit_flags AND IS_SPLIT \<noteq> 0) (try_get_split_info w)) (\<lambda>sp.
         pbind (try_split_to (unat (bits div 8))) (\<lambda>d.
         preturn \<lparr>reliability = r, reliable_index = ri, sequence_index = si,
                  ordering_info = oi, split_info = sp, data = d\<rparr>))))))"
  obtain b bs' where bs: "bs = b # bs'"
    using assms by (cases bs) (auto simp: try_get_fragment_def pbind_def try_get_u8_def)
  have "consuming (?rest b)"
    by (cases "flags_reliability b")
      (simp_all add: consuming_intros)
  moreover have "?rest b bs' = Inr (f, r)"
    using assms by (simp add: bs try_get_fragment_def pbind_def try_get_u8_def)
  ultimately have "length r \<le> length bs'"
    unfolding consuming_def by blast
  then show ?thesis by (simp add: bs)
qed

subsection \<open>Datagrams\<close>

text \<open>The loop \<open>while self.has_remaining()\<close>.\<close>

function try_get_fragments :: "wire \<Rightarrow> bytes \<Rightarrow> ruk_bytes_error + (fragment list \<times> bytes)" where
  "try_get_fragments w bs =
     (if bs = [] then Inr ([], [])
      else case try_get_fragment w bs of
        Inl e \<Rightarrow> Inl e
      | Inr (f, r) \<Rightarrow>
          (case try_get_fragments w r of
             Inl e \<Rightarrow> Inl e
           | Inr (fs, r') \<Rightarrow> Inr (f # fs, r')))"
  by pat_completeness auto
termination
  by (relation "measure (\<lambda>(w, bs). length bs)") (auto simp: try_get_fragment_consumes)

declare try_get_fragments.simps [simp del]

definition try_get_datagram :: "wire \<Rightarrow> datagram parser" where
  "try_get_datagram w =
     pbind try_get_u8 (\<lambda>bit_flags.
       if bit_flags AND IS_VALID = 0 then pfail (InvalidData ''Invalid datagram'')
       else if bit_flags AND IS_ACK \<noteq> 0 then
         pbind (pwhen (bit_flags AND HAS_ARRIVAL_RATE \<noteq> 0) (try_get_f32 w)) (\<lambda>arrival_rate.
         pmap (Ack arrival_rate) (try_get_seqs w))
       else if bit_flags AND IS_NAK \<noteq> 0 then pmap Nak (try_get_seqs w)
       else
         pbind (try_get_u24_le w) (\<lambda>seq.
         pmap (Packet (bit_flags AND IS_PACKET_PAIR \<noteq> 0)
                 (bit_flags AND IS_CONTINUOUS_SEND \<noteq> 0)
                 (bit_flags AND NEEDS_ARRIVAL_RATE \<noteq> 0) seq)
              (try_get_fragments w)))"

section \<open>Encoders\<close>

text \<open>The trait \<open>RukBufMut\<close>.\<close>

definition put_u24_le :: "wire \<Rightarrow> u32 \<Rightarrow> bytes" where
  "put_u24_le w n = put_uint_le w (ucast n) 3"

definition put_string :: "wire \<Rightarrow> bytes \<Rightarrow> bytes" where
  "put_string w s = put_u16 w (word_of_nat (length s)) @ s"

fun put_addr :: "wire \<Rightarrow> socket_addr \<Rightarrow> bytes" where
  "put_addr w (V4 ip port) = [4] @ ip @ put_u16 w port"
| "put_addr w (V6 ip port flowinfo scope_id) =
     [6] @ put_u16 w 0 @ put_u16 w port @ put_u32 w 0 @ ip @ put_u32 w 0"

text \<open>
  The ranges of consecutive numbers in the sorted list; \<open>None\<close> for the overflow of \<open>end + 1\<close>.
\<close>

fun seq_ranges :: "u32 \<Rightarrow> u32 \<Rightarrow> u32 list \<Rightarrow> (u32 \<times> u32) list option" where
  "seq_ranges start end' [] = Some [(start, end')]"
| "seq_ranges start end' (seq # seqs) =
     do {
       next \<leftarrow> uadd end' 1;
       if seq = next then seq_ranges start seq seqs
       else do {
         ranges \<leftarrow> seq_ranges seq seq seqs;
         Some ((start, end') # ranges)
       }
     }"

definition put_range :: "wire \<Rightarrow> u32 \<times> u32 \<Rightarrow> bytes" where
  "put_range w = (\<lambda>(start, end').
     if start = end' then [1] @ put_u24_le w start
     else [0] @ put_u24_le w start @ put_u24_le w end')"

definition put_seqs :: "wire \<Rightarrow> u32 list \<Rightarrow> bytes option" where
  "put_seqs w seqs =
     (case sort seqs of
        [] \<Rightarrow> None
      | s # ss \<Rightarrow>
          do {
            ranges \<leftarrow> seq_ranges s s ss;
            Some (put_u16 w (word_of_nat (length ranges)) @ concat (map (put_range w) ranges))
          })"

definition put_fragment :: "wire \<Rightarrow> fragment \<Rightarrow> bytes" where
  "put_fragment w f =
     [push_bit 5 (reliability_to_u8 (reliability f))
        OR (if split_info f \<noteq> None then IS_SPLIT else 0)]
     @ put_u16 w (word_of_nat (length (data f) * 8))
     @ (case reliable_index f of None \<Rightarrow> [] | Some i \<Rightarrow> put_u24_le w i)
     @ (case sequence_index f of None \<Rightarrow> [] | Some i \<Rightarrow> put_u24_le w i)
     @ (case ordering_info f of
          None \<Rightarrow> []
        | Some oi \<Rightarrow> put_u24_le w (ordering_index oi) @ [channel oi])
     @ (case split_info f of
          None \<Rightarrow> []
        | Some sp \<Rightarrow>
            put_u32 w (split_size sp) @ put_u16 w (split_id sp) @ put_u32 w (split_index sp))
     @ data f"

fun put_datagram :: "wire \<Rightarrow> datagram \<Rightarrow> bytes option" where
  "put_datagram w (Ack arrival_rate seqs) =
     do {
       body \<leftarrow> put_seqs w seqs;
       Some ([IS_VALID OR IS_ACK OR (if arrival_rate \<noteq> None then HAS_ARRIVAL_RATE else 0)]
         @ (case arrival_rate of None \<Rightarrow> [] | Some r \<Rightarrow> put_f32 w r)
         @ body)
     }"
| "put_datagram w (Nak seqs) =
     do {
       body \<leftarrow> put_seqs w seqs;
       Some ([IS_VALID OR IS_NAK] @ body)
     }"
| "put_datagram w (Packet pair continuous needs seq fragments) =
     Some ([IS_VALID
        OR (if pair then IS_PACKET_PAIR else 0)
        OR (if continuous then IS_CONTINUOUS_SEND else 0)
        OR (if needs then NEEDS_ARRIVAL_RATE else 0)]
       @ put_u24_le w seq
       @ concat (map (put_fragment w) fragments))"


section \<open>Decoding inverts encoding\<close>

lemma pbind_Inr [simp]: "p bs = Inr (a, r) \<Longrightarrow> pbind p f bs = f a r"
  by (simp add: pbind_def)

lemma pmap_Inr [simp]: "p bs = Inr (a, r) \<Longrightarrow> pmap f p bs = Inr (f a, r)"
  by (simp add: pmap_def preturn_def)

lemma pwhen_simps [simp]:
  "\<not> c \<Longrightarrow> pwhen c p bs = Inr (None, bs)"
  "c \<Longrightarrow> p bs = Inr (a, r) \<Longrightarrow> pwhen c p bs = Inr (Some a, r)"
  by (simp_all add: pwhen_def preturn_def)

lemma preturn_apply [simp]: "preturn a bs = Inr (a, bs)"
  by (simp add: preturn_def)

lemma try_get_u8_Cons [simp]: "try_get_u8 (b # r) = Inr (b, r)"
  by (simp add: try_get_u8_def)

lemma try_take_append [simp]: "length xs = n \<Longrightarrow> try_take n (xs @ r) = Inr (xs, r)"
  by (simp add: try_take_def)

lemma try_split_to_append [simp]: "length xs = n \<Longrightarrow> try_split_to n (xs @ r) = Inr (xs, r)"
  by (simp add: try_split_to_def)

lemma ptimes_try_get_u8 [simp]: "length xs = n \<Longrightarrow> ptimes n try_get_u8 (xs @ r) = Inr (xs, r)"
  by (induction xs arbitrary: n) auto

lemma range_inclusive_single [simp]: "range_inclusive s s = [s]"
  by (simp add: range_inclusive_def)

lemma range_inclusive_snoc:
  assumes "unat s \<le> unat e" "uadd e 1 = Some n"
  shows "range_inclusive s n = range_inclusive s e @ [n]"
proof -
  have n: "unat n = Suc (unat e)"
    using assms(2) by (simp add: checked_arith)
  then have "word_of_nat (Suc (unat e)) = n"
    by (metis of_nat_unat ucast_id)
  with n assms(1) show ?thesis
    by (simp add: range_inclusive_def)
qed

abbreviation range_of :: "u32 \<times> u32 \<Rightarrow> u32 list" where
  "range_of r \<equiv> range_inclusive (fst r) (snd r)"

lemma seq_ranges_concat:
  "seq_ranges s e seqs = Some rs \<Longrightarrow> unat s \<le> unat e \<Longrightarrow>
     concat (map range_of rs) = range_inclusive s e @ seqs"
proof (induction s e seqs arbitrary: rs rule: seq_ranges.induct)
  case (2 start end' seq seqs)
  then obtain next' where n: "uadd end' 1 = Some next'"
    by (auto simp: bind_eq_Some_conv)
  show ?case
  proof (cases "seq = next'")
    case True
    moreover have "unat start \<le> unat seq"
      using n True "2.prems"(2) by (simp add: checked_arith)
    ultimately show ?thesis
      using 2 n by (simp add: range_inclusive_snoc)
  next
    case False
    then show ?thesis
      using 2 n by (auto simp: bind_eq_Some_conv)
  qed
qed auto

lemma seq_ranges_Some:
  assumes "fits_u24 e" "\<forall>x \<in> set seqs. fits_u24 x"
  shows "\<exists>rs. seq_ranges s e seqs = Some rs \<and> length rs \<le> Suc (length seqs) \<and>
           (\<forall>r \<in> set rs. fst r \<in> insert s (set seqs) \<and> snd r \<in> insert e (set seqs))"
  using assms
proof (induction s e seqs rule: seq_ranges.induct)
  case (2 start end' seq seqs)
  obtain next' where n: "uadd end' 1 = Some next'"
    using "2.prems"(1) by (simp add: uadd_def fits_u24_def)
  show ?case
  proof (cases "seq = next'")
    case True
    with 2 n obtain rs where "seq_ranges start seq seqs = Some rs" "length rs \<le> Suc (length seqs)"
      "\<forall>r \<in> set rs. fst r \<in> insert start (set seqs) \<and> snd r \<in> insert seq (set seqs)"
      by auto
    with True n show ?thesis by auto
  next
    case False
    with 2 n obtain rs where "seq_ranges seq seq seqs = Some rs" "length rs \<le> Suc (length seqs)"
      "\<forall>r \<in> set rs. fst r \<in> insert seq (set seqs) \<and> snd r \<in> insert seq (set seqs)"
      by auto
    with False n show ?thesis by auto
  qed
qed simp

context wire_format
begin

lemma try_get_u16_put [simp]: "try_get_u16 w (put_u16 w n @ r) = Inr (n, r)"
  by (simp add: try_get_u16_def)

lemma try_get_u32_put [simp]: "try_get_u32 w (put_u32 w n @ r) = Inr (n, r)"
  by (simp add: try_get_u32_def)

lemma try_get_u64_put [simp]: "try_get_u64 w (put_u64 w n @ r) = Inr (n, r)"
  by (simp add: try_get_u64_def)

lemma try_get_f32_put [simp]: "try_get_f32 w (put_f32 w n @ r) = Inr (n, r)"
  by (simp add: try_get_f32_def)

lemma length_put_u24_le [simp]: "length (put_u24_le w n) = 3"
  by (simp add: put_u24_le_def)

lemma try_get_u24_le_put: "try_get_u24_le w (put_u24_le w n @ r) = Inr (n AND 0xFFFFFF, r)"
proof -
  let ?v = "get_uint_le w (put_uint_le w (ucast n) 3)"
  have "unat ?v = unat n mod 2 ^ 24"
    by (simp add: get_put_uint_le unat_ucast_up)
  moreover have "n AND 0xFFFFFF = take_bit 24 n"
    by (simp add: take_bit_eq_mask mask_eq_exp_minus_1)
  then have "unat (n AND 0xFFFFFF) = unat n mod 2 ^ 24"
    by (simp add: unsigned_take_bit_eq take_bit_nat_def)
  ultimately have "(ucast ?v :: u32) = n AND 0xFFFFFF"
    by (simp add: word_unat_eq_iff unsigned_ucast_eq take_bit_eq_mod)
  then show ?thesis
    by (simp add: try_get_u24_le_def put_u24_le_def)
qed

lemma fits_u24_and: "fits_u24 n \<Longrightarrow> n AND 0xFFFFFF = n"
proof -
  assume "fits_u24 n"
  then have "unat (take_bit 24 n) = unat n"
    by (simp add: fits_u24_def unsigned_take_bit_eq take_bit_nat_eq_self)
  then have "take_bit 24 n = n" by (simp add: word_unat_eq_iff)
  then show ?thesis by (simp add: take_bit_eq_mask mask_eq_exp_minus_1)
qed

lemma try_get_u24_le_fits [simp]:
  "fits_u24 n \<Longrightarrow> try_get_u24_le w (put_u24_le w n @ r) = Inr (n, r)"
  by (simp add: try_get_u24_le_put fits_u24_and)

lemma try_get_seqs_loop_put:
  "\<forall>x \<in> set rs. fits_u24 (fst x) \<and> fits_u24 (snd x) \<Longrightarrow>
     try_get_seqs_loop w (length rs) (concat (map (put_range w) rs) @ r)
     = Inr (concat (map range_of rs), r)"
  by (induction rs) (auto simp: put_range_def)

lemma try_get_seqs_put:
  assumes "seqs \<noteq> []" "length seqs < 2 ^ 16" "\<forall>x \<in> set seqs. fits_u24 x"
  obtains bs where "put_seqs w seqs = Some bs"
    and "\<And>r. try_get_seqs w (bs @ r) = Inr (sort seqs, r)"
proof -
  obtain s ss where ss: "sort seqs = s # ss"
    using assms(1) by (metis list.exhaust set_empty set_sort)
  then have fits: "\<forall>x \<in> set (s # ss). fits_u24 x"
    using assms(3) by (metis set_sort)
  have len: "Suc (length ss) = length seqs"
    using ss by (metis length_Cons length_sort)
  obtain rs where rs: "seq_ranges s s ss = Some rs" "length rs \<le> Suc (length ss)"
    "\<forall>x \<in> set rs. fst x \<in> insert s (set ss) \<and> snd x \<in> insert s (set ss)"
    using fits seq_ranges_Some [of s ss s] by auto
  have "concat (map range_of rs) = sort seqs"
    using seq_ranges_concat [OF rs(1)] by (simp add: ss)
  moreover have "\<forall>x \<in> set rs. fits_u24 (fst x) \<and> fits_u24 (snd x)"
    using rs(3) fits by auto
  moreover have "unat (word_of_nat (length rs) :: u16) = length rs"
    using rs(2) len assms(2) by (simp add: unat_of_nat)
  ultimately show ?thesis
    using rs(1) ss
    by (intro that [of "put_u16 w (word_of_nat (length rs)) @ concat (map (put_range w) rs)"])
      (simp_all add: put_seqs_def try_get_seqs_def try_get_seqs_loop_put)
qed

end

subsection \<open>Fragments\<close>

definition fragment_flags :: "reliability \<Rightarrow> bool \<Rightarrow> u8" where
  "fragment_flags r sp = push_bit 5 (reliability_to_u8 r) OR (if sp then IS_SPLIT else 0)"

lemma fragment_flags_reliability [simp]:
  "flags_reliability (fragment_flags r sp) = Some r"
  by (cases r; cases sp)
    (simp_all add: flags_reliability_def fragment_flags_def flag_defs reliability_from_u8_def)

lemma fragment_flags_split [simp]: "fragment_flags r sp AND IS_SPLIT = 0 \<longleftrightarrow> \<not> sp"
  by (cases r; cases sp) (simp_all add: fragment_flags_def flag_defs)

lemma put_fragment_flags:
  "put_fragment w f =
     fragment_flags (reliability f) (split_info f \<noteq> None) # put_u16 w (word_of_nat (length (data f) * 8))
     @ (case reliable_index f of None \<Rightarrow> [] | Some i \<Rightarrow> put_u24_le w i)
     @ (case sequence_index f of None \<Rightarrow> [] | Some i \<Rightarrow> put_u24_le w i)
     @ (case ordering_info f of
          None \<Rightarrow> []
        | Some oi \<Rightarrow> put_u24_le w (ordering_index oi) @ [channel oi])
     @ (case split_info f of
          None \<Rightarrow> []
        | Some sp \<Rightarrow>
            put_u32 w (split_size sp) @ put_u16 w (split_id sp) @ put_u32 w (split_index sp))
     @ data f"
  by (simp add: put_fragment_def fragment_flags_def)

lemma bit_count_of_length:
  assumes "n < 2 ^ 13"
  shows "unat ((word_of_nat n * 8 :: u16) div 8) = n"
proof -
  have "unat (word_of_nat (n * 8) :: u16) = n * 8 mod 2 ^ LENGTH(16)"
    by (rule unat_of_nat)
  also have "\<dots> = n * 8" using assms by simp
  finally have "unat (word_of_nat n * 8 :: u16) = n * 8" by simp
  then show ?thesis by (simp add: unat_div)
qed

lemma pwhen_eq_iff_None:
  "(x \<noteq> None \<longleftrightarrow> c) \<Longrightarrow> (\<And>a. x = Some a \<Longrightarrow> p bs = Inr (a, r)) \<Longrightarrow> (x = None \<Longrightarrow> bs = r) \<Longrightarrow>
     pwhen c p bs = Inr (x, r)"
  by (cases x) auto

context wire_format
begin

lemma try_get_ordering_info_put:
  "fits_u24 (ordering_index oi) \<Longrightarrow>
     try_get_ordering_info w (put_u24_le w (ordering_index oi) @ channel oi # r) = Inr (oi, r)"
  by (simp add: try_get_ordering_info_def)

lemma try_get_split_info_put:
  "try_get_split_info w
     (put_u32 w (split_size sp) @ put_u16 w (split_id sp) @ put_u32 w (split_index sp) @ r)
   = Inr (sp, r)"
  by (simp add: try_get_split_info_def)

lemma try_get_fragment_put:
  assumes "wire_fragment f"
  shows "try_get_fragment w (put_fragment w f @ r) = Inr (f, r)"
proof -
  let ?r1 = "case reliable_index f of None \<Rightarrow> [] | Some i \<Rightarrow> put_u24_le w i"
  let ?r2 = "case sequence_index f of None \<Rightarrow> [] | Some i \<Rightarrow> put_u24_le w i"
  let ?r3 = "case ordering_info f of None \<Rightarrow> []
     | Some oi \<Rightarrow> put_u24_le w (ordering_index oi) @ [channel oi]"
  let ?r4 = "case split_info f of None \<Rightarrow> [] | Some sp \<Rightarrow>
     put_u32 w (split_size sp) @ put_u16 w (split_id sp) @ put_u32 w (split_index sp)"
  have 1: "pwhen (is_reliable (reliability f)) (try_get_u24_le w) (?r1 @ bs)
      = Inr (reliable_index f, bs)" for bs
    using assms by (intro pwhen_eq_iff_None) (auto simp: wire_fragment_def fields_match_def)
  have 2: "pwhen (is_sequenced (reliability f)) (try_get_u24_le w) (?r2 @ bs)
      = Inr (sequence_index f, bs)" for bs
    using assms by (intro pwhen_eq_iff_None) (auto simp: wire_fragment_def fields_match_def)
  have 3: "pwhen (is_sequenced (reliability f) \<or> is_ordered (reliability f))
      (try_get_ordering_info w) (?r3 @ bs) = Inr (ordering_info f, bs)" for bs
    using assms
    by (intro pwhen_eq_iff_None)
      (auto simp: wire_fragment_def fields_match_def try_get_ordering_info_put)
  have 4: "pwhen (split_info f \<noteq> None) (try_get_split_info w) (?r4 @ bs)
      = Inr (split_info f, bs)" for bs
    by (intro pwhen_eq_iff_None) (auto simp: try_get_split_info_put)
  have 5: "try_split_to (unat ((word_of_nat (length (data f)) * 8 :: u16) div 8)) (data f @ r)
      = Inr (data f, r)"
    using assms by (simp add: wire_fragment_def bit_count_of_length)
  show ?thesis
    by (simp add: try_get_fragment_def put_fragment_flags 1 2 3 4 5 del: not_None_eq)
qed

lemma length_put_fragment:
  assumes "fields_match f"
  shows "length (put_fragment w f) = calc_full_size f"
proof -
  have "length (case reliable_index f of None \<Rightarrow> [] | Some i \<Rightarrow> put_u24_le w i)
      = (if is_reliable (reliability f) then 3 else 0)"
    using assms by (auto simp: fields_match_def split: option.splits)
  moreover have "length (case sequence_index f of None \<Rightarrow> [] | Some i \<Rightarrow> put_u24_le w i)
      = (if is_sequenced (reliability f) then 3 else 0)"
    using assms by (auto simp: fields_match_def split: option.splits)
  moreover have "length (case ordering_info f of None \<Rightarrow> []
     | Some oi \<Rightarrow> put_u24_le w (ordering_index oi) @ [channel oi])
      = (if is_sequenced (reliability f) \<or> is_ordered (reliability f) then 4 else 0)"
    using assms by (auto simp: fields_match_def split: option.splits)
  moreover have "length (case split_info f of None \<Rightarrow> [] | Some sp \<Rightarrow>
     put_u32 w (split_size sp) @ put_u16 w (split_id sp) @ put_u32 w (split_index sp))
      = (if split_info f \<noteq> None then 10 else 0)"
    by (auto split: option.splits)
  ultimately show ?thesis
    by (simp add: put_fragment_flags calc_full_size_def calc_header_size_def)
qed

lemma try_get_fragments_put:
  assumes "\<forall>f \<in> set fs. wire_fragment f"
  shows "try_get_fragments w (concat (map (put_fragment w) fs)) = Inr (fs, [])"
  using assms
proof (induction fs)
  case Nil
  show ?case by (subst try_get_fragments.simps) simp
next
  case (Cons f fs)
  have "put_fragment w f \<noteq> []" by (simp add: put_fragment_def)
  with Cons show ?case
    by (subst try_get_fragments.simps) (simp add: try_get_fragment_put)
qed

end

section \<open>What the decoder accepts\<close>

lemma pbind_eq_Inr_iff:
  "pbind p f bs = Inr (b, r) \<longleftrightarrow> (\<exists>a r'. p bs = Inr (a, r') \<and> f a r' = Inr (b, r))"
  by (auto simp: pbind_def split: sum.splits)

lemma pmap_eq_Inr_iff: "pmap g p bs = Inr (b, r) \<longleftrightarrow> (\<exists>a. p bs = Inr (a, r) \<and> b = g a)"
  by (auto simp: pmap_def pbind_eq_Inr_iff preturn_def)

lemma pwhen_eq_Inr_iff:
  "pwhen c p bs = Inr (x, r) \<longleftrightarrow>
     (if c then \<exists>a. p bs = Inr (a, r) \<and> x = Some a else x = None \<and> r = bs)"
  by (auto simp: pwhen_def pmap_eq_Inr_iff preturn_def)

lemmas parser_eq_Inr_iff = pbind_eq_Inr_iff pmap_eq_Inr_iff pwhen_eq_Inr_iff

lemma try_take_eq_Inr_iff:
  "try_take n bs = Inr (xs, r) \<longleftrightarrow> n \<le> length bs \<and> xs = take n bs \<and> r = drop n bs"
  by (auto simp: try_take_def)

lemma try_split_to_eq_Inr_iff:
  "try_split_to n bs = Inr (xs, r) \<longleftrightarrow> n \<le> length bs \<and> xs = take n bs \<and> r = drop n bs"
  by (auto simp: try_split_to_def)

lemma try_get_u8_eq_Inr_iff: "try_get_u8 bs = Inr (b, r) \<longleftrightarrow> bs = b # r"
  by (auto simp: try_get_u8_def split: list.splits)

text \<open>How many bytes a successful read took.\<close>

definition took :: "nat \<Rightarrow> bytes \<Rightarrow> bytes \<Rightarrow> bool" where
  "took n bs r \<longleftrightarrow> length bs = n + length r"

lemma took_trans: "took m a b \<Longrightarrow> took n b c \<Longrightarrow> took (m + n) a c"
  by (simp add: took_def)

lemma took_numbers:
  "try_get_u8 bs = Inr (b, r) \<Longrightarrow> took 1 bs r"
  "try_get_u16 w bs = Inr (n16, r) \<Longrightarrow> took 2 bs r"
  "try_get_u32 w bs = Inr (n32, r) \<Longrightarrow> took 4 bs r"
  "try_get_u24_le w bs = Inr (n24, r) \<Longrightarrow> took 3 bs r"
  "try_split_to k bs = Inr (xs, r) \<Longrightarrow> took (length xs) bs r"
  by (auto simp: took_def try_get_u8_eq_Inr_iff try_get_u16_def try_get_u32_def
      try_get_u24_le_def pmap_eq_Inr_iff try_take_eq_Inr_iff try_split_to_eq_Inr_iff)

lemma took_infos:
  "try_get_ordering_info w bs = Inr (oi, r) \<Longrightarrow> took 4 bs r"
  "try_get_split_info w bs = Inr (sp, r) \<Longrightarrow> took 10 bs r"
  by (auto simp: try_get_ordering_info_def try_get_split_info_def pbind_eq_Inr_iff took_def
      dest!: took_numbers)

lemma took_pwhen:
  "pwhen c p bs = Inr (x, r) \<Longrightarrow> (\<And>a. p bs = Inr (a, r) \<Longrightarrow> took n bs r) \<Longrightarrow>
     took (if c then n else 0) bs r"
  by (auto simp: pwhen_eq_Inr_iff took_def split: if_splits)

lemma try_get_fragment_InrE:
  assumes "try_get_fragment w bs = Inr (f, r)"
  obtains b bits r1 r2 r3 r4 r5 r6 where
    "try_get_u8 bs = Inr (b, r1)"
    "try_get_u16 w r1 = Inr (bits, r2)"
    "pwhen (is_reliable (reliability f)) (try_get_u24_le w) r2 = Inr (reliable_index f, r3)"
    "pwhen (is_sequenced (reliability f)) (try_get_u24_le w) r3 = Inr (sequence_index f, r4)"
    "pwhen (is_sequenced (reliability f) \<or> is_ordered (reliability f)) (try_get_ordering_info w) r4
       = Inr (ordering_info f, r5)"
    "pwhen (b AND IS_SPLIT \<noteq> 0) (try_get_split_info w) r5 = Inr (split_info f, r6)"
    "try_split_to (unat (bits div 8)) r6 = Inr (data f, r)"
  using assms
  by (fastforce simp: try_get_fragment_def pbind_eq_Inr_iff pfail_def preturn_def
      split: option.splits)

lemma try_get_fragment_took:
  assumes "try_get_fragment w bs = Inr (f, r)"
  shows "fields_match f" "took (calc_full_size f) bs r" "length (data f) < 2 ^ 13"
proof -
  obtain b bits r1 r2 r3 r4 r5 r6 where parse:
    "try_get_u8 bs = Inr (b, r1)"
    "try_get_u16 w r1 = Inr (bits, r2)"
    "pwhen (is_reliable (reliability f)) (try_get_u24_le w) r2 = Inr (reliable_index f, r3)"
    "pwhen (is_sequenced (reliability f)) (try_get_u24_le w) r3 = Inr (sequence_index f, r4)"
    "pwhen (is_sequenced (reliability f) \<or> is_ordered (reliability f)) (try_get_ordering_info w) r4
       = Inr (ordering_info f, r5)"
    "pwhen (b AND IS_SPLIT \<noteq> 0) (try_get_split_info w) r5 = Inr (split_info f, r6)"
    "try_split_to (unat (bits div 8)) r6 = Inr (data f, r)"
    using assms by (rule try_get_fragment_InrE)
  show "fields_match f"
    using parse(3-5) by (auto simp: fields_match_def pwhen_eq_Inr_iff split: if_splits)
  have sp: "b AND IS_SPLIT \<noteq> 0 \<longleftrightarrow> split_info f \<noteq> None"
    using parse(6) by (auto simp: pwhen_eq_Inr_iff split: if_splits)
  have "took 1 bs r1" "took 2 r1 r2" "took (length (data f)) r6 r"
    using parse(1,2,7) by (auto dest: took_numbers)
  moreover have "took (if is_reliable (reliability f) then 3 else 0) r2 r3"
    using parse(3) by (rule took_pwhen) (rule took_numbers)
  moreover have "took (if is_sequenced (reliability f) then 3 else 0) r3 r4"
    using parse(4) by (rule took_pwhen) (rule took_numbers)
  moreover have "took (if is_sequenced (reliability f) \<or> is_ordered (reliability f) then 4 else 0) r4 r5"
    using parse(5) by (rule took_pwhen) (rule took_infos)
  moreover have "took (if b AND IS_SPLIT \<noteq> 0 then 10 else 0) r5 r6"
    using parse(6) by (rule took_pwhen) (rule took_infos)
  ultimately show "took (calc_full_size f) bs r"
    by (auto simp: took_def calc_full_size_def calc_header_size_def sp)
  have "unat bits < 2 ^ LENGTH(16)" by (rule unsigned_less)
  then have "unat (bits div 8) < 2 ^ 13" by (simp add: unat_div)
  then show "length (data f) < 2 ^ 13"
    using parse(7) by (auto simp: try_split_to_eq_Inr_iff)
qed

context wire_format
begin

lemma try_get_u24_le_fits_u24: "try_get_u24_le w bs = Inr (n, r) \<Longrightarrow> fits_u24 n"
proof -
  assume "try_get_u24_le w bs = Inr (n, r)"
  then have "length (take 3 bs) = 3" "n = ucast (get_uint_le w (take 3 bs))"
    by (auto simp: try_get_u24_le_def pmap_eq_Inr_iff try_take_eq_Inr_iff)
  then obtain xs where xs: "length xs = 3" "n = ucast (get_uint_le w xs)"
    by blast
  then have "unat (get_uint_le w xs) < 2 ^ 24"
    using get_uint_le_less [of xs] by simp
  moreover have "unat n \<le> unat (get_uint_le w xs)"
    by (simp add: xs(2) unsigned_ucast_eq take_bit_nat_less_eq_self)
  ultimately show ?thesis by (simp add: fits_u24_def)
qed

lemma try_get_fragment_wire_fragment:
  assumes "try_get_fragment w bs = Inr (f, r)"
  shows "wire_fragment f"
  using assms
proof (rule try_get_fragment_InrE)
  fix b bits r1 r2 r3 r4 r5 r6
  assume parse:
    "pwhen (is_reliable (reliability f)) (try_get_u24_le w) r2 = Inr (reliable_index f, r3)"
    "pwhen (is_sequenced (reliability f)) (try_get_u24_le w) r3 = Inr (sequence_index f, r4)"
    "pwhen (is_sequenced (reliability f) \<or> is_ordered (reliability f)) (try_get_ordering_info w) r4
       = Inr (ordering_info f, r5)"
  have "pred_option fits_u24 (reliable_index f)" "pred_option fits_u24 (sequence_index f)"
    using parse(1,2)
    by (auto simp: pwhen_eq_Inr_iff dest: try_get_u24_le_fits_u24 split: if_splits)
  moreover have "pred_option (\<lambda>oi. fits_u24 (ordering_index oi)) (ordering_info f)"
    using parse(3)
    by (auto simp: pwhen_eq_Inr_iff try_get_ordering_info_def pbind_eq_Inr_iff
        dest: try_get_u24_le_fits_u24 split: if_splits)
  ultimately show ?thesis
    using try_get_fragment_took [OF assms] by (simp add: wire_fragment_def)
qed

lemma try_get_fragments_accepts:
  "try_get_fragments w bs = Inr (fs, r) \<Longrightarrow>
     r = [] \<and> (\<forall>f \<in> set fs. wire_fragment f) \<and> length bs = sum_list (map calc_full_size fs)"
proof (induction "length bs" arbitrary: bs fs r rule: less_induct)
  case less
  show ?case
  proof (cases "bs = []")
    case True
    with less.prems show ?thesis by (subst (asm) try_get_fragments.simps) simp
  next
    case False
    with less.prems obtain f r1 fs' where f: "try_get_fragment w bs = Inr (f, r1)"
      and fs': "try_get_fragments w r1 = Inr (fs', r)" "fs = f # fs'"
      by (subst (asm) try_get_fragments.simps) (auto split: sum.splits)
    from less.hyps [OF try_get_fragment_consumes [OF f] fs'(1)]
    show ?thesis
      using try_get_fragment_took(2) [OF f] try_get_fragment_wire_fragment [OF f] fs'(2)
      by (simp add: took_def)
  qed
qed

end


section \<open>Datagrams\<close>

definition packet_flags :: "bool \<Rightarrow> bool \<Rightarrow> bool \<Rightarrow> u8" where
  "packet_flags pair continuous needs =
     IS_VALID
        OR (if pair then IS_PACKET_PAIR else 0)
        OR (if continuous then IS_CONTINUOUS_SEND else 0)
        OR (if needs then NEEDS_ARRIVAL_RATE else 0)"

lemma packet_flags_bits [simp]:
  "packet_flags p c n AND IS_VALID \<noteq> 0"
  "packet_flags p c n AND IS_ACK = 0"
  "packet_flags p c n AND IS_NAK = 0"
  "packet_flags p c n AND IS_PACKET_PAIR = 0 \<longleftrightarrow> \<not> p"
  "packet_flags p c n AND IS_CONTINUOUS_SEND = 0 \<longleftrightarrow> \<not> c"
  "packet_flags p c n AND NEEDS_ARRIVAL_RATE = 0 \<longleftrightarrow> \<not> n"
  by (cases p; cases c; cases n; simp add: packet_flags_def flag_defs)+

lemma put_datagram_Packet:
  "put_datagram w (Packet p c n seq fs) =
     Some (packet_flags p c n # put_u24_le w seq @ concat (map (put_fragment w) fs))"
  by (simp add: packet_flags_def)

definition ack_flags :: "bool \<Rightarrow> u8" where
  "ack_flags rate = IS_VALID OR IS_ACK OR (if rate then HAS_ARRIVAL_RATE else 0)"

lemma ack_flags_bits [simp]:
  "ack_flags r AND IS_VALID \<noteq> 0"
  "ack_flags r AND IS_ACK \<noteq> 0"
  "ack_flags r AND HAS_ARRIVAL_RATE = 0 \<longleftrightarrow> \<not> r"
  by (cases r; simp add: ack_flags_def flag_defs)+

definition nak_flags :: u8 where
  "nak_flags = IS_VALID OR IS_NAK"

lemma nak_flags_bits [simp]:
  "nak_flags AND IS_VALID \<noteq> 0"
  "nak_flags AND IS_ACK = 0"
  "nak_flags AND IS_NAK \<noteq> 0"
  by (simp_all add: nak_flags_def flag_defs)

text \<open>What a datagram must satisfy to be representable on the wire.\<close>

fun wire_datagram :: "datagram \<Rightarrow> bool" where
  "wire_datagram (Ack rate seqs) \<longleftrightarrow>
     seqs \<noteq> [] \<and> length seqs < 2 ^ 16 \<and> (\<forall>s \<in> set seqs. fits_u24 s)"
| "wire_datagram (Nak seqs) \<longleftrightarrow>
     seqs \<noteq> [] \<and> length seqs < 2 ^ 16 \<and> (\<forall>s \<in> set seqs. fits_u24 s)"
| "wire_datagram (Packet p c n seq fs) \<longleftrightarrow> fits_u24 seq \<and> (\<forall>f \<in> set fs. wire_fragment f)"

text \<open>Acknowledgements arrive sorted, everything else as it was sent.\<close>

fun normalise_datagram :: "datagram \<Rightarrow> datagram" where
  "normalise_datagram (Ack rate seqs) = Ack rate (sort seqs)"
| "normalise_datagram (Nak seqs) = Nak (sort seqs)"
| "normalise_datagram (Packet p c n seq fs) = Packet p c n seq fs"

context wire_format
begin

lemma try_get_datagram_put_Packet:
  assumes "wire_datagram (Packet p c n seq fs)"
  shows "try_get_datagram w
           (packet_flags p c n # put_u24_le w seq @ concat (map (put_fragment w) fs))
         = Inr (Packet p c n seq fs, [])"
  using assms by (simp add: try_get_datagram_def try_get_fragments_put)

lemma pwhen_f32_put:
  "pwhen (x \<noteq> None) (try_get_f32 w)
     ((case x of None \<Rightarrow> [] | Some r \<Rightarrow> put_f32 w r) @ bs) = Inr (x, bs)"
  by (rule pwhen_eq_iff_None) auto

lemma try_get_datagram_put_Ack:
  assumes "wire_datagram (Ack rate seqs)"
  obtains bs where "put_datagram w (Ack rate seqs) = Some bs"
    and "try_get_datagram w bs = Inr (Ack rate (sort seqs), [])"
proof -
  obtain body where body: "put_seqs w seqs = Some body"
    and parse: "\<And>r. try_get_seqs w (body @ r) = Inr (sort seqs, r)"
    using assms by (auto elim: try_get_seqs_put)
  let ?bs = "ack_flags (rate \<noteq> None) # (case rate of None \<Rightarrow> [] | Some r \<Rightarrow> put_f32 w r) @ body"
  have "try_get_datagram w ?bs = Inr (Ack rate (sort seqs), [])"
    using parse [of "[]"] by (simp add: try_get_datagram_def pwhen_f32_put del: not_None_eq)
  then show ?thesis
    using body by (intro that [of ?bs]) (simp_all add: ack_flags_def)
qed

lemma try_get_datagram_put_Nak:
  assumes "wire_datagram (Nak seqs)"
  obtains bs where "put_datagram w (Nak seqs) = Some bs"
    and "try_get_datagram w bs = Inr (Nak (sort seqs), [])"
proof -
  obtain body where body: "put_seqs w seqs = Some body"
    and parse: "\<And>r. try_get_seqs w (body @ r) = Inr (sort seqs, r)"
    using assms by (auto elim: try_get_seqs_put)
  have "try_get_datagram w (nak_flags # body) = Inr (Nak (sort seqs), [])"
    using parse [of "[]"] by (simp add: try_get_datagram_def)
  then show ?thesis
    using body by (intro that [of "nak_flags # body"]) (simp_all add: nak_flags_def)
qed

lemma try_get_put_datagram:
  assumes "wire_datagram d"
  shows "\<exists>bs. put_datagram w d = Some bs \<and> try_get_datagram w bs = Inr (normalise_datagram d, [])"
proof (cases d)
  case (Ack rate seqs)
  with assms show ?thesis
    by (metis normalise_datagram.simps(1) try_get_datagram_put_Ack)
next
  case (Nak seqs)
  with assms show ?thesis
    by (metis normalise_datagram.simps(2) try_get_datagram_put_Nak)
next
  case (Packet p c n seq fs)
  with assms show ?thesis
    by (metis normalise_datagram.simps(3) put_datagram_Packet try_get_datagram_put_Packet)
qed

lemma try_get_addr_put:
  "length ip4 = 4 \<Longrightarrow> try_get_addr w (put_addr w (V4 ip4 port) @ r) = Inr (V4 ip4 port, r)"
  "length ip6 = 16 \<Longrightarrow>
     try_get_addr w (put_addr w (V6 ip6 port flow scope) @ r) = Inr (V6 ip6 port 0 0, r)"
  by (simp_all add: try_get_addr_def)

lemma try_get_string_put:
  assumes "length s < 2 ^ 16"
  shows "try_get_string w (put_string w s @ r) = Inr (from_utf8_lossy s, r)"
proof -
  have "unat (word_of_nat (length s) :: u16) = length s"
    using assms by (simp add: unat_of_nat)
  then show ?thesis by (simp add: try_get_string_def put_string_def)
qed

lemma try_get_datagram_accepts_Packet:
  assumes "try_get_datagram w bs = Inr (Packet p c n seq fs, r)"
  shows "r = [] \<and> wire_datagram (Packet p c n seq fs) \<and>
         length bs = HEADER_SIZE + PACKET_HEADER_SIZE + sum_list (map calc_full_size fs)"
proof -
  obtain b r1 r2 where "try_get_u8 bs = Inr (b, r1)" "try_get_u24_le w r1 = Inr (seq, r2)"
    "try_get_fragments w r2 = Inr (fs, r)"
    using assms
    by (auto simp: try_get_datagram_def parser_eq_Inr_iff pfail_def split: if_splits)
  moreover from this(2) have "fits_u24 seq" by (rule try_get_u24_le_fits_u24)
  ultimately show ?thesis
    using try_get_fragments_accepts [of r2 fs r]
    by (auto simp: took_def HEADER_SIZE_def PACKET_HEADER_SIZE_def dest!: took_numbers)
qed

lemma length_put_datagram_Packet:
  assumes "\<forall>f \<in> set fs. fields_match f" "put_datagram w (Packet p c n seq fs) = Some bs"
  shows "length bs = HEADER_SIZE + PACKET_HEADER_SIZE + sum_list (map calc_full_size fs)"
proof -
  have "length (concat (map (put_fragment w) fs)) = sum_list (map calc_full_size fs)"
    using assms(1) by (induction fs) (simp_all add: length_put_fragment)
  then show ?thesis
    using assms(2)
    by (auto simp: put_datagram_Packet HEADER_SIZE_def PACKET_HEADER_SIZE_def
        simp del: put_datagram.simps)
qed

end

section \<open>Properties of the codec\<close>

text \<open>C4: decoding an encoded datagram gives the datagram back, with the acknowledged sequence
  numbers sorted, and leaves no bytes over. The encoder does not panic on such a datagram.\<close>
theorem datagram_roundtrip:
  assumes "wire_format w" and "wire_datagram d"
  shows "\<exists>bs. put_datagram w d = Some bs \<and> try_get_datagram w bs = Inr (normalise_datagram d, [])"
  by (rule wire_format.try_get_put_datagram [OF assms])

theorem datagram_roundtrip_witness:
  "\<exists>bs. put_datagram network_wire (Ack (Some 7) [5, 3, 4, 9]) = Some bs \<and>
        try_get_datagram network_wire bs = Inr (Ack (Some 7) [3, 4, 5, 9], [])"
  using datagram_roundtrip [OF network_wire_format, of "Ack (Some 7) [5, 3, 4, 9]"]
  by (simp add: fits_u24_def)

text \<open>C25: a packet the decoder accepts has only fragments whose fields match their reliability
  class and fit their widths, consumes the whole buffer, and every byte of the buffer is
  accounted for by the headers and the sizes \<open>calc_full_size\<close> of the fragments.\<close>
theorem accepted_packet_wire:
  assumes "wire_format w" and "try_get_datagram w bs = Inr (Packet p c n seq fs, r)"
  shows "r = [] \<and> wire_datagram (Packet p c n seq fs) \<and>
         length bs = HEADER_SIZE + PACKET_HEADER_SIZE + sum_list (map calc_full_size fs)"
  by (rule wire_format.try_get_datagram_accepts_Packet [OF assms])

theorem accepted_packet_wire_witness:
  "length (the (put_datagram network_wire (Packet False True False 5
      [\<lparr>reliability = Reliable, reliable_index = Some 1, sequence_index = None,
        ordering_info = None, split_info = None, data = [0xFE, 1, 2]\<rparr>])))
   = 1 + 3 + (3 + 3 + 3)"
proof -
  let ?f = "\<lparr>reliability = Reliable, reliable_index = Some 1, sequence_index = None,
        ordering_info = None, split_info = None, data = [0xFE, 1, 2]\<rparr>"
  have "wire_datagram (Packet False True False 5 [?f])"
    by (simp add: fits_u24_def wire_fragment_def fields_match_def)
  then obtain bs where bs: "put_datagram network_wire (Packet False True False 5 [?f]) = Some bs"
    "try_get_datagram network_wire bs = Inr (Packet False True False 5 [?f], [])"
    by (metis network.try_get_datagram_put_Packet put_datagram_Packet)
  from accepted_packet_wire [OF network_wire_format bs(2)] bs(1)
  show ?thesis
    by (simp add: HEADER_SIZE_def PACKET_HEADER_SIZE_def calc_full_size_def calc_header_size_def)
qed

text \<open>A packet datagram is exactly as long as its headers and the sizes that
  \<open>calc_full_size\<close> computes for its fragments, whenever the fields match the classes.\<close>
theorem encoded_packet_length:
  assumes "wire_format w" and "\<forall>f \<in> set fs. fields_match f"
    and "put_datagram w (Packet p c n seq fs) = Some bs"
  shows "length bs = HEADER_SIZE + PACKET_HEADER_SIZE + sum_list (map calc_full_size fs)"
  by (rule wire_format.length_put_datagram_Packet [OF assms])

theorem encoded_packet_length_witness:
  "length (the (put_datagram network_wire (Packet False True False 5
      [\<lparr>reliability = UnreliableSequenced, reliable_index = None, sequence_index = Some 8,
        ordering_info = Some \<lparr>ordering_index = 2, channel = 1\<rparr>, split_info = None,
        data = [1, 2]\<rparr>]))) = 1 + 3 + (3 + 7 + 2)"
  using encoded_packet_length [OF network_wire_format, of
      "[\<lparr>reliability = UnreliableSequenced, reliable_index = None, sequence_index = Some 8,
        ordering_info = Some \<lparr>ordering_index = 2, channel = 1\<rparr>, split_info = None,
        data = [1, 2]\<rparr>]" False True False 5]
  by (simp add: fields_match_def HEADER_SIZE_def PACKET_HEADER_SIZE_def calc_full_size_def
      calc_header_size_def)

text \<open>The address as it is read back: an IPv6 address loses its flow information and scope id.\<close>

fun addr_on_wire :: "socket_addr \<Rightarrow> socket_addr" where
  "addr_on_wire (V4 ip port) = V4 ip port"
| "addr_on_wire (V6 ip port flow scope) = V6 ip port 0 0"

fun valid_addr :: "socket_addr \<Rightarrow> bool" where
  "valid_addr (V4 ip port) \<longleftrightarrow> length ip = 4"
| "valid_addr (V6 ip port flow scope) \<longleftrightarrow> length ip = 16"

lemma try_get_addr_on_wire:
  assumes "wire_format w" and "valid_addr a"
  shows "try_get_addr w (put_addr w a @ r) = Inr (addr_on_wire a, r)"
  using assms(2) by (cases a) (simp_all add: wire_format.try_get_addr_put [OF assms(1)] del: put_addr.simps)

text \<open>C26: an address that is written is read back, except that an IPv6 address loses its flow
  information and scope id, which the format does not carry; the rest of the buffer is left.\<close>
theorem addr_roundtrip:
  assumes "wire_format w" and "valid_addr a"
  shows "try_get_addr w (put_addr w a @ r) = Inr (addr_on_wire a, r)"
  by (rule try_get_addr_on_wire [OF assms])

theorem addr_roundtrip_witness:
  "try_get_addr network_wire (put_addr network_wire (V4 [127, 0, 0, 1] 19132) @ [42])
   = Inr (V4 [127, 0, 0, 1] 19132, [42])"
  using addr_roundtrip [OF network_wire_format, of "V4 [127, 0, 0, 1] 19132" "[42]"] by simp

end
