(* ===== verification/Window.thy ===== *)
theory Window
  imports Message
begin

text \<open>
  The receive window, \<open>reliability/window.rs\<close>: a ring buffer of \<open>BUFFER_SIZE\<close> slots (a power of
  two, the parameter \<open>n\<close>) over the indices from \<open>start_index\<close> on. The theory models its three
  operations, gives the map of indices the ring represents (\<open>pending\<close>), and proves that on
  indices not below the window the operations act on that map: a first arrival is accepted
  once, \<open>shift\<close> releases the contiguous prefix, \<open>collect_missing\<close> reports the gaps below the
  newest timed-out arrival. It also shows what the code does with an index below the window.
\<close>

section \<open>Operations\<close>

record 'a window =
  buf :: "'a option list"
  start_index :: u32
  furthest_index :: "u32 option"

definition window_new :: "usize \<Rightarrow> 'a window" where
  "window_new n = \<lparr>buf = replicate n None, start_index = 0, furthest_index = None\<rparr>"

definition relative_index :: "usize \<Rightarrow> u32 \<Rightarrow> usize" where
  "relative_index n index = unat index AND (n - 1)"

definition window_insert ::
  "usize \<Rightarrow> u32 \<Rightarrow> 'a \<Rightarrow> 'a window \<Rightarrow> (buffer_overflow_error + bool) \<times> 'a window" where
  "window_insert n index v w =
     (if unat (start_index w) + n \<le> unat index then (Inl BufferOverflowError, w)
      else if buf w ! relative_index n index \<noteq> None then (Inr False, w)
      else
        (Inr True,
         w\<lparr>buf := (buf w)[relative_index n index := Some v],
           furthest_index :=
             (case furthest_index w of
                Some f \<Rightarrow> if index > f then Some index else Some f
              | None \<Rightarrow> Some index)\<rparr>))"

definition scan_range :: "usize \<Rightarrow> 'a window \<Rightarrow> usize option" where
  "scan_range n w =
     (case furthest_index w of
        Some f \<Rightarrow> do {
          d \<leftarrow> usub f (start_index w);
          r \<leftarrow> uadd d 1;
          Some (unat r)
        }
      | None \<Rightarrow> Some n)"

text \<open>The loop of \<open>shift\<close>, from \<open>i\<close> with \<open>k\<close> iterations to go; the result counts those done.\<close>

fun shift_loop ::
  "usize \<Rightarrow> u32 \<Rightarrow> usize \<Rightarrow> nat \<Rightarrow> 'a option list \<Rightarrow> ('a option list \<times> usize) option" where
  "shift_loop n start i 0 b = Some (b, i)"
| "shift_loop n start i (Suc k) b =
     do {
       index \<leftarrow> uadd start (word_of_nat i);
       if b ! relative_index n index = None then Some (b, i)
       else shift_loop n start (Suc i) k (b[relative_index n index := None])
     }"

definition window_shift :: "usize \<Rightarrow> 'a window \<Rightarrow> (usize \<times> 'a window) option" where
  "window_shift n w =
     do {
       range \<leftarrow> scan_range n w;
       (b, count) \<leftarrow> shift_loop n (start_index w) 0 range (buf w);
       furthest \<leftarrow>
         (case furthest_index w of
            Some f \<Rightarrow>
              if count > 0 then do {
                s \<leftarrow> uadd (start_index w) (word_of_nat count);
                l \<leftarrow> usub s 1;
                Some (if l = f then None else Some f)
              }
              else Some (Some f)
          | None \<Rightarrow> Some None);
       start \<leftarrow> uadd (start_index w) (word_of_nat count);
       Some (count, w\<lparr>buf := b, start_index := start, furthest_index := furthest\<rparr>)
     }"

text \<open>The loop of \<open>collect_missing\<close> runs downwards; \<open>Suc i\<close> iterations are to go.\<close>

fun collect_loop ::
  "usize \<Rightarrow> u32 \<Rightarrow> u64 \<Rightarrow> u64 \<Rightarrow> nat \<Rightarrow> u64 option list \<Rightarrow> usize option \<Rightarrow> u32 list \<Rightarrow>
     (u64 option list \<times> usize option \<times> u32 list) option" where
  "collect_loop n start now rto 0 b timeout_index missing = Some (b, timeout_index, missing)"
| "collect_loop n start now rto (Suc i) b timeout_index missing =
     do {
       index \<leftarrow> uadd start (word_of_nat i);
       case b ! relative_index n index of
         Some time_recved \<Rightarrow>
           if timeout_index \<noteq> None then
             collect_loop n start now rto i (b[relative_index n index := None]) timeout_index missing
           else do {
             age \<leftarrow> usub now time_recved;
             if age > rto then
               collect_loop n start now rto i (b[relative_index n index := None]) (Some i) missing
             else collect_loop n start now rto i b timeout_index missing
           }
       | None \<Rightarrow>
           if timeout_index \<noteq> None then
             collect_loop n start now rto i b timeout_index (missing @ [index])
           else collect_loop n start now rto i b timeout_index missing
     }"

definition collect_missing ::
  "usize \<Rightarrow> u64 \<Rightarrow> u64 \<Rightarrow> u64 window \<Rightarrow> (u32 list \<times> u64 window) option" where
  "collect_missing n now rto w =
     do {
       range \<leftarrow> scan_range n w;
       (b, timeout_index, missing) \<leftarrow>
         collect_loop n (start_index w) now rto range (buf w) None [];
       start \<leftarrow>
         (case timeout_index of
            Some index \<Rightarrow> do {
              k \<leftarrow> uadd (word_of_nat index) 1;
              uadd (start_index w) k
            }
          | None \<Rightarrow> Some (start_index w));
       Some (missing, w\<lparr>buf := b, start_index := start\<rparr>)
     }"

section \<open>The map a ring represents\<close>

definition pending :: "nat \<Rightarrow> nat \<Rightarrow> 'a option list \<Rightarrow> nat \<rightharpoonup> 'a" where
  "pending n s b i = (if s \<le> i \<and> i < s + n then b ! (i mod n) else None)"

definition window_map :: "nat \<Rightarrow> 'a window \<Rightarrow> nat \<rightharpoonup> 'a" where
  "window_map n w = pending n (unat (start_index w)) (buf w)"

lemma relative_index_mod: "relative_index (2 ^ k) index = unat index mod 2 ^ k"
  unfolding relative_index_def by (rule nat_mask_eq_mod)

lemma pending_inside: "s \<le> i \<Longrightarrow> i < s + n \<Longrightarrow> pending n s b i = b ! (i mod n)"
  by (simp add: pending_def)

lemma pending_outside: "i < s \<or> s + n \<le> i \<Longrightarrow> pending n s b i = None"
  by (auto simp: pending_def)

lemma pending_update:
  assumes "length b = n" "s \<le> i" "i < s + n"
  shows "pending n s (b[i mod n := x]) = (pending n s b)(i := x)"
proof
  fix j
  have n: "0 < n" using assms(2,3) by linarith
  show "pending n s (b[i mod n := x]) j = ((pending n s b)(i := x)) j"
  proof (cases "s \<le> j \<and> j < s + n \<and> j \<noteq> i")
    case True
    then have "j mod n \<noteq> i mod n"
      using assms mod_eq_in_window by metis
    with True show ?thesis by (simp add: pending_def)
  next
    case False
    then consider "j = i" | "j < s \<or> s + n \<le> j" "j \<noteq> i" by linarith
    then show ?thesis
    proof cases
      case 1
      have "i mod n < length b" using n assms(1) by simp
      with 1 assms(2,3) show ?thesis by (simp add: pending_inside)
    next
      case 2
      then show ?thesis by (simp add: pending_outside)
    qed
  qed
qed

lemma pending_advance:
  assumes "c \<le> n" "\<And>j. s \<le> j \<Longrightarrow> j < s + c \<Longrightarrow> pending n s b j = None"
  shows "pending n (s + c) b = pending n s b"
proof
  fix i
  show "pending n (s + c) b i = pending n s b i"
  proof (cases "i < s + n")
    case True
    then show ?thesis
      using assms(2) [of i] by (auto simp: pending_def)
  next
    case False
    show ?thesis
    proof (cases "i < s + c + n")
      case True
      then have "pending n s b (i - n) = None"
        using False assms by (intro assms(2)) auto
      moreover have "(i - n) mod n = i mod n"
        using False by (simp add: le_mod_geq)
      ultimately show ?thesis
        using True False assms(1) by (auto simp: pending_def split: if_splits)
    next
      case False
      then show ?thesis by (simp add: pending_def)
    qed
  qed
qed

text \<open>The invariant: nothing is pending beyond the furthest index, which lies in the window or
  below it.\<close>

definition window_inv :: "nat \<Rightarrow> 'a window \<Rightarrow> bool" where
  "window_inv n w \<longleftrightarrow>
     (\<exists>k. n = 2 ^ k) \<and> length (buf w) = n \<and>
     (case furthest_index w of
        None \<Rightarrow> window_map n w = Map.empty
      | Some f \<Rightarrow>
          unat f < unat (start_index w) + n \<and>
          (\<forall>i \<in> dom (window_map n w). i \<le> unat f) \<and>
          (start_index w \<le> f \<longrightarrow> unat f \<in> dom (window_map n w)))"

lemma window_inv_new: "window_inv (2 ^ k) (window_new (2 ^ k))"
  by (auto simp: window_inv_def window_new_def window_map_def pending_def)

section \<open>Operations on the map\<close>

lemma window_invE:
  assumes "window_inv n w"
  obtains k where "n = 2 ^ k" "length (buf w) = n" "0 < n"
  using assms by (auto simp: window_inv_def)

lemma window_inv_furthest:
  assumes "window_inv n w" "furthest_index w = Some f"
  shows "unat f < unat (start_index w) + n"
    and "window_map n w i = Some y \<Longrightarrow> i \<le> unat f"
    and "start_index w \<le> f \<Longrightarrow> unat f \<in> dom (window_map n w)"
  using assms by (auto simp: window_inv_def)

lemma window_map_slot:
  assumes "window_inv n w" "start_index w \<le> index" "unat index < unat (start_index w) + n"
  shows "buf w ! relative_index n index = window_map n w (unat index)"
  using assms
  by (auto simp: window_map_def pending_inside relative_index_mod word_le_nat_alt elim: window_invE)

lemma window_insert_spec:
  assumes inv: "window_inv n w"
    and index: "start_index w \<le> index" "unat index < unat (start_index w) + n"
  defines "fresh \<equiv> window_map n w (unat index) = None"
  shows "\<exists>w'. window_insert n index v w = (Inr fresh, w') \<and>
           start_index w' = start_index w \<and>
           window_map n w' = (if fresh then (window_map n w)(unat index \<mapsto> v) else window_map n w) \<and>
           window_inv n w' \<and>
           (\<exists>f. furthest_index w' = Some f \<and> start_index w \<le> f)"
proof (cases fresh)
  case False
  then obtain x where x: "window_map n w (unat index) = Some x"
    by (auto simp: fresh_def)
  obtain f where f: "furthest_index w = Some f"
    using inv x by (auto simp: window_inv_def split: option.splits)
  have "unat index \<le> unat f"
    using window_inv_furthest(2) [OF inv f] x by blast
  then have "start_index w \<le> f"
    using index(1) by (simp add: word_le_nat_alt)
  with False inv index f x show ?thesis
    by (simp add: window_insert_def window_map_slot)
next
  case True
  define f' where "f' = (case furthest_index w of
      Some f \<Rightarrow> if index > f then index else f | None \<Rightarrow> index)"
  define w' where "w' = w\<lparr>buf := (buf w)[relative_index n index := Some v],
      furthest_index := Some f'\<rparr>"
  from inv obtain k where n: "n = 2 ^ k" "length (buf w) = n" "0 < n" by (rule window_invE)
  have map: "window_map n w' = (window_map n w)(unat index \<mapsto> v)"
    using index n
    by (simp add: w'_def window_map_def relative_index_mod pending_update word_le_nat_alt)
  have f': "unat index \<le> unat f' \<and> unat f' < unat (start_index w) + n \<and>
    (\<forall>i \<in> dom (window_map n w). i \<le> unat f') \<and>
    (start_index w \<le> f' \<longrightarrow> unat f' \<in> dom (window_map n w'))"
  proof (cases "furthest_index w")
    case None
    with inv index(2) show ?thesis by (simp add: f'_def window_inv_def map)
  next
    case (Some f)
    note fur = window_inv_furthest [OF inv Some]
    show ?thesis
    proof (cases "index > f")
      case True
      then have "unat f < unat index" by (simp add: word_less_nat_alt)
      with True index(2) fur(2) show ?thesis
        by (auto simp: f'_def Some map intro: order_trans [OF _ less_imp_le])
    next
      case False
      then have "unat index \<le> unat f" by (simp add: word_less_nat_alt)
      with False fur show ?thesis by (auto simp: f'_def Some map)
    qed
  qed
  have "window_inv n w'"
    unfolding window_inv_def
  proof (intro conjI)
    show "\<exists>k. n = 2 ^ k" using n(1) by blast
    show "length (buf w') = n" using n(2) by (simp add: w'_def)
    show "case furthest_index w' of None \<Rightarrow> window_map n w' = Map.empty
      | Some f \<Rightarrow> unat f < unat (start_index w') + n \<and>
          (\<forall>i \<in> dom (window_map n w'). i \<le> unat f) \<and>
          (start_index w' \<le> f \<longrightarrow> unat f \<in> dom (window_map n w'))"
      using f' by (simp add: w'_def map [unfolded w'_def])
  qed
  moreover have "start_index w \<le> f'"
    using index(1) f' by (simp add: word_le_nat_alt)
  moreover have "window_insert n index v w = (Inr True, w')"
    using True index inv
    by (auto simp: window_insert_def w'_def f'_def window_map_slot fresh_def split: option.splits)
  ultimately show ?thesis
    using True map by (auto simp: w'_def)
qed

lemma scan_range_furthest:
  assumes "furthest_index w = Some f" "start_index w \<le> f"
    "unat f < unat (start_index w) + n" "unat (start_index w) + n < 2 ^ 32"
  shows "scan_range n w = Some (Suc (unat f) - unat (start_index w))"
proof -
  obtain d where d: "usub f (start_index w) = Some d"
    using assms(2) by (simp add: usub_def)
  then have "unat d = unat f - unat (start_index w)"
    by (simp add: checked_arith)
  moreover obtain r where r: "uadd d 1 = Some r" "unat r = unat d + 1"
    using uadd_of_nat [of d 1] assms(3,4) d by (auto simp: checked_arith)
  moreover have "unat f = unat (start_index w) + unat d"
    using d by (simp add: checked_arith)
  ultimately show ?thesis
    using assms(1) d by (simp add: scan_range_def)
qed

definition shift_result :: "nat \<Rightarrow> nat \<Rightarrow> nat \<Rightarrow> nat \<Rightarrow> 'a option list \<Rightarrow> 'a option list \<Rightarrow> nat \<Rightarrow> bool"
where
  "shift_result n s i m b b' c \<longleftrightarrow>
     length b' = n \<and> i \<le> c \<and> c \<le> i + m \<and>
     (\<forall>j. s + i \<le> j \<and> j < s + c \<longrightarrow> pending n s b j \<noteq> None) \<and>
     (c < i + m \<longrightarrow> pending n s b (s + c) = None) \<and>
     pending n s b' = (\<lambda>j. if s + i \<le> j \<and> j < s + c then None else pending n s b j)"

lemma shift_loop_spec:
  assumes "length b = n" "n = 2 ^ k" "i + m \<le> n" "unat s + n < 2 ^ 32"
  shows "\<exists>b' c. shift_loop n s i m b = Some (b', c) \<and> shift_result n (unat s) i m b b' c"
  using assms(1,3)
proof (induction m arbitrary: i b)
  case 0
  then show ?case
    by (intro exI [of _ b] exI [of _ i]) (auto simp: shift_result_def fun_eq_iff)
next
  case (Suc m)
  let ?s = "unat s"
  obtain x where x: "uadd s (word_of_nat i) = Some x" "unat x = ?s + i"
    using uadd_of_nat [of s i] Suc.prems(2) assms(4) by auto
  have slot: "b ! relative_index n x = pending n ?s b (?s + i)"
    using x(2) assms(2) Suc.prems(2) by (simp add: relative_index_mod pending_inside)
  show ?case
  proof (cases "pending n ?s b (?s + i) = None")
    case True
    with Suc.prems x slot show ?thesis
      by (intro exI [of _ b] exI [of _ i]) (auto simp: shift_result_def fun_eq_iff)
  next
    case False
    let ?b = "b[relative_index n x := None]"
    have upd: "pending n ?s ?b = (pending n ?s b)(?s + i := None)"
      using x(2) assms(2) Suc.prems by (simp add: relative_index_mod pending_update)
    obtain b' c where c: "shift_loop n s (Suc i) m ?b = Some (b', c)"
      "shift_result n ?s (Suc i) m ?b b' c"
      using Suc.IH [of ?b "Suc i"] Suc.prems by auto
    have "pending n ?s b j \<noteq> None" if "?s + i \<le> j" "j < ?s + c" for j
    proof (cases "j = ?s + i")
      case False
      with that c(2) have "pending n ?s ?b j \<noteq> None" by (simp add: shift_result_def)
      with False show ?thesis by (simp add: upd)
    qed (use \<open>pending n ?s b (?s + i) \<noteq> None\<close> in simp)
    then have "shift_result n ?s i (Suc m) b b' c"
      using c(2) by (auto simp: shift_result_def upd fun_eq_iff)
    moreover have "shift_loop n s i (Suc m) b = Some (b', c)"
      using x(1) slot False c(1) by (cases "pending n ?s b (?s + i)") simp_all
    ultimately show ?thesis by blast
  qed
qed

lemma shift_loop_ge: "shift_loop n s i m b = Some (b', c) \<Longrightarrow> i \<le> c"
  by (induction n s i m b rule: shift_loop.induct)
    (fastforce simp: bind_eq_Some_conv split: if_splits)+

lemma shift_loop_0: "shift_loop n s i m b = Some (b', i) \<Longrightarrow> b' = b"
  by (cases m) (auto simp: bind_eq_Some_conv split: if_splits dest: shift_loop_ge)

lemma window_shift_spec:
  assumes inv: "window_inv n w" and f: "furthest_index w = Some f" "start_index w \<le> f"
    and fits: "unat (start_index w) + n < 2 ^ 32"
  shows "\<exists>c w'. window_shift n w = Some (c, w') \<and>
     unat (start_index w') = unat (start_index w) + c \<and> c \<le> n \<and>
     (\<forall>j. unat (start_index w) \<le> j \<and> j < unat (start_index w') \<longrightarrow> window_map n w j \<noteq> None) \<and>
     window_map n w (unat (start_index w')) = None \<and>
     window_map n w' = window_map n w |` {unat (start_index w')..} \<and>
     window_inv n w' \<and>
     (c = 0 \<longrightarrow> w' = w)"
proof -
  let ?s = "unat (start_index w)"
  from inv obtain k where n: "n = 2 ^ k" "length (buf w) = n" "0 < n" by (rule window_invE)
  note fur = window_inv_furthest [OF inv f(1)]
  have range: "scan_range n w = Some (Suc (unat f) - ?s)"
    using f fur(1) fits by (rule scan_range_furthest)
  have le: "?s \<le> unat f" using f(2) by (simp add: word_le_nat_alt)
  have m: "0 + (Suc (unat f) - ?s) \<le> n" using fur(1) by linarith
  obtain b' c where c: "shift_loop n (start_index w) 0 (Suc (unat f) - ?s) (buf w) = Some (b', c)"
    and result: "shift_result n ?s 0 (Suc (unat f) - ?s) (buf w) b' c"
    using shift_loop_spec [OF n(2,1) m fits] by blast
  have cn: "c \<le> n" "?s + c \<le> Suc (unat f)"
    using result fur(1) le by (auto simp: shift_result_def)
  obtain st where st: "uadd (start_index w) (word_of_nat c) = Some st" "unat st = ?s + c"
    using uadd_of_nat [of "start_index w" c] fits cn(1) by auto
  define fur' where "fur' = (if c > 0 \<and> ?s + c = Suc (unat f) then None else Some f)"
  define w' where "w' = w\<lparr>buf := b', start_index := st, furthest_index := fur'\<rparr>"
  have w': "start_index w' = st" "furthest_index w' = fur'" "buf w' = b'"
    by (simp_all add: w'_def)
  have furthest: "(if c > 0 then do {
                s \<leftarrow> uadd (start_index w) (word_of_nat c);
                l \<leftarrow> usub s 1;
                Some (if l = f then None else Some f)
              }
              else Some (Some f)) = Some fur'"
  proof (cases "0 < c")
    case True
    then have "1 \<le> st" using st(2) by (simp add: word_le_nat_alt)
    then obtain l where l: "usub st 1 = Some l" by (simp add: usub_def)
    then have "unat st = Suc (unat l)" by (simp add: checked_arith)
    then have "l = f \<longleftrightarrow> ?s + c = Suc (unat f)"
      using st(2) by (auto simp: word_unat_eq_iff)
    with True l st(1) show ?thesis by (simp add: fur'_def)
  qed (simp add: fur'_def)
  have shift: "window_shift n w = Some (c, w')"
    using range c st(1) furthest f(1)
    by (simp add: window_shift_def w'_def split_beta)
  have "pending n ?s b' j = None" if "?s \<le> j" "j < ?s + c" for j
    using result that by (simp add: shift_result_def)
  then have map: "window_map n w' = window_map n w |` {?s + c..}"
    using result st(2) pending_advance [OF cn(1), of ?s b']
    by (auto simp: w' window_map_def shift_result_def fun_eq_iff restrict_map_def pending_outside)
  have "window_map n w (?s + c) = None"
  proof (cases "?s + c = Suc (unat f)")
    case True
    then show ?thesis
      using fur(2) [of "?s + c"] by (cases "window_map n w (?s + c)") auto
  next
    case False
    then show ?thesis
      using result cn(2) le by (simp add: shift_result_def window_map_def)
  qed
  moreover have "window_inv n w'"
    unfolding window_inv_def
  proof (intro conjI)
    show "\<exists>k. n = 2 ^ k" using n(1) by blast
    show "length (buf w') = n" using result by (simp add: w'_def shift_result_def)
    have "window_map n w' = Map.empty" if "?s + c = Suc (unat f)"
      using that fur(2) by (force simp: map restrict_map_def fun_eq_iff dom_def)
    moreover have "unat f \<in> dom (window_map n w')" if "st \<le> f"
      using that fur(3) f(2) st(2) by (auto simp: map restrict_map_def word_le_nat_alt)
    ultimately show "case furthest_index w' of None \<Rightarrow> window_map n w' = Map.empty
      | Some f \<Rightarrow> unat f < unat (start_index w') + n \<and>
          (\<forall>i \<in> dom (window_map n w'). i \<le> unat f) \<and>
          (start_index w' \<le> f \<longrightarrow> unat f \<in> dom (window_map n w'))"
      using fur(1,2) st(2) by (auto simp: w' fur'_def map restrict_map_def split: if_splits)
  qed
  moreover have "w' = w" if "c = 0"
  proof -
    have "b' = buf w" using c that shift_loop_0 by blast
    moreover have "st = start_index w" using st(2) that by (simp add: word_unat_eq_iff)
    ultimately show ?thesis using that f(1) by (simp add: w'_def fur'_def)
  qed
  ultimately show ?thesis
    using shift st(2) cn(1) map result
    by (intro exI [of _ c] exI [of _ w']) (auto simp: w' window_map_def shift_result_def)
qed

text \<open>An arrival is expired when it is older than the retransmission timeout.\<close>

definition expired :: "u64 \<Rightarrow> u64 \<Rightarrow> u64 option \<Rightarrow> bool" where
  "expired now rto slot \<longleftrightarrow> (\<exists>t. slot = Some t \<and> now - t > rto)"

text \<open>The indices of \<open>{s..<t}\<close> without an arrival, newest first.\<close>

definition missing_below :: "(nat \<rightharpoonup> 'a) \<Rightarrow> nat \<Rightarrow> nat \<Rightarrow> nat list" where
  "missing_below P s t = filter (\<lambda>j. P j = None) (rev [s..<t])"

lemma collect_loop_after:
  assumes "length b = n" "n = 2 ^ k" "i \<le> n" "unat s + n < 2 ^ 32"
  shows "\<exists>b'. collect_loop n s now rto i b (Some t) ms =
           Some (b', Some t, ms @ map word_of_nat (missing_below (pending n (unat s) b) (unat s) (unat s + i))) \<and>
         length b' = n \<and>
         pending n (unat s) b' =
           (\<lambda>j. if unat s \<le> j \<and> j < unat s + i then None else pending n (unat s) b j)"
  using assms(1,3)
proof (induction i arbitrary: b ms)
  case 0
  then show ?case by (auto simp: missing_below_def fun_eq_iff)
next
  case (Suc i)
  let ?s = "unat s"
  obtain x where x: "uadd s (word_of_nat i) = Some x" "unat x = ?s + i"
    using uadd_of_nat [of s i] Suc.prems(2) assms(4) by auto
  have x': "word_of_nat (?s + i) = x" using x(2) by (metis of_nat_unat ucast_id)
  have slot: "b ! relative_index n x = pending n ?s b (?s + i)"
    using x(2) assms(2) Suc.prems(2) by (simp add: relative_index_mod pending_inside)
  show ?case
  proof (cases "pending n ?s b (?s + i)")
    case None
    obtain b' where b': "collect_loop n s now rto i b (Some t) (ms @ [x]) =
           Some (b', Some t, (ms @ [x]) @ map word_of_nat (missing_below (pending n ?s b) ?s (?s + i)))"
      "length b' = n"
      "pending n ?s b' = (\<lambda>j. if ?s \<le> j \<and> j < ?s + i then None else pending n ?s b j)"
      using Suc.IH [of b "ms @ [x]"] Suc.prems by auto
    have "pending n ?s b' = (\<lambda>j. if ?s \<le> j \<and> j < ?s + Suc i then None else pending n ?s b j)"
      using None by (auto simp: b'(3) fun_eq_iff less_Suc_eq)
    moreover have "missing_below (pending n ?s b) ?s (?s + Suc i)
        = (?s + i) # missing_below (pending n ?s b) ?s (?s + i)"
      using None by (simp add: missing_below_def)
    ultimately show ?thesis
      using x(1) slot None b'(1,2) x' by simp
  next
    case (Some y)
    let ?b = "b[relative_index n x := None]"
    have upd: "pending n ?s ?b = (pending n ?s b)(?s + i := None)"
      using x(2) assms(2) Suc.prems by (simp add: relative_index_mod pending_update)
    have same: "missing_below (pending n ?s ?b) ?s (?s + i) = missing_below (pending n ?s b) ?s (?s + i)"
      by (auto simp: missing_below_def upd intro: filter_cong)
    obtain b' where b': "collect_loop n s now rto i ?b (Some t) ms =
           Some (b', Some t, ms @ map word_of_nat (missing_below (pending n ?s ?b) ?s (?s + i)))"
      "length b' = n"
      "pending n ?s b' = (\<lambda>j. if ?s \<le> j \<and> j < ?s + i then None else pending n ?s ?b j)"
      using Suc.IH [of ?b ms] Suc.prems by auto
    have "pending n ?s b' = (\<lambda>j. if ?s \<le> j \<and> j < ?s + Suc i then None else pending n ?s b j)"
      by (auto simp: b'(3) upd fun_eq_iff less_Suc_eq)
    moreover have "missing_below (pending n ?s b) ?s (?s + Suc i)
        = missing_below (pending n ?s b) ?s (?s + i)"
      using Some by (simp add: missing_below_def)
    ultimately show ?thesis
      using x(1) slot Some b'(1,2) same by simp
  qed
qed

lemma collect_loop_before:
  assumes "length b = n" "n = 2 ^ k" "i \<le> n" "unat s + n < 2 ^ 32"
    and "\<forall>j y. pending n (unat s) b j = Some y \<longrightarrow> y \<le> now"
    and "\<forall>j. unat s \<le> j \<and> j < unat s + i \<longrightarrow> \<not> expired now rto (pending n (unat s) b j)"
  shows "collect_loop n s now rto i b None ms = Some (b, None, ms)"
  using assms(3,6)
proof (induction i)
  case (Suc i)
  let ?s = "unat s"
  obtain x where x: "uadd s (word_of_nat i) = Some x" "unat x = ?s + i"
    using uadd_of_nat [of s i] Suc.prems(1) assms(4) by auto
  have slot: "b ! relative_index n x = pending n ?s b (?s + i)"
    using x(2) assms(2) Suc.prems(1) by (simp add: relative_index_mod pending_inside)
  have IH: "collect_loop n s now rto i b None ms = Some (b, None, ms)"
    using Suc by simp
  show ?case
  proof (cases "pending n ?s b (?s + i)")
    case None
    with x(1) slot IH show ?thesis by simp
  next
    case (Some y)
    then have "usub now y = Some (now - y)" "\<not> now - y > rto"
      using assms(5) Suc.prems(2) [rule_format, of "?s + i"] by (auto simp: usub_def expired_def)
    with x(1) slot IH Some show ?thesis by simp
  qed
qed simp

lemma collect_loop_finds:
  assumes "length b = n" "n = 2 ^ k" "i \<le> n" "unat s + n < 2 ^ 32"
    and "\<forall>j y. pending n (unat s) b j = Some y \<longrightarrow> y \<le> now"
    and "t < i" "expired now rto (pending n (unat s) b (unat s + t))"
    and "\<forall>j. unat s + t < j \<and> j < unat s + i \<longrightarrow> \<not> expired now rto (pending n (unat s) b j)"
  shows "\<exists>b'. collect_loop n s now rto i b None ms =
           Some (b', Some t, ms @ map word_of_nat (missing_below (pending n (unat s) b) (unat s) (unat s + t))) \<and>
         length b' = n \<and>
         pending n (unat s) b' =
           (\<lambda>j. if unat s \<le> j \<and> j \<le> unat s + t then None else pending n (unat s) b j)"
  using assms(3,6,8)
proof (induction i)
  case (Suc i)
  let ?s = "unat s"
  obtain x where x: "uadd s (word_of_nat i) = Some x" "unat x = ?s + i"
    using uadd_of_nat [of s i] Suc.prems(1) assms(4) by auto
  have slot: "b ! relative_index n x = pending n ?s b (?s + i)"
    using x(2) assms(2) Suc.prems(1) by (simp add: relative_index_mod pending_inside)
  show ?case
  proof (cases "t = i")
    case True
    then obtain y where y: "pending n ?s b (?s + i) = Some y" "now - y > rto"
      using assms(7) by (auto simp: expired_def)
    then have age: "usub now y = Some (now - y)"
      using assms(5) by (simp add: usub_def)
    let ?b = "b[relative_index n x := None]"
    have upd: "pending n ?s ?b = (pending n ?s b)(?s + i := None)"
      using x(2) assms(1,2) Suc.prems by (simp add: relative_index_mod pending_update)
    have same: "missing_below (pending n ?s ?b) ?s (?s + i) = missing_below (pending n ?s b) ?s (?s + i)"
      by (auto simp: missing_below_def upd intro: filter_cong)
    obtain b' where b': "collect_loop n s now rto i ?b (Some i) ms =
           Some (b', Some i, ms @ map word_of_nat (missing_below (pending n ?s ?b) ?s (?s + i)))"
      "length b' = n"
      "pending n ?s b' = (\<lambda>j. if ?s \<le> j \<and> j < ?s + i then None else pending n ?s ?b j)"
      using collect_loop_after [of ?b n k i s now rto i ms] assms Suc.prems(1) by auto
    have "pending n ?s b' = (\<lambda>j. if ?s \<le> j \<and> j \<le> ?s + i then None else pending n ?s b j)"
      by (auto simp: b'(3) upd fun_eq_iff)
    with x(1) slot y age b'(1,2) same True show ?thesis by simp
  next
    case False
    then have "t < i" using Suc.prems(2) by simp
    then obtain b' where b': "collect_loop n s now rto i b None ms =
           Some (b', Some t, ms @ map word_of_nat (missing_below (pending n ?s b) ?s (?s + t)))"
      "length b' = n"
      "pending n ?s b' = (\<lambda>j. if ?s \<le> j \<and> j \<le> ?s + t then None else pending n ?s b j)"
      using Suc by auto
    have "\<not> expired now rto (pending n ?s b (?s + i))"
      using Suc.prems(3) \<open>t < i\<close> by simp
    then have "collect_loop n s now rto (Suc i) b None ms = collect_loop n s now rto i b None ms"
      using x(1) slot assms(5)
      by (cases "pending n ?s b (?s + i)") (auto simp: expired_def usub_def)
    with b' show ?thesis by simp
  qed
qed simp

lemma collect_missing_spec:
  assumes inv: "window_inv n w" and f: "furthest_index w = Some f" "start_index w \<le> f"
    and fits: "unat (start_index w) + n < 2 ^ 32"
    and times: "\<forall>i y. window_map n w i = Some y \<longrightarrow> y \<le> now"
  shows "(\<forall>i. \<not> expired now rto (window_map n w i)) \<Longrightarrow> collect_missing n now rto w = Some ([], w)"
    and "expired now rto (window_map n w t) \<Longrightarrow> \<forall>i > t. \<not> expired now rto (window_map n w i) \<Longrightarrow>
      \<exists>w'. collect_missing n now rto w =
             Some (map word_of_nat (missing_below (window_map n w) (unat (start_index w)) t), w') \<and>
           unat (start_index w') = Suc t \<and>
           window_map n w' = window_map n w |` {Suc t..} \<and>
           window_inv n w'"
proof -
  let ?s = "unat (start_index w)"
  from inv obtain k where n: "n = 2 ^ k" "length (buf w) = n" "0 < n" by (rule window_invE)
  note fur = window_inv_furthest [OF inv f(1)]
  have range: "scan_range n w = Some (Suc (unat f) - ?s)"
    using f fur(1) fits by (rule scan_range_furthest)
  have m: "Suc (unat f) - ?s \<le> n" using fur(1) by linarith
  have times': "\<forall>j y. pending n ?s (buf w) j = Some y \<longrightarrow> y \<le> now"
    using times by (simp add: window_map_def)
  show "collect_missing n now rto w = Some ([], w)" if "\<forall>i. \<not> expired now rto (window_map n w i)"
    using collect_loop_before [OF n(2,1) m fits times', of rto "[]"] that range
    by (simp add: collect_missing_def window_map_def)
  show "\<exists>w'. collect_missing n now rto w =
             Some (map word_of_nat (missing_below (window_map n w) ?s t), w') \<and>
           unat (start_index w') = Suc t \<and>
           window_map n w' = window_map n w |` {Suc t..} \<and> window_inv n w'"
    if t: "expired now rto (window_map n w t)" "\<forall>i > t. \<not> expired now rto (window_map n w i)"
  proof -
    obtain y where y: "window_map n w t = Some y" using t(1) by (auto simp: expired_def)
    then have tf: "?s \<le> t" "t \<le> unat f" "t < ?s + n"
      using fur(1,2) by (auto simp: window_map_def pending_def split: if_splits)
    let ?t = "t - ?s"
    have map_eq: "window_map n w = pending n ?s (buf w)" by (simp add: window_map_def)
    have tt: "?t < Suc (unat f) - ?s" "?s + ?t = t" using tf by auto
    obtain b' where b': "collect_loop n (start_index w) now rto (Suc (unat f) - ?s) (buf w) None [] =
           Some (b', Some ?t, map word_of_nat (missing_below (window_map n w) ?s t))"
      "length b' = n"
      "pending n ?s b' = (\<lambda>j. if ?s \<le> j \<and> j < Suc t then None else window_map n w j)"
      using collect_loop_finds [OF n(2,1) m fits times' tt(1), of rto "[]"] t tt(2)
      unfolding map_eq by (auto simp: less_Suc_eq_le)
    have t_fits: "Suc ?t < 2 ^ LENGTH(32)" using tf fits by simp
    obtain d where d: "uadd (word_of_nat ?t) (1 :: u32) = Some d" "unat d = Suc ?t"
      using uadd_of_nat_1 [of ?t, where ?'w = 32] t_fits by blast
    obtain st where st: "uadd (start_index w) d = Some st" "unat st = Suc t"
      using uadd_fits [of "start_index w" d] d(2) tf fits by auto
    define w' where "w' = w\<lparr>buf := b', start_index := st\<rparr>"
    have w': "start_index w' = st" "furthest_index w' = Some f" "buf w' = b'"
      using f(1) by (simp_all add: w'_def)
    have "pending n (?s + Suc ?t) b' = pending n ?s b'"
      using tf by (intro pending_advance) (auto simp: b'(3))
    then have map: "window_map n w' = window_map n w |` {Suc t..}"
      using st(2) tf
      by (auto simp: w' window_map_def b'(3) fun_eq_iff restrict_map_def pending_outside)
    have "unat f \<in> dom (window_map n w')" if "st \<le> f"
      using that fur(3) f(2) st(2) by (auto simp: map restrict_map_def word_le_nat_alt)
    moreover have "\<forall>i \<in> dom (window_map n w'). i \<le> unat f"
      using fur(2) by (auto simp: map restrict_map_def split: if_splits)
    moreover have "unat f < unat st + n" using fur(1) st(2) tf by linarith
    ultimately have "window_inv n w'"
      using n(1) b'(2) by (auto simp: window_inv_def w')
    moreover have "collect_missing n now rto w =
        Some (map word_of_nat (missing_below (window_map n w) ?s t), w')"
      using range b'(1) d(1) st(1) f(1) by (simp add: collect_missing_def w'_def)
    ultimately show ?thesis using st(2) map by (auto simp: w')
  qed
qed

section \<open>Insertion followed by a shift\<close>

text \<open>
  The indices the receiver has seen: everything below the window, and what is pending in it.
  This is how the layer uses the reliable window: insert, and shift when the insertion
  was accepted.
\<close>

definition seen :: "nat \<Rightarrow> 'a window \<Rightarrow> nat set" where
  "seen n w = {..<unat (start_index w)} \<union> dom (window_map n w)"

definition insert_and_shift ::
  "usize \<Rightarrow> u32 \<Rightarrow> 'a \<Rightarrow> 'a window \<Rightarrow> ((buffer_overflow_error + bool) \<times> 'a window) option" where
  "insert_and_shift n index v w =
     (case window_insert n index v w of
        (Inr True, w') \<Rightarrow>
          do {
            (count, w'') \<leftarrow> window_shift n w';
            Some (Inr True, w'')
          }
      | r \<Rightarrow> Some r)"

definition settled :: "nat \<Rightarrow> 'a window \<Rightarrow> bool" where
  "settled n w \<longleftrightarrow> window_inv n w \<and> window_map n w (unat (start_index w)) = None"

lemma settled_new: "settled (2 ^ k) (window_new (2 ^ k))"
  by (simp add: settled_def window_inv_new) (simp add: window_map_def window_new_def pending_def)

lemma insert_and_shift_spec:
  assumes "settled n w" "start_index w \<le> index" "unat index < unat (start_index w) + n"
    "unat (start_index w) + n < 2 ^ 32"
  shows "\<exists>w'. insert_and_shift n index v w = Some (Inr (unat index \<notin> seen n w), w') \<and>
     settled n w' \<and> seen n w' = insert (unat index) (seen n w) \<and>
     start_index w \<le> start_index w'"
proof -
  let ?s = "unat (start_index w)"
  have inv: "window_inv n w" using assms(1) by (simp add: settled_def)
  have index: "?s \<le> unat index" using assms(2) by (simp add: word_le_nat_alt)
  have not_seen: "unat index \<notin> seen n w \<longleftrightarrow> window_map n w (unat index) = None"
    using index by (auto simp: seen_def)
  obtain w1 f where w1: "window_insert n index v w = (Inr (window_map n w (unat index) = None), w1)"
    "start_index w1 = start_index w"
    "window_map n w1 = (if window_map n w (unat index) = None
       then (window_map n w)(unat index \<mapsto> v) else window_map n w)"
    "window_inv n w1" "furthest_index w1 = Some f" "start_index w \<le> f"
    using window_insert_spec [OF inv assms(2,3)] by blast
  show ?thesis
  proof (cases "window_map n w (unat index) = None")
    case False
    then have "w1 = w"
      using w1(1) inv assms(2,3)
      by (auto simp: window_insert_def window_map_slot split: if_splits)
    with False w1(1) not_seen assms(1) show ?thesis
      by (auto simp: insert_and_shift_def)
  next
    case True
    obtain c w' where w': "window_shift n w1 = Some (c, w')"
      "unat (start_index w') = ?s + c"
      "\<forall>j. ?s \<le> j \<and> j < unat (start_index w') \<longrightarrow> window_map n w1 j \<noteq> None"
      "window_map n w1 (unat (start_index w')) = None"
      "window_map n w' = window_map n w1 |` {unat (start_index w')..}" "window_inv n w'"
      using window_shift_spec [OF w1(4,5)] w1(2,6) assms(4) by (metis (no_types, lifting))
    have "seen n w' = {..<?s} \<union> dom (window_map n w1)"
    proof (intro set_eqI iffI)
      fix j assume "j \<in> seen n w'"
      then show "j \<in> {..<?s} \<union> dom (window_map n w1)"
        using w'(2,3,5) by (cases "?s \<le> j") (auto simp: seen_def restrict_map_def split: if_splits)
    next
      fix j assume "j \<in> {..<?s} \<union> dom (window_map n w1)"
      then show "j \<in> seen n w'"
        using w'(2,5) by (cases "j < unat (start_index w')") (auto simp: seen_def restrict_map_def)
    qed
    also have "\<dots> = insert (unat index) (seen n w)"
      using True by (auto simp: w1(3) seen_def)
    finally have "seen n w' = insert (unat index) (seen n w)" .
    moreover have "insert_and_shift n index v w = Some (Inr True, w')"
      using w1(1) w'(1) True by (simp add: insert_and_shift_def)
    moreover have "settled n w'"
      using w'(4-6) by (simp add: settled_def restrict_map_def)
    ultimately show ?thesis
      using not_seen True w'(2) by (auto simp: word_le_nat_alt)
  qed
qed

lemma settled_start: "settled n w \<Longrightarrow> unat (start_index w) = (LEAST i. i \<notin> seen n w)"
proof (rule sym, rule Least_equality)
  assume "settled n w"
  then show "unat (start_index w) \<notin> seen n w"
    by (auto simp: settled_def seen_def)
qed (auto simp: seen_def not_less [symmetric])

section \<open>A run of arrivals\<close>

text \<open>The indices accepted from a sequence of arrivals; an error or a panic ends the run.\<close>

fun accept_run :: "(u32 \<Rightarrow> 'w \<Rightarrow> (('e + bool) \<times> 'w) option) \<Rightarrow> u32 list \<Rightarrow> 'w \<Rightarrow>
    (u32 list \<times> 'w) option" where
  "accept_run accept [] w = Some ([], w)"
| "accept_run accept (i # is) w =
     (case accept i w of
        Some (Inr fresh, w') \<Rightarrow>
          do {
            (accepted, w'') \<leftarrow> accept_run accept is w';
            Some (if fresh then i # accepted else accepted, w'')
          }
      | _ \<Rightarrow> None)"

text \<open>What the layer needs of a receive window: an index not seen yet, below \<open>limit\<close>, is accepted
  and becomes seen.\<close>

locale receive_window =
  fixes accept :: "u32 \<Rightarrow> 'w \<Rightarrow> (('e + bool) \<times> 'w) option"
    and seen_by :: "'w \<Rightarrow> nat set"
    and ok :: "'w \<Rightarrow> bool"
    and limit :: nat
  assumes accept_unseen:
    "ok w \<Longrightarrow> seen_by w \<subseteq> {..<limit} \<Longrightarrow> unat i < limit \<Longrightarrow> unat i \<notin> seen_by w \<Longrightarrow>
       \<exists>w'. accept i w = Some (Inr True, w') \<and> ok w' \<and> seen_by w' = insert (unat i) (seen_by w)"
begin

lemma run_accepts_all:
  assumes "ok w" "seen_by w \<subseteq> {..<limit}" "distinct is"
    and "\<forall>i \<in> set is. unat i < limit \<and> unat i \<notin> seen_by w"
  shows "\<exists>w'. accept_run accept is w = Some (is, w') \<and> ok w' \<and>
           seen_by w' = seen_by w \<union> unat ` set is"
  using assms
proof (induction "is" arbitrary: w)
  case (Cons i "is")
  then obtain w1 where w1: "accept i w = Some (Inr True, w1)" "ok w1"
    "seen_by w1 = insert (unat i) (seen_by w)"
    using accept_unseen [of w i] by auto
  moreover have "\<forall>j \<in> set is. unat j < limit \<and> unat j \<notin> seen_by w1"
    using Cons.prems(3,4) w1(3) by (auto dest: word_unat_eq_iff [THEN iffD2])
  moreover have "seen_by w1 \<subseteq> {..<limit}"
    using Cons.prems(2,4) w1(3) by auto
  ultimately obtain w' where "accept_run accept is w1 = Some (is, w')" "ok w'"
    "seen_by w' = seen_by w1 \<union> unat ` set is"
    using Cons.IH [of w1] Cons.prems(3) by auto
  with w1 show ?case by auto
qed simp

end

definition room_for :: "nat \<Rightarrow> nat \<Rightarrow> 'a window \<Rightarrow> bool" where
  "room_for n limit w \<longleftrightarrow>
     settled n w \<and> limit \<le> unat (start_index w) + n \<and> limit + n < 2 ^ 32"

lemma settled_start_le:
  assumes "seen n w \<subseteq> {..<limit}"
  shows "unat (start_index w) \<le> limit"
proof (rule ccontr)
  assume "\<not> unat (start_index w) \<le> limit"
  then have "limit \<in> seen n w" by (simp add: seen_def)
  with assms show False by auto
qed

interpretation ring: receive_window "\<lambda>i. insert_and_shift n i v" "seen n" "room_for n limit" limit
  for n v limit
proof
  fix w :: "'a window" and i :: u32
  assume w: "room_for n limit w" "seen n w \<subseteq> {..<limit}" and i: "unat i < limit" "unat i \<notin> seen n w"
  have "start_index w \<le> i"
    using i(2) by (auto simp: seen_def word_le_nat_alt not_less [symmetric])
  moreover have "unat (start_index w) + n < 2 ^ 32"
    using settled_start_le [OF w(2)] w(1) by (simp add: room_for_def)
  ultimately obtain w' where w': "insert_and_shift n i v w = Some (Inr True, w')" "settled n w'"
    "seen n w' = insert (unat i) (seen n w)" "start_index w \<le> start_index w'"
    using insert_and_shift_spec [of n w i v] w(1) i by (auto simp: room_for_def)
  then have "room_for n limit w'"
    using w(1) by (auto simp: room_for_def word_le_nat_alt)
  with w' show "\<exists>w'. insert_and_shift n i v w = Some (Inr True, w') \<and> room_for n limit w' \<and>
      seen n w' = insert (unat i) (seen n w)"
    by blast
qed

section \<open>Properties of the window\<close>

text \<open>C10: distinct unseen indices that fit the window are all accepted, in whatever order they
  arrive, and afterwards the window starts at the least index that has not been seen.\<close>
theorem window_any_order:
  assumes "settled n w" and "distinct is"
    and "\<forall>i \<in> set is. unat i \<notin> seen n w \<and> unat i < unat (start_index w) + n"
    and "unat (start_index w) + n + n < 2 ^ 32"
  shows "\<exists>w'. accept_run (\<lambda>i. insert_and_shift n i v) is w = Some (is, w') \<and>
           seen n w' = seen n w \<union> unat ` set is \<and>
           unat (start_index w') = (LEAST i. i \<notin> seen n w \<union> unat ` set is)"
proof -
  let ?limit = "unat (start_index w) + n"
  have "seen n w \<subseteq> {..<?limit}"
    by (auto simp: seen_def window_map_def pending_def split: if_splits)
  moreover have "room_for n ?limit w"
    using assms(1,4) by (simp add: room_for_def)
  ultimately obtain w' where w': "accept_run (\<lambda>i. insert_and_shift n i v) is w = Some (is, w')"
    "room_for n ?limit w'" "seen n w' = seen n w \<union> unat ` set is"
    using ring.run_accepts_all [of n ?limit w "is" v] assms(2,3) by blast
  have "unat (start_index w') = (LEAST i. i \<notin> seen n w')"
    using w'(2) by (intro settled_start) (simp add: room_for_def)
  with w'(1,3) show ?thesis by auto
qed

theorem window_any_order_witness:
  "\<exists>w'. accept_run (\<lambda>i. insert_and_shift 8 i ()) [2, 0, 3, 1] (window_new 8) = Some ([2, 0, 3, 1], w') \<and>
        seen 8 w' = {2, 0, 3, 1}"
proof -
  have "settled (2 ^ 3) (window_new (2 ^ 3) :: unit window)" by (rule settled_new)
  then have c: "settled 8 (window_new 8 :: unit window)" by simp
  have s: "seen 8 (window_new 8 :: unit window) = {}"
    by (auto simp: seen_def window_new_def window_map_def pending_def split: if_splits)
  show ?thesis
    using window_any_order [OF c, of "[2, 0, 3, 1]" "()"] s by (auto simp: window_new_def)
qed

text \<open>C21: \<open>collect_missing\<close> reports exactly the indices without an arrival below the newest expired
  arrival \<open>t\<close>, newest first, moves the window past \<open>t\<close> and keeps the arrivals above it.\<close>
theorem collect_missing_reports_gaps:
  assumes "window_inv n w" and "furthest_index w = Some f" and "start_index w \<le> f"
    and "unat (start_index w) + n < 2 ^ 32"
    and "\<forall>i y. window_map n w i = Some y \<longrightarrow> y \<le> now"
    and "expired now rto (window_map n w t)" and "\<forall>i > t. \<not> expired now rto (window_map n w i)"
  shows "\<exists>w'. collect_missing n now rto w =
             Some (map word_of_nat (missing_below (window_map n w) (unat (start_index w)) t), w') \<and>
           unat (start_index w') = Suc t \<and>
           window_map n w' = window_map n w |` {Suc t..} \<and>
           window_inv n w'"
  by (rule collect_missing_spec(2) [OF assms])

definition gap_window :: "u64 window" where
  "gap_window = \<lparr>buf = [None, Some 10, None, Some 20], start_index = 0, furthest_index = Some 3\<rparr>"

lemma gap_window_fields:
  "length (buf gap_window) = 4" "start_index gap_window = 0" "furthest_index gap_window = Some 3"
  by (simp_all add: gap_window_def)

lemma gap_window_map:
  "window_map 4 gap_window i = (if i = 1 then Some 10 else if i = 3 then Some 20 else None)"
proof -
  consider "i = 0" | "i = 1" | "i = 2" | "i = 3" | "4 \<le> i" by linarith
  then show ?thesis
    by cases (simp_all add: window_map_def gap_window_def pending_def)
qed

theorem collect_missing_reports_gaps_witness:
  "\<exists>w'. collect_missing 4 40 15 gap_window = Some ([2, 0], w') \<and> unat (start_index w') = 4"
proof -
  have "window_map 4 gap_window 3 = Some 20" by (simp add: gap_window_map)
  then have "window_inv 4 gap_window"
    unfolding window_inv_def by (intro conjI exI [of _ 2])
      (auto simp: gap_window_fields gap_window_map split: if_splits)
  moreover have "expired 40 15 (window_map 4 gap_window 3)"
    "\<forall>i > 3. \<not> expired 40 15 (window_map 4 gap_window i)"
    by (simp_all add: expired_def gap_window_map)
  moreover have "missing_below (window_map 4 gap_window) 0 3 = [2, 0]"
    by (simp add: missing_below_def gap_window_map upt_rec)
  moreover have "\<forall>i y. window_map 4 gap_window i = Some y \<longrightarrow> y \<le> 40"
    by (auto simp: gap_window_map split: if_splits)
  ultimately obtain w' where "collect_missing 4 40 15 gap_window = Some (map word_of_nat [2, 0], w')"
    "unat (start_index w') = Suc 3"
    using collect_missing_reports_gaps [OF _ gap_window_fields(3), of 4 40 15 3]
    by (force simp: gap_window_fields(2))
  then show ?thesis by simp
qed

lemma window_map_empty_slot:
  assumes "window_inv n w" "window_map n w = Map.empty" "j < n"
  shows "buf w ! j = None"
proof -
  obtain i where "unat (start_index w) \<le> i" "i < unat (start_index w) + n" "i mod n = j"
    using slot_in_window [OF assms(3)] .
  then show ?thesis
    using assms(2) by (metis pending_inside window_map_def)
qed

text \<open>C32: an index below the window is not refused. When everything up to the window has been
  released, a repeated old index is accepted as new, and the \<open>shift\<close> that follows panics on
  \<open>furthest_index - start_index\<close>.\<close>
theorem window_old_index_panics:
  assumes "window_inv n w" and "furthest_index w = None" and "index < start_index w"
  shows "\<exists>w'. window_insert n index v w = (Inr True, w') \<and> window_shift n w' = None"
proof -
  obtain k where n: "n = 2 ^ k" "0 < n" using assms(1) by (rule window_invE)
  have "buf w ! relative_index n index = None"
    using assms(1,2) n by (intro window_map_empty_slot) (auto simp: window_inv_def relative_index_mod)
  moreover have "unat index < unat (start_index w)" using assms(3) by (simp add: word_less_nat_alt)
  moreover have "usub index (start_index w) = None" using assms(3) by (simp add: usub_def)
  ultimately show ?thesis
    using assms(2) by (simp add: window_insert_def window_shift_def scan_range_def)
qed

theorem window_old_index_panics_witness:
  "\<exists>w'. window_insert 4 2 () \<lparr>buf = [None, None, None, None], start_index = 5, furthest_index = None\<rparr>
      = (Inr True, w') \<and> window_shift 4 w' = None"
proof -
  let ?w = "\<lparr>buf = [None, None, None, None :: unit option], start_index = 5, furthest_index = None\<rparr>"
  have "pending 4 5 [None, None, None, None :: unit option] i = None" for i
  proof -
    have "i mod 4 = 0 \<or> i mod 4 = 1 \<or> i mod 4 = 2 \<or> i mod 4 = 3" by presburger
    then show ?thesis by (auto simp: pending_def)
  qed
  then have "window_inv 4 ?w"
    by (auto simp: window_inv_def window_map_def fun_eq_iff intro!: exI [of _ 2])
  then show ?thesis by (rule window_old_index_panics) simp_all
qed

end
