(* ===== verification/Retransmit_Cache.thy ===== *)
theory Retransmit_Cache
  imports Fragment Window
begin

text \<open>
  The retransmission cache, \<open>reliability/retransmit_cache.rs\<close>: the packets sent and not yet
  acknowledged, in a ring of 128 slots over the sequence numbers from \<open>start_seq\<close> on, and the
  queue of fragments to send again. The theory models every operation, represents the ring as
  a map from sequence numbers (reusing \<open>pending\<close> of the receive window), and proves that each
  operation keeps the ring contiguous, that fragments leave the cache only by acknowledgement,
  and that after \<open>get_retransmit_fragments\<close> the oldest packet in flight is not overdue.
\<close>

section \<open>Operations\<close>

definition PACKET_HISTORY_SIZE :: usize where
  "PACKET_HISTORY_SIZE = 128"

datatype packet_history = Valid "fragment list" u64 | Invalid | Used

record retransmit_cache =
  histories :: "packet_history list"
  start_seq :: u32
  retransmit_fragments :: "fragment list"

definition cache_index :: "u32 \<Rightarrow> usize" where
  "cache_index seq = unat seq AND (PACKET_HISTORY_SIZE - 1)"

definition cache_new :: retransmit_cache where
  "cache_new =
     \<lparr>histories = replicate PACKET_HISTORY_SIZE Invalid, start_seq = 0, retransmit_fragments = []\<rparr>"

definition cache_is_empty :: "retransmit_cache \<Rightarrow> bool" where
  "cache_is_empty c \<longleftrightarrow>
     histories c ! cache_index (start_seq c) = Invalid \<and> retransmit_fragments c = []"

definition cache_insert ::
  "u32 \<Rightarrow> fragment list \<Rightarrow> u64 \<Rightarrow> retransmit_cache \<Rightarrow>
     (retransmit_cache, buffer_overflow_error, unit) step" where
  "cache_insert seq fragments time_sent c =
     do {
       limit \<leftarrow> uadd (start_seq c) (word_of_nat PACKET_HISTORY_SIZE);
       if limit \<le> seq then Some (Inl BufferOverflowError, c)
       else if histories c ! cache_index seq = Invalid then
         Some (Inr (),
           c\<lparr>histories := (histories c)[cache_index seq := Valid fragments time_sent]\<rparr>)
       else Some (Inr (), c)
     }"

definition mark_as_used ::
  "u32 \<Rightarrow> retransmit_cache \<Rightarrow> (fragment list \<times> u64) option \<times> retransmit_cache" where
  "mark_as_used seq c =
     (case histories c ! cache_index seq of
        Valid fragments time_sent \<Rightarrow>
          (Some (fragments, time_sent), c\<lparr>histories := (histories c)[cache_index seq := Used]\<rparr>)
      | _ \<Rightarrow> (None, c))"

fun cache_shift_loop ::
  "u32 \<Rightarrow> usize \<Rightarrow> nat \<Rightarrow> packet_history list \<Rightarrow> (packet_history list \<times> usize) option" where
  "cache_shift_loop start i 0 h = Some (h, i)"
| "cache_shift_loop start i (Suc k) h =
     do {
       seq \<leftarrow> uadd start (word_of_nat i);
       if h ! cache_index seq = Used then
         cache_shift_loop start (Suc i) k (h[cache_index seq := Invalid])
       else Some (h, i)
     }"

definition cache_shift :: "retransmit_cache \<Rightarrow> (usize \<times> retransmit_cache) option" where
  "cache_shift c =
     do {
       (h, count) \<leftarrow> cache_shift_loop (start_seq c) 0 PACKET_HISTORY_SIZE (histories c);
       start \<leftarrow> uadd (start_seq c) (word_of_nat count);
       Some (count, c\<lparr>histories := h, start_seq := start\<rparr>)
     }"

fun resend_loop ::
  "u32 \<Rightarrow> u64 \<Rightarrow> u64 \<Rightarrow> usize \<Rightarrow> nat \<Rightarrow> packet_history list \<Rightarrow> fragment list \<Rightarrow>
     (packet_history list \<times> fragment list \<times> usize) option" where
  "resend_loop start now rto i 0 h queue = Some (h, queue, i)"
| "resend_loop start now rto i (Suc k) h queue =
     do {
       seq \<leftarrow> uadd start (word_of_nat i);
       case h ! cache_index seq of
         Valid fragments time_sent \<Rightarrow>
           do {
             age \<leftarrow> usub now time_sent;
             if age \<ge> rto then
               resend_loop start now rto (Suc i) k (h[cache_index seq := Invalid]) (queue @ fragments)
             else Some (h, queue, i)
           }
       | Invalid \<Rightarrow> Some (h, queue, i)
       | Used \<Rightarrow> resend_loop start now rto (Suc i) k (h[cache_index seq := Invalid]) queue
     }"

text \<open>The method returns a reference to \<open>retransmit_fragments\<close>; the model returns the cache.\<close>

definition get_retransmit_fragments ::
  "u64 \<Rightarrow> u64 \<Rightarrow> retransmit_cache \<Rightarrow> retransmit_cache option" where
  "get_retransmit_fragments now rto c =
     (if cache_is_empty c then Some c
      else do {
        (h, queue, count) \<leftarrow>
          resend_loop (start_seq c) now rto 0 PACKET_HISTORY_SIZE (histories c)
            (retransmit_fragments c);
        start \<leftarrow> uadd (start_seq c) (word_of_nat count);
        Some (c\<lparr>histories := h, start_seq := start, retransmit_fragments := queue\<rparr>)
      })"

definition extend_retransmit_fragments :: "fragment list \<Rightarrow> retransmit_cache \<Rightarrow> retransmit_cache" where
  "extend_retransmit_fragments fragments c =
     c\<lparr>retransmit_fragments := retransmit_fragments c @ fragments\<rparr>"

section \<open>The map of packets in flight\<close>

definition occupied :: "packet_history \<Rightarrow> packet_history option" where
  "occupied h = (if h = Invalid then None else Some h)"

definition in_flight :: "retransmit_cache \<Rightarrow> nat \<rightharpoonup> packet_history" where
  "in_flight c = pending 128 (unat (start_seq c)) (map occupied (histories c))"

text \<open>The sequence numbers in the ring are those from \<open>start_seq\<close> to the next one to be sent.\<close>

definition cache_inv :: "nat \<Rightarrow> retransmit_cache \<Rightarrow> bool" where
  "cache_inv next' c \<longleftrightarrow>
     length (histories c) = 128 \<and> dom (in_flight c) = {unat (start_seq c)..<next'} \<and>
     unat (start_seq c) \<le> next' \<and> next' \<le> unat (start_seq c) + 128"

lemma occupied_simps [simp]:
  "occupied Invalid = None" "occupied (Valid fs t) = Some (Valid fs t)" "occupied Used = Some Used"
  "occupied h = None \<longleftrightarrow> h = Invalid"
  "occupied h = Some h' \<longleftrightarrow> h = h' \<and> h' \<noteq> Invalid"
  by (auto simp: occupied_def)

lemma cache_index_mod: "cache_index seq = unat seq mod 128"
  using relative_index_mod [of 7 seq]
  by (simp add: cache_index_def relative_index_def PACKET_HISTORY_SIZE_def)

lemma cache_inv_new: "cache_inv 0 cache_new"
  by (auto simp: cache_inv_def cache_new_def in_flight_def pending_def PACKET_HISTORY_SIZE_def)

lemma in_flight_slot:
  assumes "length (histories c) = 128" "unat (start_seq c) \<le> unat seq"
    "unat seq < unat (start_seq c) + 128"
  shows "occupied (histories c ! cache_index seq) = in_flight c (unat seq)"
  using assms by (simp add: in_flight_def pending_inside cache_index_mod)

lemma cache_shift_loop_spec:
  assumes "length h = 128" "i + m \<le> 128" "unat s + 128 < 2 ^ 32"
  shows "\<exists>h' c. cache_shift_loop s i m h = Some (h', c) \<and> length h' = 128 \<and> i \<le> c \<and> c \<le> i + m \<and>
     (\<forall>j. unat s + i \<le> j \<and> j < unat s + c \<longrightarrow> pending 128 (unat s) (map occupied h) j = Some Used) \<and>
     (c < i + m \<longrightarrow> pending 128 (unat s) (map occupied h) (unat s + c) \<noteq> Some Used) \<and>
     pending 128 (unat s) (map occupied h') =
       (\<lambda>j. if unat s + i \<le> j \<and> j < unat s + c then None else pending 128 (unat s) (map occupied h) j)"
  using assms(1,2)
proof (induction m arbitrary: i h)
  case 0
  then show ?case by (intro exI [of _ h] exI [of _ i]) (auto simp: fun_eq_iff)
next
  case (Suc m)
  let ?s = "unat s" and ?P = "\<lambda>h. pending 128 (unat s) (map occupied h)"
  obtain x where x: "uadd s (word_of_nat i) = Some x" "unat x = ?s + i"
    using uadd_of_nat [of s i] Suc.prems(2) assms(3) by auto
  have slot: "occupied (h ! cache_index x) = ?P h (?s + i)"
    using x(2) Suc.prems by (simp add: cache_index_mod pending_inside)
  show ?case
  proof (cases "h ! cache_index x = Used")
    case False
    with Suc.prems x slot show ?thesis
      by (intro exI [of _ h] exI [of _ i]) (auto simp: fun_eq_iff)
  next
    case True
    let ?h = "h[cache_index x := Invalid]"
    have upd: "?P ?h = (?P h)(?s + i := None)"
      using x(2) Suc.prems by (simp add: cache_index_mod map_update pending_update)
    obtain h' c where c: "cache_shift_loop s (Suc i) m ?h = Some (h', c)" "length h' = 128"
      "Suc i \<le> c" "c \<le> Suc i + m"
      "\<forall>j. ?s + Suc i \<le> j \<and> j < ?s + c \<longrightarrow> ?P ?h j = Some Used"
      "c < Suc i + m \<longrightarrow> ?P ?h (?s + c) \<noteq> Some Used"
      "?P h' = (\<lambda>j. if ?s + Suc i \<le> j \<and> j < ?s + c then None else ?P ?h j)"
      using Suc.IH [of ?h "Suc i"] Suc.prems by auto
    have "?P h j = Some Used" if "?s + i \<le> j" "j < ?s + c" for j
      using that c(5) [rule_format, of j] slot True by (cases "j = ?s + i") (auto simp: upd)
    moreover have "?P h' = (\<lambda>j. if ?s + i \<le> j \<and> j < ?s + c then None else ?P h j)"
      using c(3) by (auto simp: c(7) upd fun_eq_iff)
    ultimately show ?thesis
      using x(1) True c(1-4,6) by (intro exI [of _ h'] exI [of _ c]) (auto simp: upd)
  qed
qed

section \<open>Each operation on the map\<close>

lemma in_flight_advance:
  assumes "unat (start_seq c') = unat (start_seq c) + k" "k \<le> 128"
    and "pending 128 (unat (start_seq c)) (map occupied (histories c')) =
       (\<lambda>j. if unat (start_seq c) \<le> j \<and> j < unat (start_seq c) + k then None else in_flight c j)"
  shows "in_flight c' = in_flight c |` {unat (start_seq c')..}"
proof -
  let ?s = "unat (start_seq c)"
  have "pending 128 (?s + k) (map occupied (histories c')) = pending 128 ?s (map occupied (histories c'))"
    using assms(2) by (intro pending_advance) (auto simp: assms(3))
  then show ?thesis
    using assms(1)
    by (auto simp: in_flight_def [of c'] assms(3) fun_eq_iff restrict_map_def)
      (auto simp: in_flight_def pending_outside)
qed

lemma in_flight_update:
  assumes "length (histories c) = 128" "unat (start_seq c) \<le> unat seq"
    "unat seq < unat (start_seq c) + 128"
  shows "in_flight (c\<lparr>histories := (histories c)[cache_index seq := h]\<rparr>)
       = (in_flight c)(unat seq := occupied h)"
  using assms by (simp add: in_flight_def cache_index_mod map_update pending_update)

lemma cache_insert_spec:
  assumes "cache_inv next' c" "unat seq = next'" "unat (start_seq c) + 128 < 2 ^ 32"
  shows "if next' = unat (start_seq c) + 128
         then cache_insert seq fs t c = Some (Inl BufferOverflowError, c)
         else \<exists>c'. cache_insert seq fs t c = Some (Inr (), c') \<and>
           in_flight c' = (in_flight c)(next' \<mapsto> Valid fs t) \<and>
           start_seq c' = start_seq c \<and> retransmit_fragments c' = retransmit_fragments c \<and>
           cache_inv (Suc next') c'"
proof -
  obtain limit where limit: "uadd (start_seq c) (word_of_nat PACKET_HISTORY_SIZE) = Some limit"
    "unat limit = unat (start_seq c) + 128"
    using uadd_of_nat [of "start_seq c" 128] assms(3) by (auto simp: PACKET_HISTORY_SIZE_def)
  have le: "limit \<le> seq \<longleftrightarrow> next' = unat (start_seq c) + 128"
    using assms(1,2) limit(2) by (auto simp: word_le_nat_alt cache_inv_def)
  show ?thesis
  proof (cases "next' = unat (start_seq c) + 128")
    case True
    with limit le show ?thesis by (simp add: cache_insert_def)
  next
    case False
    let ?c = "c\<lparr>histories := (histories c)[cache_index seq := Valid fs t]\<rparr>"
    have seq: "unat (start_seq c) \<le> unat seq" "unat seq < unat (start_seq c) + 128"
      "length (histories c) = 128"
      using assms(1,2) False by (auto simp: cache_inv_def)
    have "in_flight c (unat seq) = None"
      using assms(1,2) by (auto simp: cache_inv_def domIff set_eq_iff)
    then have "histories c ! cache_index seq = Invalid"
      using in_flight_slot [of c seq] seq by simp
    then have "cache_insert seq fs t c = Some (Inr (), ?c)"
      using limit le False by (simp add: cache_insert_def)
    moreover have "in_flight ?c = (in_flight c)(next' \<mapsto> Valid fs t)"
      using seq assms(2) by (simp add: in_flight_update)
    ultimately show ?thesis
      using assms(1) False seq(3) by (auto simp: cache_inv_def)
  qed
qed

lemma mark_as_used_spec:
  assumes "cache_inv next' c" "unat (start_seq c) \<le> unat seq" "unat seq < unat (start_seq c) + 128"
  shows "mark_as_used seq c =
     (case in_flight c (unat seq) of
        Some (Valid fs t) \<Rightarrow> (Some (fs, t), c\<lparr>histories := (histories c)[cache_index seq := Used]\<rparr>)
      | _ \<Rightarrow> (None, c))"
  using in_flight_slot [of c seq] assms
  by (auto simp: mark_as_used_def cache_inv_def split: packet_history.splits option.splits)

lemma cache_shift_spec:
  assumes "cache_inv next' c" "unat (start_seq c) + 128 < 2 ^ 32"
  shows "\<exists>k c'. cache_shift c = Some (k, c') \<and> cache_inv next' c' \<and>
     unat (start_seq c') = unat (start_seq c) + k \<and>
     (\<forall>j. unat (start_seq c) \<le> j \<and> j < unat (start_seq c') \<longrightarrow> in_flight c j = Some Used) \<and>
     in_flight c' = in_flight c |` {unat (start_seq c')..} \<and>
     in_flight c' (unat (start_seq c')) \<noteq> Some Used \<and>
     retransmit_fragments c' = retransmit_fragments c"
proof -
  let ?s = "unat (start_seq c)"
  have len: "length (histories c) = 128" using assms(1) by (simp add: cache_inv_def)
  have eq: "pending 128 ?s (map occupied (histories c)) = in_flight c"
    by (simp add: in_flight_def)
  obtain h k where k: "cache_shift_loop (start_seq c) 0 128 (histories c) = Some (h, k)"
    "length h = 128" "k \<le> 128"
    "\<forall>j. ?s \<le> j \<and> j < ?s + k \<longrightarrow> in_flight c j = Some Used"
    "k < 128 \<longrightarrow> in_flight c (?s + k) \<noteq> Some Used"
    "pending 128 ?s (map occupied h) = (\<lambda>j. if ?s \<le> j \<and> j < ?s + k then None else in_flight c j)"
    using cache_shift_loop_spec [of "histories c" 0 128 "start_seq c"] len assms(2)
    unfolding eq by auto
  obtain st where st: "uadd (start_seq c) (word_of_nat k) = Some st" "unat st = ?s + k"
    using uadd_of_nat [of "start_seq c" k] assms(2) k(3) by auto
  define c' where "c' = c\<lparr>histories := h, start_seq := st\<rparr>"
  have c': "histories c' = h" "start_seq c' = st" "retransmit_fragments c' = retransmit_fragments c"
    by (simp_all add: c'_def)
  have map: "in_flight c' = in_flight c |` {?s + k..}"
    using in_flight_advance [of c' c k] st(2) k(3,6) by (simp add: c')
  have le: "?s + k \<le> next'"
  proof (cases "k = 0")
    case True then show ?thesis using assms(1) by (simp add: cache_inv_def)
  next
    case False
    then have "?s + (k - 1) \<in> dom (in_flight c)" using k(4) by (intro domI) auto
    then show ?thesis using assms(1) False by (auto simp: cache_inv_def)
  qed
  have "dom (in_flight c') = {?s + k..<next'}"
    using assms(1) by (auto simp: map cache_inv_def)
  then have "cache_inv next' c'"
    using k(2) le assms(1) st(2) by (auto simp: cache_inv_def c')
  moreover have "in_flight c' (?s + k) \<noteq> Some Used"
  proof (cases "k < 128")
    case True with k(5) show ?thesis by (simp add: map restrict_map_def)
  next
    case False
    then have "?s + k \<notin> dom (in_flight c)" by (auto simp: in_flight_def pending_def split: if_splits)
    then show ?thesis by (auto simp: map restrict_map_def domIff)
  qed
  moreover have "cache_shift c = Some (k, c')"
    using k(1) st(1) by (simp add: cache_shift_def PACKET_HISTORY_SIZE_def c'_def)
  ultimately show ?thesis
    using st(2) k(4) map by (intro exI [of _ k] exI [of _ c']) (simp add: c')
qed

fun fragments_of :: "packet_history \<Rightarrow> fragment list" where
  "fragments_of (Valid fs t) = fs"
| "fragments_of _ = []"

definition fragments_between :: "(nat \<rightharpoonup> packet_history) \<Rightarrow> nat \<Rightarrow> nat \<Rightarrow> fragment list" where
  "fragments_between P a b =
     concat (map (\<lambda>j. case P j of None \<Rightarrow> [] | Some h \<Rightarrow> fragments_of h) [a..<b])"

text \<open>A packet is overdue when its age has reached the timeout.\<close>

definition overdue :: "u64 \<Rightarrow> u64 \<Rightarrow> packet_history option \<Rightarrow> bool" where
  "overdue now rto slot \<longleftrightarrow>
     (case slot of
        Some (Valid fs t) \<Rightarrow> now - t \<ge> rto
      | Some Used \<Rightarrow> True
      | _ \<Rightarrow> False)"

definition sent_before :: "u64 \<Rightarrow> (nat \<rightharpoonup> packet_history) \<Rightarrow> bool" where
  "sent_before now P \<longleftrightarrow> (\<forall>j fs t. P j = Some (Valid fs t) \<longrightarrow> t \<le> now)"

lemma resend_loop_spec:
  assumes "length h = 128" "i + m \<le> 128" "unat s + 128 < 2 ^ 32"
    and "sent_before now (pending 128 (unat s) (map occupied h))"
  shows "\<exists>h' c. resend_loop s now rto i m h queue =
       Some (h', queue @ fragments_between (pending 128 (unat s) (map occupied h)) (unat s + i) (unat s + c), c) \<and>
     length h' = 128 \<and> i \<le> c \<and> c \<le> i + m \<and>
     (\<forall>j. unat s + i \<le> j \<and> j < unat s + c \<longrightarrow> overdue now rto (pending 128 (unat s) (map occupied h) j)) \<and>
     (c < i + m \<longrightarrow> \<not> overdue now rto (pending 128 (unat s) (map occupied h) (unat s + c))) \<and>
     pending 128 (unat s) (map occupied h') =
       (\<lambda>j. if unat s + i \<le> j \<and> j < unat s + c then None else pending 128 (unat s) (map occupied h) j)"
  using assms(1,2,4)
proof (induction m arbitrary: i h queue)
  case 0
  then show ?case
    by (intro exI [of _ h] exI [of _ i]) (auto simp: fun_eq_iff fragments_between_def)
next
  case (Suc m)
  let ?s = "unat s" and ?P = "\<lambda>h. pending 128 (unat s) (map occupied h)"
  obtain x where x: "uadd s (word_of_nat i) = Some x" "unat x = ?s + i"
    using uadd_of_nat [of s i] Suc.prems(2) assms(3) by auto
  have slot: "?P h (?s + i) = occupied (h ! cache_index x)"
    using x(2) Suc.prems by (simp add: cache_index_mod pending_inside)
  show ?case
  proof (cases "overdue now rto (?P h (?s + i))")
    case False
    have "resend_loop s now rto i (Suc m) h queue = Some (h, queue, i)"
      using False x(1) slot Suc.prems(3)
      by (cases "h ! cache_index x") (auto simp: overdue_def usub_def sent_before_def)
    with False Suc.prems(1) show ?thesis
      by (intro exI [of _ h] exI [of _ i]) (auto simp: fun_eq_iff fragments_between_def)
  next
    case True
    let ?h = "h[cache_index x := Invalid]"
    have upd: "?P ?h = (?P h)(?s + i := None)"
      using x(2) Suc.prems by (simp add: cache_index_mod map_update pending_update)
    let ?q = "queue @ fragments_of (h ! cache_index x)"
    have step: "resend_loop s now rto i (Suc m) h queue = resend_loop s now rto (Suc i) m ?h ?q"
      using True x(1) slot Suc.prems(3)
      by (cases "h ! cache_index x") (auto simp: overdue_def usub_def sent_before_def)
    have before: "sent_before now (?P ?h)"
      using Suc.prems(3) by (auto simp: sent_before_def upd)
    obtain h' c where c: "resend_loop s now rto (Suc i) m ?h ?q =
         Some (h', ?q @ fragments_between (?P ?h) (?s + Suc i) (?s + c), c)" "length h' = 128"
      "Suc i \<le> c" "c \<le> Suc i + m"
      "\<forall>j. ?s + Suc i \<le> j \<and> j < ?s + c \<longrightarrow> overdue now rto (?P ?h j)"
      "c < Suc i + m \<longrightarrow> \<not> overdue now rto (?P ?h (?s + c))"
      "?P h' = (\<lambda>j. if ?s + Suc i \<le> j \<and> j < ?s + c then None else ?P ?h j)"
      using Suc.IH [of ?h "Suc i" ?q] Suc.prems before by auto
    have "overdue now rto (?P h j)" if "?s + i \<le> j" "j < ?s + c" for j
      using that c(5) [rule_format, of j] True by (cases "j = ?s + i") (auto simp: upd)
    moreover have "?P h' = (\<lambda>j. if ?s + i \<le> j \<and> j < ?s + c then None else ?P h j)"
      using c(3) by (auto simp: c(7) upd fun_eq_iff)
    moreover have "fragments_between (?P h) (?s + i) (?s + c) =
        fragments_of (h ! cache_index x) @ fragments_between (?P ?h) (?s + Suc i) (?s + c)"
    proof -
      have "[?s + i..<?s + c] = (?s + i) # [?s + Suc i..<?s + c]"
        using c(3) by (simp add: upt_conv_Cons)
      moreover have "(case ?P h (?s + i) of None \<Rightarrow> [] | Some h \<Rightarrow> fragments_of h)
          = fragments_of (h ! cache_index x)"
        by (cases "h ! cache_index x") (simp_all add: slot)
      moreover have "map (\<lambda>j. case ?P ?h j of None \<Rightarrow> [] | Some h \<Rightarrow> fragments_of h) [?s + Suc i..<?s + c]
          = map (\<lambda>j. case ?P h j of None \<Rightarrow> [] | Some h \<Rightarrow> fragments_of h) [?s + Suc i..<?s + c]"
        by (intro map_cong) (auto simp: upd)
      ultimately show ?thesis
        by (simp only: fragments_between_def list.map concat.simps)
    qed
    ultimately show ?thesis
      using step c(1-4,6) by (intro exI [of _ h'] exI [of _ c]) (auto simp: upd)
  qed
qed

lemma cache_is_empty_iff:
  assumes "length (histories c) = 128"
  shows "cache_is_empty c \<longleftrightarrow>
     in_flight c (unat (start_seq c)) = None \<and> retransmit_fragments c = []"
  using in_flight_slot [of c "start_seq c"] assms by (auto simp: cache_is_empty_def)

lemma in_flight_beyond: "in_flight c (unat (start_seq c) + 128) = None"
  by (simp add: in_flight_def pending_outside)

lemma get_retransmit_fragments_spec:
  assumes "cache_inv next' c" "unat (start_seq c) + 128 < 2 ^ 32" "sent_before now (in_flight c)"
  shows "\<exists>c'. get_retransmit_fragments now rto c = Some c' \<and> cache_inv next' c' \<and>
     unat (start_seq c) \<le> unat (start_seq c') \<and>
     retransmit_fragments c' = retransmit_fragments c @
       fragments_between (in_flight c) (unat (start_seq c)) (unat (start_seq c')) \<and>
     in_flight c' = in_flight c |` {unat (start_seq c')..} \<and>
     (\<forall>j. unat (start_seq c) \<le> j \<and> j < unat (start_seq c') \<longrightarrow> overdue now rto (in_flight c j)) \<and>
     \<not> overdue now rto (in_flight c' (unat (start_seq c')))"
proof (cases "cache_is_empty c")
  let ?s = "unat (start_seq c)"
  have len: "length (histories c) = 128" using assms(1) by (simp add: cache_inv_def)
  {
    case True
    moreover from this have "in_flight c ?s = None" by (simp add: cache_is_empty_iff len)
    moreover have "in_flight c = in_flight c |` {?s..}"
      using assms(1) by (auto simp: cache_inv_def restrict_map_def fun_eq_iff domIff set_eq_iff)
    ultimately show ?thesis
      using assms(1)
      by (intro exI [of _ c])
        (auto simp: get_retransmit_fragments_def overdue_def fragments_between_def)
  next
    case False
    have eq: "pending 128 ?s (map occupied (histories c)) = in_flight c"
      by (simp add: in_flight_def)
    obtain h k where k: "resend_loop (start_seq c) now rto 0 128 (histories c) (retransmit_fragments c)
        = Some (h, retransmit_fragments c @ fragments_between (in_flight c) ?s (?s + k), k)"
      "length h = 128" "k \<le> 128"
      "\<forall>j. ?s \<le> j \<and> j < ?s + k \<longrightarrow> overdue now rto (in_flight c j)"
      "k < 128 \<longrightarrow> \<not> overdue now rto (in_flight c (?s + k))"
      "pending 128 ?s (map occupied h) = (\<lambda>j. if ?s \<le> j \<and> j < ?s + k then None else in_flight c j)"
      using resend_loop_spec [of "histories c" 0 128 "start_seq c" now rto "retransmit_fragments c"]
        len assms(2,3)
      unfolding eq by auto
    obtain st where st: "uadd (start_seq c) (word_of_nat k) = Some st" "unat st = ?s + k"
      using uadd_of_nat [of "start_seq c" k] assms(2) k(3) by auto
    define c' where "c' = c\<lparr>histories := h, start_seq := st, retransmit_fragments :=
        retransmit_fragments c @ fragments_between (in_flight c) ?s (?s + k)\<rparr>"
    have c': "histories c' = h" "start_seq c' = st" "retransmit_fragments c' =
        retransmit_fragments c @ fragments_between (in_flight c) ?s (?s + k)"
      by (simp_all add: c'_def)
    have map: "in_flight c' = in_flight c |` {?s + k..}"
      using in_flight_advance [of c' c k] st(2) k(3,6) by (simp add: c')
    have le: "?s + k \<le> next'"
    proof (cases "k = 0")
      case True then show ?thesis using assms(1) by (simp add: cache_inv_def)
    next
      case False
      then have "overdue now rto (in_flight c (?s + (k - 1)))" using k(4) by auto
      then have "?s + (k - 1) \<in> dom (in_flight c)" by (auto simp: overdue_def split: option.splits)
      then show ?thesis using assms(1) False by (auto simp: cache_inv_def)
    qed
    have "dom (in_flight c') = {?s + k..<next'}"
      using assms(1) by (auto simp: map cache_inv_def)
    then have "cache_inv next' c'"
      using k(2) le assms(1) st(2) by (auto simp: cache_inv_def c')
    moreover have "\<not> overdue now rto (in_flight c' (?s + k))"
    proof (cases "k < 128")
      case True with k(5) show ?thesis by (simp add: map restrict_map_def)
    next
      case False
      then have "k = 128" using k(3) by simp
      then show ?thesis by (simp add: map restrict_map_def in_flight_beyond overdue_def)
    qed
    moreover have "get_retransmit_fragments now rto c = Some c'"
      using k(1) st(1) False by (simp add: get_retransmit_fragments_def PACKET_HISTORY_SIZE_def c'_def)
    ultimately show ?thesis
      using st(2) k(4) map by (intro exI [of _ c']) (simp add: c')
  }
qed

lemma mark_as_used_slot:
  assumes "length (histories c) = 128" "histories c ! cache_index seq = Valid fs t"
  shows "\<exists>i. in_flight c i = Some (Valid fs t) \<and> i mod 128 = unat seq mod 128 \<and>
     in_flight (snd (mark_as_used seq c)) = (in_flight c)(i \<mapsto> Used)"
proof -
  let ?s = "unat (start_seq c)" and ?j = "unat seq mod 128"
  obtain i where i: "?s \<le> i" "i < ?s + 128" "i mod 128 = ?j"
    using slot_in_window [of ?j 128 ?s] by auto
  have "in_flight c i = Some (Valid fs t)"
    using i assms by (simp add: in_flight_def pending_inside cache_index_mod)
  moreover have "in_flight (snd (mark_as_used seq c)) = (in_flight c)(i \<mapsto> Used)"
    using assms i pending_update [of "map occupied (histories c)" 128 ?s i "Some Used"]
    by (simp add: mark_as_used_def in_flight_def cache_index_mod map_update)
  ultimately show ?thesis using i(3) by blast
qed

lemma mark_as_used_inv:
  assumes "cache_inv n c"
  shows "cache_inv n (snd (mark_as_used seq c))"
proof (cases "histories c ! cache_index seq")
  case (Valid fs t)
  moreover have len: "length (histories c) = 128" using assms by (simp add: cache_inv_def)
  ultimately obtain i where i: "in_flight c i = Some (Valid fs t)"
    "in_flight (snd (mark_as_used seq c)) = (in_flight c)(i \<mapsto> Used)"
    using mark_as_used_slot by blast
  then have "dom (in_flight (snd (mark_as_used seq c))) = dom (in_flight c)" by auto
  moreover have "start_seq (snd (mark_as_used seq c)) = start_seq c"
    "length (histories (snd (mark_as_used seq c))) = 128"
    using Valid len by (simp_all add: mark_as_used_def)
  ultimately show ?thesis using assms by (simp add: cache_inv_def)
qed (use assms in \<open>simp_all add: mark_as_used_def\<close>)

section \<open>Conservation of fragments\<close>

text \<open>The fragments the cache answers for: those of the packets in the ring and those queued.\<close>

definition slots_held :: "packet_history list \<Rightarrow> fragment multiset" where
  "slots_held h = mset (concat (map fragments_of h))"

definition held :: "retransmit_cache \<Rightarrow> fragment multiset" where
  "held c = slots_held (histories c) + mset (retransmit_fragments c)"

lemma slots_held_update:
  "i < length h \<Longrightarrow>
     slots_held (h[i := x]) + mset (fragments_of (h ! i)) = slots_held h + mset (fragments_of x)"
proof (induction h arbitrary: i)
  case (Cons a h)
  then show ?case by (cases i) (simp_all add: slots_held_def ac_simps)
qed simp

lemma cache_shift_loop_held:
  assumes "cache_shift_loop s i m h = Some (h', c)" "length h = 128"
  shows "slots_held h' = slots_held h"
  using assms
proof (induction m arbitrary: i h)
  case (Suc m)
  obtain x where x: "uadd s (word_of_nat i) = Some x"
    using Suc.prems(1) by (cases "uadd s (word_of_nat i)") auto
  show ?case
  proof (cases "h ! cache_index x = Used")
    case True
    have "slots_held (h[cache_index x := Invalid]) = slots_held h"
      using slots_held_update [of "cache_index x" h Invalid] True Suc.prems(2)
      by (simp add: cache_index_mod)
    with Suc.IH [of "Suc i" "h[cache_index x := Invalid]"] Suc.prems x True show ?thesis by simp
  next
    case False with Suc.prems x show ?thesis by simp
  qed
qed simp

lemma resend_loop_held:
  assumes "resend_loop s now rto i m h queue = Some (h', queue', c)" "length h = 128"
  shows "slots_held h' + mset queue' = slots_held h + mset queue"
  using assms
proof (induction m arbitrary: i h queue)
  case (Suc m)
  have "slots_held (h[cache_index x := Invalid]) + mset (fragments_of (h ! cache_index x))
      = slots_held h" for x
    using slots_held_update [of "cache_index x" h Invalid] Suc.prems(2)
    by (simp add: cache_index_mod)
  note upd = this
  obtain x where x: "uadd s (word_of_nat i) = Some x"
    using Suc.prems(1) by (cases "uadd s (word_of_nat i)") auto
  show ?case
  proof (cases "h ! cache_index x")
    case Invalid with Suc.prems x show ?thesis by simp
  next
    case Used
    then show ?thesis using Suc.IH Suc.prems x upd [of x] by fastforce
  next
    case (Valid fs t)
    then obtain age where age: "usub now t = Some age"
      using Suc.prems(1) x by (cases "usub now t") auto
    show ?thesis
    proof (cases "age \<ge> rto")
      case True
      then show ?thesis
        using Suc.IH [of "Suc i" "h[cache_index x := Invalid]" "queue @ fs"] Suc.prems x age Valid
          upd [of x] by (auto simp: ac_simps)
    next
      case False with Valid age x Suc.prems show ?thesis by simp
    qed
  qed
qed simp

text \<open>
  The runs of a cache: \<open>cache_run n c given released\<close> says that \<open>c\<close> is reached after \<open>n\<close> packets
  were inserted, that \<open>given\<close> are the fragments handed to the cache and \<open>released\<close> those it has
  given up, by an acknowledgement or to be sent again. The sequence numbers of acknowledgements
  are arbitrary: they come from the network.
\<close>

inductive cache_run ::
  "nat \<Rightarrow> retransmit_cache \<Rightarrow> fragment multiset \<Rightarrow> fragment multiset \<Rightarrow> bool" where
  new: "cache_run 0 cache_new {#} {#}"
| insert: "cache_run n c given released \<Longrightarrow> unat seq = n \<Longrightarrow>
     cache_insert seq fs t c = Some (Inr (), c') \<Longrightarrow>
     cache_run (Suc n) c' (given + mset fs) released"
| ack: "cache_run n c given released \<Longrightarrow> mark_as_used seq c = (Some (fs, t), c') \<Longrightarrow>
     cache_run n c' given (released + mset fs)"
| nak: "cache_run n c given released \<Longrightarrow> mark_as_used seq c = (Some (fs, t), c') \<Longrightarrow>
     cache_run n (extend_retransmit_fragments fs c') given released"
| unknown: "cache_run n c given released \<Longrightarrow> mark_as_used seq c = (None, c') \<Longrightarrow>
     cache_run n c' given released"
| shift: "cache_run n c given released \<Longrightarrow> cache_shift c = Some (k, c') \<Longrightarrow>
     cache_run n c' given released"
| retransmit: "cache_run n c given released \<Longrightarrow> sent_before now (in_flight c) \<Longrightarrow>
     get_retransmit_fragments now rto c = Some c' \<Longrightarrow> cache_run n c' given released"
| pop: "cache_run n c given released \<Longrightarrow> retransmit_fragments c = f # queue \<Longrightarrow>
     cache_run n (c\<lparr>retransmit_fragments := queue\<rparr>) given (released + {#f#})"

lemma cache_inv_queue [simp]: "cache_inv n (c\<lparr>retransmit_fragments := q\<rparr>) = cache_inv n c"
  by (simp add: cache_inv_def in_flight_def)

lemma cache_insert_held:
  assumes "cache_inv n c" "unat seq = n" "n + 128 < 2 ^ 32"
    "cache_insert seq fs t c = Some (Inr (), c')"
  shows "cache_inv (Suc n) c' \<and> held c' = held c + mset fs"
proof -
  have n: "n \<noteq> unat (start_seq c) + 128"
    using cache_insert_spec [OF assms(1,2), of fs t] assms by (auto simp: cache_inv_def)
  then have inv: "cache_inv (Suc n) c'"
    using cache_insert_spec [OF assms(1,2), of fs t] assms by (auto simp: cache_inv_def)
  have seq: "unat (start_seq c) \<le> unat seq" "unat seq < unat (start_seq c) + 128"
    "length (histories c) = 128"
    using assms(1,2) n by (auto simp: cache_inv_def)
  have "in_flight c (unat seq) = None"
    using assms(1,2) by (auto simp: cache_inv_def domIff set_eq_iff)
  then have slot: "histories c ! cache_index seq = Invalid"
    using in_flight_slot [of c seq] seq by simp
  then have "c' = c\<lparr>histories := (histories c)[cache_index seq := Valid fs t]\<rparr>"
    using assms(4) by (auto simp: cache_insert_def split: bind_splits if_splits)
  moreover have "slots_held ((histories c)[cache_index seq := Valid fs t])
      = slots_held (histories c) + mset fs"
    using slots_held_update [of "cache_index seq" "histories c" "Valid fs t"] slot seq(3)
    by (simp add: cache_index_mod)
  ultimately show ?thesis using inv by (simp add: held_def)
qed

lemma mark_as_used_held:
  assumes "cache_inv n c" "mark_as_used seq c = (r, c')"
  shows "cache_inv n c' \<and>
     held c = held c' + (case r of Some (fs, t) \<Rightarrow> mset fs | None \<Rightarrow> {#})"
proof -
  have "cache_inv n c'" using mark_as_used_inv [OF assms(1), of seq] assms(2) by simp
  moreover have "cache_index seq < length (histories c)"
    using assms(1) by (simp add: cache_inv_def cache_index_mod)
  then have "held c = held c' + (case r of Some (fs, t) \<Rightarrow> mset fs | None \<Rightarrow> {#})"
    using assms(2) slots_held_update [of "cache_index seq" "histories c" Used]
    by (auto simp: mark_as_used_def held_def split: packet_history.splits)
  ultimately show ?thesis ..
qed

lemma cache_shift_held:
  assumes "cache_inv n c" "n + 128 < 2 ^ 32" "cache_shift c = Some (k, c')"
  shows "cache_inv n c' \<and> held c' = held c"
proof -
  have "cache_inv n c'"
    using cache_shift_spec [OF assms(1)] assms by (auto simp: cache_inv_def)
  moreover have "held c' = held c"
    using assms cache_shift_loop_held
    by (auto simp: cache_shift_def held_def cache_inv_def split: bind_splits)
  ultimately show ?thesis ..
qed

lemma get_retransmit_fragments_same:
  assumes "length (histories c) = 128" "get_retransmit_fragments now rto c = Some c'"
  shows "held c' = held c"
  using assms resend_loop_held
  by (fastforce simp: get_retransmit_fragments_def held_def split: bind_splits if_splits)

lemma resend_loop_length:
  "resend_loop s now rto i m h queue = Some (h', queue', c) \<Longrightarrow> length h' = length h"
proof (induction m arbitrary: i h queue)
  case (Suc m)
  then show ?case
    by (fastforce split: bind_splits packet_history.splits if_splits)
qed simp

lemma get_retransmit_length:
  assumes "length (histories c) = 128" "get_retransmit_fragments now rto c = Some c'"
  shows "length (histories c') = 128"
  using assms resend_loop_length
  by (fastforce simp: get_retransmit_fragments_def split: bind_splits if_splits)

lemma get_retransmit_fragments_held:
  assumes "cache_inv n c" "n + 128 < 2 ^ 32" "sent_before now (in_flight c)"
    "get_retransmit_fragments now rto c = Some c'"
  shows "cache_inv n c' \<and> held c' = held c"
  using get_retransmit_fragments_spec [OF assms(1) _ assms(3), of rto] assms
    get_retransmit_fragments_same
  by (auto simp: cache_inv_def)

lemma cache_run_inv:
  assumes "cache_run n c given released" "n + 128 < 2 ^ 32"
  shows "cache_inv n c \<and> given = released + held c"
  using assms
proof (induction rule: cache_run.induct)
  case new
  show ?case by (simp add: cache_inv_new)
    (simp add: held_def cache_new_def slots_held_def)
next
  case (insert n c given released seq fs t c')
  then show ?case using cache_insert_held [of n c seq fs t c'] by (simp add: ac_simps)
next
  case (ack n c given released seq fs t c')
  then show ?case using mark_as_used_held [of n c seq "Some (fs, t)" c'] by (simp add: ac_simps)
next
  case (nak n c given released seq fs t c')
  then show ?case using mark_as_used_held [of n c seq "Some (fs, t)" c']
    by (simp add: extend_retransmit_fragments_def) (simp add: held_def ac_simps)
next
  case (unknown n c given released seq c')
  then show ?case using mark_as_used_held [of n c seq None c'] by simp
next
  case (shift n c given released k c')
  then show ?case using cache_shift_held by metis
next
  case (retransmit n c given released now rto c')
  then show ?case using get_retransmit_fragments_held by metis
next
  case (pop n c given released f queue)
  then show ?case by (simp add: held_def)
qed

section \<open>Properties\<close>

text \<open>C8: the retransmission cache loses no fragment and invents none. After any run of inserts,
  acknowledgements and negative acknowledgements (with arbitrary sequence numbers), shifts,
  timeouts and pops, every fragment handed to the cache has been acknowledged, has been taken
  out to be sent again, or is still held.\<close>
theorem cache_conserves_fragments:
  assumes "cache_run n c given released" and "n + 128 < 2 ^ 32"
  shows "given = released + held c"
  using cache_run_inv [OF assms] by blast

definition sample_fragment :: "bytes \<Rightarrow> fragment" where
  "sample_fragment bs = \<lparr>reliability = Reliable, reliable_index = Some 0, sequence_index = None,
     ordering_info = None, split_info = None, data = bs\<rparr>"

lemma sample_run: "\<exists>c. cache_run 1 c {#sample_fragment [7]#} {#sample_fragment [7]#}"
proof -
  let ?fs = "[sample_fragment [7]]"
  let ?c = "cache_new\<lparr>histories := (histories cache_new)[0 := Valid ?fs 5]\<rparr>"
  have "cache_insert 0 ?fs 5 cache_new = Some (Inr (), ?c)"
    by (simp add: cache_insert_def cache_new_def cache_index_def PACKET_HISTORY_SIZE_def uadd_def)
  then have "cache_run (Suc 0) ?c ({#} + mset ?fs) {#}"
    by (intro cache_run.insert [OF cache_run.new]) simp_all
  moreover have "mark_as_used 0 ?c = (Some (?fs, 5), ?c\<lparr>histories := (histories ?c)[0 := Used]\<rparr>)"
    by (simp add: mark_as_used_def cache_new_def cache_index_def PACKET_HISTORY_SIZE_def)
  ultimately show ?thesis
    using cache_run.ack by fastforce
qed

theorem cache_conserves_fragments_witness:
  "\<exists>c. {#sample_fragment [7]#} = {#sample_fragment [7]#} + held c"
proof -
  obtain c where "cache_run 1 c {#sample_fragment [7]#} {#sample_fragment [7]#}"
    using sample_run ..
  then show ?thesis using cache_conserves_fragments by force
qed

text \<open>C20: \<open>get_retransmit_fragments\<close> returns and appends to the queue the fragments of the longest
  run of overdue packets at the front of the ring, in the order they were sent: every packet it
  takes from flight has been acknowledged or is as old as the timeout, the packets behind them
  stay, and the oldest packet then in flight, if there is one, is younger than the timeout.\<close>
theorem retransmission_clears_overdue:
  assumes "cache_inv next' c" and "unat (start_seq c) + 128 < 2 ^ 32"
    and "sent_before now (in_flight c)"
  shows "\<exists>c'. get_retransmit_fragments now rto c = Some c' \<and>
     unat (start_seq c) \<le> unat (start_seq c') \<and>
     retransmit_fragments c' = retransmit_fragments c @
       fragments_between (in_flight c) (unat (start_seq c)) (unat (start_seq c')) \<and>
     in_flight c' = in_flight c |` {unat (start_seq c')..} \<and>
     (\<forall>j. unat (start_seq c) \<le> j \<and> j < unat (start_seq c') \<longrightarrow>
       in_flight c j = Some Used \<or>
       (\<exists>fs t. in_flight c j = Some (Valid fs t) \<and> now - t \<ge> rto)) \<and>
     \<not> overdue now rto (in_flight c' (unat (start_seq c')))"
proof -
  have late: "slot = Some Used \<or> (\<exists>fs t. slot = Some (Valid fs t) \<and> now - t \<ge> rto)"
    if "overdue now rto slot" for slot
    using that by (auto simp: overdue_def split: option.splits packet_history.splits)
  show ?thesis using get_retransmit_fragments_spec [OF assms, of rto] late by blast
qed

definition sample_cache :: retransmit_cache where
  "sample_cache =
     cache_new\<lparr>histories := (histories cache_new)[0 := Valid [sample_fragment [7]] 5]\<rparr>"

lemma sample_cache_inv: "cache_inv 1 sample_cache"
  "in_flight sample_cache = Map.empty(0 \<mapsto> Valid [sample_fragment [7]] 5)"
  "start_seq sample_cache = 0"
proof -
  have "in_flight cache_new = Map.empty"
    by (auto simp: in_flight_def cache_new_def pending_def PACKET_HISTORY_SIZE_def)
  then show map: "in_flight sample_cache = Map.empty(0 \<mapsto> Valid [sample_fragment [7]] 5)"
    using in_flight_update [of cache_new 0 "Valid [sample_fragment [7]] 5"]
    by (simp add: sample_cache_def cache_index_mod cache_new_def PACKET_HISTORY_SIZE_def)
  show start: "start_seq sample_cache = 0"
    by (simp add: sample_cache_def cache_new_def)
  show "cache_inv 1 sample_cache"
    unfolding cache_inv_def map start
    by (auto simp: sample_cache_def cache_new_def PACKET_HISTORY_SIZE_def)
qed

theorem retransmission_clears_overdue_witness:
  "\<exists>c'. get_retransmit_fragments 100 50 sample_cache = Some c' \<and>
     \<not> overdue 100 50 (in_flight c' (unat (start_seq c')))"
proof -
  have "sent_before 100 (in_flight sample_cache)"
    by (auto simp: sent_before_def sample_cache_inv(2) split: if_splits)
  moreover have "unat (start_seq sample_cache) + 128 < 2 ^ 32"
    by (simp add: sample_cache_inv(3))
  ultimately show ?thesis
    using retransmission_clears_overdue [OF sample_cache_inv(1), of 100 50] by blast
qed

text \<open>C33: an acknowledgement whose packet is no longer in flight is not ignored: it takes the
  fragments of the packet 128 numbers later, if that one is in flight, and marks it as
  acknowledged.\<close>
theorem stale_ack_takes_later_packet:
  assumes "cache_inv next' c" and "unat seq + 128 < 2 ^ 32" and "unat seq < unat (start_seq c)"
    and "in_flight c (unat seq + 128) = Some (Valid fs t)"
  shows "\<exists>c'. mark_as_used seq c = (Some (fs, t), c') \<and>
     in_flight c' = (in_flight c)(unat seq + 128 \<mapsto> Used)"
proof -
  obtain later where later: "unat (later :: u32) = unat seq + 128"
    using uadd_of_nat [of seq 128] assms(2) by auto
  have len: "length (histories c) = 128" using assms(1) by (simp add: cache_inv_def)
  have start: "unat (start_seq c) \<le> unat later" "unat later < unat (start_seq c) + 128"
    using assms(1,3,4) later by (auto simp: cache_inv_def set_eq_iff domIff)
  have slot: "cache_index seq = cache_index later"
    by (simp add: cache_index_mod later)
  have "occupied (histories c ! cache_index later) = Some (Valid fs t)"
    using in_flight_slot [OF len start] assms(4) later by simp
  then have "mark_as_used seq c =
      (Some (fs, t), c\<lparr>histories := (histories c)[cache_index later := Used]\<rparr>)"
    by (simp add: mark_as_used_def slot)
  then show ?thesis
    using in_flight_update [OF len start, of Used] later by simp
qed

definition late_cache :: retransmit_cache where
  "late_cache = \<lparr>histories = (replicate 128 Invalid)[0 := Valid [] 9], start_seq = 128,
     retransmit_fragments = []\<rparr>"

theorem stale_ack_takes_later_packet_witness:
  "\<exists>c'. mark_as_used 0 late_cache = (Some ([], 9), c') \<and>
     in_flight c' = (in_flight late_cache)(128 \<mapsto> Used)"
proof -
  have empty: "in_flight (late_cache\<lparr>histories := replicate 128 Invalid\<rparr>) = Map.empty"
    by (auto simp: in_flight_def late_cache_def pending_def)
  have map: "in_flight late_cache = Map.empty(128 \<mapsto> Valid [] 9)"
    using in_flight_update [of "late_cache\<lparr>histories := replicate 128 Invalid\<rparr>" 128 "Valid [] 9"] empty
    by (simp add: late_cache_def cache_index_mod)
  have "cache_inv 129 late_cache"
    unfolding cache_inv_def map by (auto simp: late_cache_def)
  then show ?thesis
    using stale_ack_takes_later_packet [of 129 late_cache 0 "[]" 9] map
    by (simp add: late_cache_def)
qed

end
