(* ===== verification/Binary_Heap.thy ===== *)
theory Binary_Heap
  imports Prelude
begin

text \<open>
  The standard library's \<open>BinaryHeap\<close> as the code uses it: a heap of \<open>Reverse<OutgoingFragment>\<close>,
  so the element of least weight is on top. The weight is the parameter \<open>key\<close>; \<open>push\<close>, \<open>peek\<close>
  and \<open>pop\<close> are the library's algorithm (\<open>sift_up\<close>, and \<open>sift_down_to_bottom\<close> followed by
  \<open>sift_up\<close>), which also fixes the order in which elements of equal weight leave. The contract
  the callers rely on is the locale \<open>priority_queue\<close>, interpreted on the heap.
\<close>

section \<open>The contract of a priority queue\<close>

locale priority_queue =
  fixes new :: 'q
    and push :: "'a \<Rightarrow> 'q \<Rightarrow> 'q"
    and peek :: "'q \<Rightarrow> 'a option"
    and pop :: "'q \<Rightarrow> ('a \<times> 'q) option"
    and invar :: "'q \<Rightarrow> bool"
    and elems :: "'q \<Rightarrow> 'a multiset"
    and key :: "'a \<Rightarrow> 'k::linorder"
  assumes invar_new: "invar new"
    and elems_new: "elems new = {#}"
    and invar_push: "invar q \<Longrightarrow> invar (push x q)"
    and elems_push: "invar q \<Longrightarrow> elems (push x q) = add_mset x (elems q)"
    and peek_None: "invar q \<Longrightarrow> peek q = None \<longleftrightarrow> elems q = {#}"
    and peek_least: "invar q \<Longrightarrow> peek q = Some x \<Longrightarrow> x \<in># elems q \<and> (\<forall>y \<in># elems q. key x \<le> key y)"
    and pop_None: "invar q \<Longrightarrow> pop q = None \<longleftrightarrow> elems q = {#}"
    and pop_Some: "invar q \<Longrightarrow> pop q = Some (x, q') \<Longrightarrow>
      peek q = Some x \<and> invar q' \<and> elems q = add_mset x (elems q')"
begin

lemma pop_peek: "invar q \<Longrightarrow> peek q = Some x \<Longrightarrow> \<exists>q'. pop q = Some (x, q')"
  using pop_Some pop_None peek_least by (cases "pop q") force+

lemma pop_least:
  assumes "invar q" "pop q = Some (x, q')"
  shows "\<forall>y \<in># elems q'. key x \<le> key y"
  using pop_Some [OF assms] peek_least [OF assms(1)] by auto

fun push_all :: "'a list \<Rightarrow> 'q \<Rightarrow> 'q" where
  "push_all [] q = q"
| "push_all (x # xs) q = push_all xs (push x q)"

lemma push_all_spec:
  "invar q \<Longrightarrow> invar (push_all xs q) \<and> elems (push_all xs q) = mset xs + elems q"
  by (induction xs arbitrary: q) (simp_all add: invar_push elems_push)

fun pop_n :: "nat \<Rightarrow> 'q \<Rightarrow> 'a list \<times> 'q" where
  "pop_n 0 q = ([], q)"
| "pop_n (Suc n) q =
     (case pop q of
        None \<Rightarrow> ([], q)
      | Some (x, q') \<Rightarrow> let (xs, q'') = pop_n n q' in (x # xs, q''))"

lemma pop_n_spec:
  assumes "invar q" "pop_n n q = (xs, q')"
  shows "invar q' \<and> elems q = mset xs + elems q' \<and> sorted (map key xs) \<and>
    (\<forall>x \<in> set xs. \<forall>y \<in># elems q'. key x \<le> key y)"
  using assms
proof (induction n arbitrary: q xs)
  case (Suc n)
  show ?case
  proof (cases "pop q")
    case None with Suc.prems show ?thesis by simp
  next
    case (Some p)
    obtain x r where p: "p = (x, r)" by (cases p)
    note pop = Some [unfolded p]
    obtain ys where ys: "pop_n n r = (ys, q')" "xs = x # ys"
      using Suc.prems(2) pop by (cases "pop_n n r") auto
    have r: "invar r" "elems q = add_mset x (elems r)"
      using pop_Some [OF Suc.prems(1) pop] by auto
    note IH = Suc.IH [OF r(1) ys(1)]
    have "key x \<le> key y" if "y \<in> set ys \<or> y \<in># elems q'" for y
      using pop_least [OF Suc.prems(1) pop] IH that by auto
    then show ?thesis using IH r by (auto simp: ys)
  qed
qed simp

lemma drain:
  assumes "invar q"
  shows "\<exists>xs q'. pop_n (size (elems q)) q = (xs, q') \<and> elems q' = {#} \<and>
    mset xs = elems q \<and> sorted (map key xs)"
proof -
  have "elems (snd (pop_n n q)) = {#} \<or> length (fst (pop_n n q)) = n" if "invar q" for n q
    using that
  proof (induction n arbitrary: q)
    case (Suc n)
    show ?case
    proof (cases "pop q")
      case None
      with Suc.prems pop_None have "elems q = {#}" by blast
      with None show ?thesis by simp
    next
      case (Some p)
      then obtain x r where p: "p = (x, r)" "invar r" using pop_Some Suc.prems by (cases p) blast
      then show ?thesis using Suc.IH [of r] Some by (auto simp: split_beta)
    qed
  qed simp
  note * = this
  obtain xs q' where q': "pop_n (size (elems q)) q = (xs, q')" by force
  have spec: "elems q = mset xs + elems q'" "sorted (map key xs)"
    using pop_n_spec [OF assms q'] by auto
  have "elems q' = {#} \<or> length xs = size (elems q)" using * [OF assms] q' by (metis fst_conv snd_conv)
  then have "elems q' = {#}"
  proof
    assume "length xs = size (elems q)"
    then have "size (elems q') = 0" using arg_cong [OF spec(1), of size] by simp
    then show ?thesis by simp
  qed
  then show ?thesis using q' spec by simp
qed

end

section \<open>The heap\<close>

definition exchange :: "'a list \<Rightarrow> nat \<Rightarrow> nat \<Rightarrow> 'a list" where
  "exchange xs p q = xs[p := xs ! q, q := xs ! p]"

function sift_up :: "('a \<Rightarrow> 'k::linorder) \<Rightarrow> nat \<Rightarrow> 'a list \<Rightarrow> 'a list" where
  "sift_up key pos xs =
     (if pos = 0 then xs
      else if key (xs ! ((pos - 1) div 2)) \<le> key (xs ! pos) then xs
      else sift_up key ((pos - 1) div 2) (exchange xs pos ((pos - 1) div 2)))"
  by auto
termination by (relation "measure (\<lambda>(_, pos, _). pos)") auto

declare sift_up.simps [simp del]

function sift_down_to_bottom :: "('a \<Rightarrow> 'k::linorder) \<Rightarrow> nat \<Rightarrow> 'a list \<Rightarrow> nat \<times> 'a list" where
  "sift_down_to_bottom key pos xs =
     (if 2 * pos + 2 < length xs then
        let child = 2 * pos + 1 + (if key (xs ! (2 * pos + 2)) \<le> key (xs ! (2 * pos + 1)) then 1 else 0)
        in sift_down_to_bottom key child (exchange xs pos child)
      else if 2 * pos + 2 = length xs then (2 * pos + 1, exchange xs pos (2 * pos + 1))
      else (pos, xs))"
  by auto
termination by (relation "measure (\<lambda>(_, pos, xs). length xs - pos)") (auto simp: exchange_def)

declare sift_down_to_bottom.simps [simp del]

definition heap_push :: "('a \<Rightarrow> 'k::linorder) \<Rightarrow> 'a \<Rightarrow> 'a list \<Rightarrow> 'a list" where
  "heap_push key x xs = sift_up key (length xs) (xs @ [x])"

definition heap_peek :: "'a list \<Rightarrow> 'a option" where
  "heap_peek xs = (case xs of [] \<Rightarrow> None | x # _ \<Rightarrow> Some x)"

definition heap_pop :: "('a \<Rightarrow> 'k::linorder) \<Rightarrow> 'a list \<Rightarrow> ('a \<times> 'a list) option" where
  "heap_pop key xs =
     (if xs = [] then None
      else if butlast xs = [] then Some (last xs, [])
      else
        let (pos, ys) = sift_down_to_bottom key 0 ((butlast xs)[0 := last xs])
        in Some (hd xs, sift_up key pos ys))"

section \<open>Correctness\<close>

definition heap :: "('a \<Rightarrow> 'k::linorder) \<Rightarrow> 'a list \<Rightarrow> bool" where
  "heap key xs \<longleftrightarrow> (\<forall>i. 0 < i \<and> i < length xs \<longrightarrow> key (xs ! ((i - 1) div 2)) \<le> key (xs ! i))"

text \<open>A heap but for the place \<open>pos\<close>, whose parent is below its children.\<close>

definition heap_but :: "('a \<Rightarrow> 'k::linorder) \<Rightarrow> nat \<Rightarrow> 'a list \<Rightarrow> bool" where
  "heap_but key pos xs \<longleftrightarrow>
     (\<forall>i. 0 < i \<and> i < length xs \<and> i \<noteq> pos \<and> (i - 1) div 2 \<noteq> pos \<longrightarrow>
        key (xs ! ((i - 1) div 2)) \<le> key (xs ! i)) \<and>
     (\<forall>i. 0 < i \<and> i < length xs \<and> (i - 1) div 2 = pos \<and> 0 < pos \<longrightarrow>
        key (xs ! ((pos - 1) div 2)) \<le> key (xs ! i))"

definition below_children :: "('a \<Rightarrow> 'k::linorder) \<Rightarrow> nat \<Rightarrow> 'a list \<Rightarrow> bool" where
  "below_children key pos xs \<longleftrightarrow>
     (\<forall>i. 0 < i \<and> i < length xs \<and> (i - 1) div 2 = pos \<longrightarrow> key (xs ! pos) \<le> key (xs ! i))"

lemma length_exchange [simp]: "length (exchange xs p q) = length xs"
  by (simp add: exchange_def)

lemma nth_exchange:
  assumes "p < length xs" and "q < length xs"
  shows "exchange xs p q ! r = (if r = p then xs ! q else if r = q then xs ! p else xs ! r)"
  using assms by (auto simp: exchange_def nth_list_update)

lemma mset_exchange [simp]:
  assumes "p < length xs" and "q < length xs"
  shows "mset (exchange xs p q) = mset xs"
  using assms by (simp add: exchange_def mset_swap)

lemma sift_up_mset: "pos < length xs \<Longrightarrow> mset (sift_up key pos xs) = mset xs"
proof (induction key pos xs rule: sift_up.induct)
  case (1 key pos xs)
  have "(pos - 1) div 2 < length xs" using "1.prems" by auto
  with 1 show ?case
    by (subst sift_up.simps) (auto simp: Let_def)
qed

lemma heap_butD:
  assumes "heap_but key pos xs"
  shows "0 < i \<Longrightarrow> i < length xs \<Longrightarrow> i \<noteq> pos \<Longrightarrow> (i - 1) div 2 \<noteq> pos \<Longrightarrow>
      key (xs ! ((i - 1) div 2)) \<le> key (xs ! i)"
    and "0 < i \<Longrightarrow> i < length xs \<Longrightarrow> (i - 1) div 2 = pos \<Longrightarrow> 0 < pos \<Longrightarrow>
      key (xs ! ((pos - 1) div 2)) \<le> key (xs ! i)"
  using assms by (auto simp: heap_but_def)

lemma sift_up_heap:
  "pos < length xs \<Longrightarrow> heap_but key pos xs \<Longrightarrow> below_children key pos xs \<Longrightarrow>
     heap key (sift_up key pos xs)"
proof (induction key pos xs rule: sift_up.induct)
  case (1 key pos xs)
  let ?p = "(pos - 1) div 2"
  consider (root) "pos = 0" | (stop) "pos \<noteq> 0" "key (xs ! ?p) \<le> key (xs ! pos)"
    | (up) "pos \<noteq> 0" "\<not> key (xs ! ?p) \<le> key (xs ! pos)" by blast
  then show ?case
  proof cases
    case root
    have "key (xs ! ((i - 1) div 2)) \<le> key (xs ! i)" if "0 < i" "i < length xs" for i
      using heap_butD(1) [OF "1.prems"(2) that] "1.prems"(3) root that
      by (cases "(i - 1) div 2 = 0") (auto simp: below_children_def)
    with root show ?thesis by (subst sift_up.simps) (simp add: heap_def)
  next
    case stop
    have "key (xs ! ((i - 1) div 2)) \<le> key (xs ! i)" if "0 < i" "i < length xs" for i
      using heap_butD(1) [OF "1.prems"(2) that] "1.prems"(3) stop that
      by (cases "i = pos"; cases "(i - 1) div 2 = pos") (auto simp: below_children_def)
    with stop show ?thesis by (subst sift_up.simps) (simp add: heap_def)
  next
    case up
    let ?ys = "exchange xs pos ?p"
    have less: "?p < pos" "?p < length xs" using up(1) "1.prems"(1) by auto
    have nth: "?ys ! k = (if k = pos then xs ! ?p else if k = ?p then xs ! pos else xs ! k)" for k
      using "1.prems"(1) less(2) by (rule nth_exchange)
    note nth = this [unfolded One_nat_def]
    have but: "heap_but key ?p ?ys"
      unfolding heap_but_def
    proof (intro conjI allI impI)
      fix i assume i: "0 < i \<and> i < length ?ys \<and> i \<noteq> ?p \<and> (i - 1) div 2 \<noteq> ?p"
      then have "i \<noteq> pos" by auto
      show "key (?ys ! ((i - 1) div 2)) \<le> key (?ys ! i)"
      proof (cases "(i - 1) div 2 = pos")
        case True
        then show ?thesis
          using heap_butD(2) [OF "1.prems"(2), of i] i \<open>i \<noteq> pos\<close> up(1) by (simp add: nth)
      next
        case False
        then show ?thesis
          using heap_butD(1) [OF "1.prems"(2), of i] i \<open>i \<noteq> pos\<close> by (simp add: nth)
      qed
    next
      fix i assume i: "0 < i \<and> i < length ?ys \<and> (i - 1) div 2 = ?p \<and> 0 < ?p"
      let ?g = "(?p - 1) div 2"
      have "(k - 1) div 2 < k" if "0 < k" for k :: nat using that by auto
      then have g: "?g < ?p" using i by blast
      have "key (xs ! ?g) \<le> key (xs ! ?p)"
        using heap_butD(1) [OF "1.prems"(2), of ?p] i less g by auto
      moreover have "key (xs ! ?p) \<le> key (xs ! i)" if "i \<noteq> pos"
        using heap_butD(1) [OF "1.prems"(2), of i] i that less by auto
      ultimately show "key (?ys ! ?g) \<le> key (?ys ! i)"
        using i g less by (auto simp: nth intro: order_trans)
    qed
    have below: "below_children key ?p ?ys"
      unfolding below_children_def
    proof (intro allI impI)
      fix i assume i: "0 < i \<and> i < length ?ys \<and> (i - 1) div 2 = ?p"
      have "key (xs ! ?p) \<le> key (xs ! i)" if "i \<noteq> pos"
        using heap_butD(1) [OF "1.prems"(2), of i] i that less by auto
      then show "key (?ys ! ?p) \<le> key (?ys ! i)"
        using up(2) i less by (auto simp: nth)
    qed
    have "heap key (sift_up key ?p ?ys)"
      using "1.IH" [OF up] less(2) but below by simp
    with up show ?thesis by (subst sift_up.simps) simp
  qed
qed

lemma children_cases:
  fixes i pos :: nat
  assumes "0 < i" "(i - 1) div 2 = pos"
  shows "i = 2 * pos + 1 \<or> i = 2 * pos + 2"
  using assms by presburger

lemma heap_but_exchange_child:
  assumes "heap_but key pos xs" "child < length xs" "(child - 1) div 2 = pos" "0 < child"
    and least: "\<And>i. 0 < i \<Longrightarrow> i < length xs \<Longrightarrow> (i - 1) div 2 = pos \<Longrightarrow> key (xs ! child) \<le> key (xs ! i)"
  shows "heap_but key child (exchange xs pos child)"
proof -
  have pc: "pos < child" "pos < length xs" using assms(2-4) by presburger+
  have nth: "exchange xs pos child ! k =
      (if k = pos then xs ! child else if k = child then xs ! pos else xs ! k)" for k
    using pc(2) assms(2) by (rule nth_exchange)
  show ?thesis
    unfolding heap_but_def
  proof (intro conjI allI impI)
    fix i assume i: "0 < i \<and> i < length (exchange xs pos child) \<and> i \<noteq> child \<and> (i - 1) div 2 \<noteq> child"
    consider "i = pos" | "(i - 1) div 2 = pos" "i \<noteq> pos" | "i \<noteq> pos" "(i - 1) div 2 \<noteq> pos" by blast
    then show "key (exchange xs pos child ! ((i - 1) div 2)) \<le> key (exchange xs pos child ! i)"
    proof cases
      case 1
      then have "(i - 1) div 2 \<noteq> pos" using i by linarith
      then show ?thesis
        using 1 i heap_butD(2) [OF assms(1), of child] assms(2-4) by (simp add: nth)
    next
      case 2
      then show ?thesis using least [of i] i by (simp add: nth)
    next
      case 3
      then show ?thesis using heap_butD(1) [OF assms(1), of i] i by (simp add: nth)
    qed
  next
    fix i assume i: "0 < i \<and> i < length (exchange xs pos child) \<and> (i - 1) div 2 = child \<and> 0 < child"
    then have "i \<noteq> pos" "i \<noteq> child" using pc by linarith+
    moreover have "child \<noteq> pos" using pc by simp
    ultimately show "key (exchange xs pos child ! ((child - 1) div 2)) \<le> key (exchange xs pos child ! i)"
      using heap_butD(1) [OF assms(1), of i] i assms(3) by (simp add: nth)
  qed
qed

lemma sift_down_to_bottom_spec:
  assumes "heap_but key pos xs" "pos < length xs" "sift_down_to_bottom key pos xs = (pos', ys)"
  shows "heap_but key pos' ys \<and> below_children key pos' ys \<and> pos' < length ys \<and> mset ys = mset xs"
  using assms
proof (induction key pos xs rule: sift_down_to_bottom.induct)
  case (1 key pos xs)
  consider (two) "2 * pos + 2 < length xs" | (one) "2 * pos + 2 = length xs"
    | (leaf) "length xs < 2 * pos + 2" by linarith
  then show ?case
  proof cases
    case two
    define child where
      "child = 2 * pos + 1 + (if key (xs ! (2 * pos + 2)) \<le> key (xs ! (2 * pos + 1)) then 1 else 0)"
    have child: "child < length xs" "(child - 1) div 2 = pos" "0 < child"
      using two by (auto simp: child_def)
    have "heap_but key child (exchange xs pos child)"
    proof (rule heap_but_exchange_child [OF "1.prems"(1) child])
      fix i assume "0 < i" "i < length xs" "(i - 1) div 2 = pos"
      then have "i = 2 * pos + 1 \<or> i = 2 * pos + 2" by (intro children_cases)
      then show "key (xs ! child) \<le> key (xs ! i)" by (auto simp: child_def)
    qed
    moreover have "sift_down_to_bottom key child (exchange xs pos child) = (pos', ys)"
      using "1.prems"(3) two sift_down_to_bottom.simps [of key pos xs]
      by (simp only: child_def [symmetric] Let_def if_True)
    ultimately show ?thesis
      using "1.IH" [OF two child_def] child(1) "1.prems"(2) by simp
  next
    case one
    then have ys: "pos' = 2 * pos + 1" "ys = exchange xs pos (2 * pos + 1)"
      using "1.prems"(3) sift_down_to_bottom.simps [of key pos xs] by auto
    have "heap_but key (2 * pos + 1) (exchange xs pos (2 * pos + 1))"
    proof (rule heap_but_exchange_child [OF "1.prems"(1)])
      fix i assume "0 < i" "i < length xs" "(i - 1) div 2 = pos"
      then have "i = 2 * pos + 1" using children_cases [of i pos] one by auto
      then show "key (xs ! (2 * pos + 1)) \<le> key (xs ! i)" by simp
    qed (use one in auto)
    moreover have "below_children key (2 * pos + 1) ys"
      unfolding below_children_def
    proof (intro allI impI)
      fix i assume "0 < i \<and> i < length ys \<and> (i - 1) div 2 = 2 * pos + 1"
      then have False using children_cases [of i "2 * pos + 1"] one ys(2) by auto
      then show "key (ys ! (2 * pos + 1)) \<le> key (ys ! i)" ..
    qed
    ultimately show ?thesis using one "1.prems"(2) by (simp add: ys)
  next
    case leaf
    then have ys: "pos' = pos" "ys = xs"
      using "1.prems"(3) sift_down_to_bottom.simps [of key pos xs] by auto
    have "below_children key pos xs"
      unfolding below_children_def
    proof (intro allI impI)
      fix i assume "0 < i \<and> i < length xs \<and> (i - 1) div 2 = pos"
      then have False using children_cases [of i pos] leaf by auto
      then show "key (xs ! pos) \<le> key (xs ! i)" ..
    qed
    with "1.prems" show ?thesis by (simp add: ys)
  qed
qed

lemma heap_root_least:
  assumes "heap key xs" "i < length xs"
  shows "key (xs ! 0) \<le> key (xs ! i)"
  using assms(2)
proof (induction i rule: less_induct)
  case (less i)
  show ?case
  proof (cases "i = 0")
    case False
    then have "(i - 1) div 2 < i" by auto
    then have "key (xs ! 0) \<le> key (xs ! ((i - 1) div 2))" using less by auto
    also have "\<dots> \<le> key (xs ! i)" using assms(1) False less.prems by (simp add: heap_def)
    finally show ?thesis .
  qed simp
qed

lemma heap_push_spec:
  assumes "heap key xs"
  shows "heap key (heap_push key x xs)" "mset (heap_push key x xs) = add_mset x (mset xs)"
proof -
  let ?ys = "xs @ [x]"
  have "heap_but key (length xs) ?ys"
    unfolding heap_but_def
  proof (intro conjI allI impI)
    fix i assume i: "0 < i \<and> i < length ?ys \<and> i \<noteq> length xs \<and> (i - 1) div 2 \<noteq> length xs"
    then have "i < length xs" "(i - 1) div 2 < length xs" by auto
    with i assms show "key (?ys ! ((i - 1) div 2)) \<le> key (?ys ! i)"
      by (simp add: nth_append heap_def)
  next
    fix i assume "0 < i \<and> i < length ?ys \<and> (i - 1) div 2 = length xs \<and> 0 < length xs"
    then have False by auto
    then show "key (?ys ! ((length xs - 1) div 2)) \<le> key (?ys ! i)" ..
  qed
  moreover have "below_children key (length xs) ?ys"
    unfolding below_children_def
  proof (intro allI impI)
    fix i assume "0 < i \<and> i < length ?ys \<and> (i - 1) div 2 = length xs"
    then have False by auto
    then show "key (?ys ! length xs) \<le> key (?ys ! i)" ..
  qed
  ultimately show "heap key (heap_push key x xs)"
    by (simp add: heap_push_def sift_up_heap)
  show "mset (heap_push key x xs) = add_mset x (mset xs)"
    by (simp add: heap_push_def sift_up_mset)
qed

lemma heap_pop_spec:
  assumes "heap key xs" "heap_pop key xs = Some (x, ys)"
  shows "heap_peek xs = Some x \<and> heap key ys \<and> mset xs = add_mset x (mset ys)"
proof (cases xs rule: rev_cases)
  case Nil with assms show ?thesis by (simp add: heap_pop_def)
next
  case (snoc bs l)
  show ?thesis
  proof (cases bs)
    case Nil
    with snoc assms(2) show ?thesis by (simp add: heap_pop_def heap_peek_def heap_def)
  next
    case (Cons b cs)
    let ?bs = "bs[0 := l]"
    obtain pos zs where zs: "sift_down_to_bottom key 0 ?bs = (pos, zs)" by force
    have xs: "x = b" "ys = sift_up key pos zs"
      using assms(2) zs snoc Cons by (simp_all add: heap_pop_def)
    have "heap_but key 0 ?bs"
      unfolding heap_but_def
    proof (intro conjI allI impI)
      fix i assume i: "0 < i \<and> i < length ?bs \<and> i \<noteq> 0 \<and> (i - 1) div 2 \<noteq> 0"
      then have "i < length bs" "(i - 1) div 2 < length bs" "0 < i" "(i - 1) div 2 \<noteq> 0" by auto
      moreover have "key (xs ! ((i - 1) div 2)) \<le> key (xs ! i)"
        using assms(1) i snoc by (simp add: heap_def)
      ultimately show "key (?bs ! ((i - 1) div 2)) \<le> key (?bs ! i)"
        by (simp add: snoc nth_append)
    qed auto
    then have "heap_but key pos zs \<and> below_children key pos zs \<and> pos < length zs \<and> mset zs = mset ?bs"
      using zs Cons by (intro sift_down_to_bottom_spec) auto
    then show ?thesis
      using Cons snoc by (simp add: xs sift_up_heap sift_up_mset heap_peek_def)
  qed
qed

interpretation heap: priority_queue "[]" "heap_push key" heap_peek "heap_pop key" "heap key" mset key
  for key :: "'a \<Rightarrow> 'k::linorder"
proof unfold_locales
  show "heap key []" by (simp add: heap_def)
next
  fix q :: "'a list" and x
  assume q: "heap key q"
  show "heap key (heap_push key x q)" "mset (heap_push key x q) = add_mset x (mset q)"
    by (rule heap_push_spec [OF q])+
  show "heap_peek q = None \<longleftrightarrow> mset q = {#}" by (cases q) (auto simp: heap_peek_def)
  show "heap_pop key q = None \<longleftrightarrow> mset q = {#}"
    by (auto simp: heap_pop_def split_beta)
  show "x \<in># mset q \<and> (\<forall>y \<in># mset q. key x \<le> key y)" if "heap_peek q = Some x"
    using that heap_root_least [OF q]
    by (cases q) (force simp: heap_peek_def in_set_conv_nth)+
  show "heap_peek q = Some x \<and> heap key q' \<and> mset q = add_mset x (mset q')"
    if "heap_pop key q = Some (x, q')" for q'
    using heap_pop_spec [OF q that] .
qed simp

end
