(* ===== verification/Congestion.thy ===== *)
theory Congestion
  imports Prelude
begin

text \<open>
  The interface of a congestion controller, \<open>reliability/congestion_controller/mod.rs\<close>. The
  trait's methods are the fields of a record, the dictionary a generic \<open>Layer<T>\<close> receives; a
  method that may panic returns an option. What the layer relies on is the locale
  \<open>controller_laws\<close>: sequence numbers are handed out consecutively from 0. The events of a
  controller's life, as the layer calls it, are \<open>cc_event\<close>; the locale \<open>controller_invariant\<close>
  carries an invariant of a controller through every run of events.
\<close>

record 'c congestion_controller =
  cc_new :: "usize \<Rightarrow> 'c"
  should_send_ack :: "u64 \<Rightarrow> u64 \<Rightarrow> 'c \<Rightarrow> bool option"
  is_in_slow_start :: "'c \<Rightarrow> bool"
  get_seq_and_increment :: "'c \<Rightarrow> (u32 \<times> 'c) option"
  get_transmission_bandwidth :: "u64 \<Rightarrow> u64 \<Rightarrow> bool \<Rightarrow> 'c \<Rightarrow> (usize \<times> 'c) option"
  get_rto :: "'c \<Rightarrow> u64 option"
  on_resend :: "u64 \<Rightarrow> 'c \<Rightarrow> 'c"
  on_recv_ack :: "u64 \<Rightarrow> u64 \<Rightarrow> f32_bits option \<Rightarrow> usize \<Rightarrow> u32 \<Rightarrow> bool \<Rightarrow> 'c \<Rightarrow> 'c option"
  on_recv_nak :: "'c \<Rightarrow> 'c"
  on_recv_packet :: "u64 \<Rightarrow> usize \<Rightarrow> bool \<Rightarrow> 'c \<Rightarrow> 'c"
  on_send_ack :: "bool \<Rightarrow> f32_bits option \<Rightarrow> 'c \<Rightarrow> (f32_bits option \<times> 'c) option"
  on_send_packet :: "usize \<Rightarrow> 'c \<Rightarrow> 'c option"

locale controller_laws =
  fixes cc :: "'c congestion_controller"
    and next_number :: "'c \<Rightarrow> nat"
  assumes new_number: "next_number (cc_new cc mtu) = 0"
    and get_seq: "get_seq_and_increment cc c = Some (seq, c') \<Longrightarrow>
      unat seq = next_number c \<and> next_number c' = Suc (next_number c)"
    and get_seq_returns: "Suc (next_number c) < 2 ^ 32 \<Longrightarrow> get_seq_and_increment cc c \<noteq> None"
    and bandwidth_number: "get_transmission_bandwidth cc now since cont c = Some (b, c') \<Longrightarrow>
      next_number c' = next_number c"
    and resend_number: "next_number (on_resend cc now c) = next_number c"
    and recv_ack_number: "on_recv_ack cc now rtt rate acked seq cont c = Some c' \<Longrightarrow>
      next_number c' = next_number c"
    and recv_nak_number: "next_number (on_recv_nak cc c) = next_number c"
    and recv_packet_number: "next_number (on_recv_packet cc now sz cont c) = next_number c"
    and send_ack_number: "on_send_ack cc needs rate c = Some (rate', c') \<Longrightarrow>
      next_number c' = next_number c"
    and send_packet_number: "on_send_packet cc sz c = Some c' \<Longrightarrow> next_number c' = next_number c"
begin

lemmas numbers_kept =
  bandwidth_number resend_number recv_ack_number recv_nak_number recv_packet_number
  send_ack_number send_packet_number

end

section \<open>Runs of a controller\<close>

datatype cc_event =
    NextNumber
  | Bandwidth u64 u64 bool
  | Resend u64
  | RecvAck u64 u64 "f32_bits option" usize u32 bool
  | RecvNak
  | RecvPacket u64 usize bool
  | SendAck bool "f32_bits option"
  | SendPacket usize

fun cc_step :: "'c congestion_controller \<Rightarrow> cc_event \<Rightarrow> 'c \<Rightarrow> 'c option" where
  "cc_step cc NextNumber c = map_option snd (get_seq_and_increment cc c)"
| "cc_step cc (Bandwidth now since cont) c =
     map_option snd (get_transmission_bandwidth cc now since cont c)"
| "cc_step cc (Resend now) c = Some (on_resend cc now c)"
| "cc_step cc (RecvAck now rtt rate acked seq cont) c =
     on_recv_ack cc now rtt rate acked seq cont c"
| "cc_step cc RecvNak c = Some (on_recv_nak cc c)"
| "cc_step cc (RecvPacket now sz cont) c = Some (on_recv_packet cc now sz cont c)"
| "cc_step cc (SendAck needs rate) c = map_option snd (on_send_ack cc needs rate c)"
| "cc_step cc (SendPacket sz) c = on_send_packet cc sz c"

fun cc_run :: "'c congestion_controller \<Rightarrow> cc_event list \<Rightarrow> 'c \<Rightarrow> 'c option" where
  "cc_run cc [] c = Some c"
| "cc_run cc (e # es) c =
     do {
       c \<leftarrow> cc_step cc e c;
       cc_run cc es c
     }"

locale controller_invariant =
  fixes cc :: "'c congestion_controller" and inv :: "'c \<Rightarrow> bool" and mtu_ok :: "usize \<Rightarrow> bool"
  assumes inv_new: "mtu_ok mtu \<Longrightarrow> inv (cc_new cc mtu)"
    and inv_step: "inv c \<Longrightarrow> cc_step cc e c = Some c' \<Longrightarrow> inv c'"
begin

lemma inv_run: "cc_run cc es c = Some c' \<Longrightarrow> inv c \<Longrightarrow> inv c'"
proof (induction es arbitrary: c)
  case (Cons e es)
  then show ?case by (auto split: bind_splits dest: inv_step)
qed simp

theorem reachable_inv: "cc_run cc es (cc_new cc mtu) = Some c \<Longrightarrow> mtu_ok mtu \<Longrightarrow> inv c"
  using inv_run inv_new by blast

end

end
