(* ===== verification/Layer.thy ===== *)
theory Layer
  imports Codec Window Retransmit_Cache Binary_Heap Congestion
begin

text \<open>
  The reliability layer of one connection, \<open>reliability/layer.rs\<close>: its state, \<open>new\<close>, the sending
  side (\<open>send\<close>, splitting, the weights of the outgoing queue) and the receiving side
  (datagrams, acknowledgements, fragments, reassembly, ordering channels).
\<close>

section \<open>State\<close>

definition SEQ_WINDOW_SIZE :: usize where "SEQ_WINDOW_SIZE = 128"
definition RELIABLE_WINDOW_SIZE :: usize where "RELIABLE_WINDOW_SIZE = 512"
definition ORDERING_CHANNEL_SIZE :: usize where "ORDERING_CHANNEL_SIZE = 32"

record outgoing_fragment =
  weight :: usize
  send_priority :: priority
  outgoing :: fragment

record 'c layer =
  max_size_of_packet :: usize
  bandwidth_exceeded :: bool
  needs_arrival_rate :: bool
  is_dead :: bool
  timeout :: u64
  last_update :: u64
  time_last_datagram_recved :: u64
  total_bytes_acked :: usize
  acks :: "u32 list"
  naks :: "u32 list"
  outgoing_queue :: "outgoing_fragment list" \<comment> \<open>a \<open>BinaryHeap\<close>: the array of the heap\<close>
  outgoing_next_weight :: "usize list"
  output_queue :: "bytes list"
  retransmit_cache :: retransmit_cache
  seq_window :: "u64 window"
  reliable_window :: "unit window"
  split_fragments :: "u16 \<rightharpoonup> bytes option list"
  ordered_fragments :: "bytes option list list"
  send_split_id :: u16
  send_reliable_index :: u32
  send_sequence_index :: u32
  send_ordering_index :: "u32 list"
  recv_sequence_index :: "u32 list"
  recv_ordering_index :: "u32 list"
  controller :: 'c

definition layer_new :: "'c congestion_controller \<Rightarrow> u64 \<Rightarrow> usize \<Rightarrow> 'c layer option" where
  "layer_new cc now mtu_size =
     do {
       a \<leftarrow> size_sub mtu_size IP_UDP_HEADER_SIZE;
       b \<leftarrow> size_sub a HEADER_SIZE;
       max_size \<leftarrow> size_sub b PACKET_HEADER_SIZE;
       Some \<lparr>
         max_size_of_packet = max_size,
         bandwidth_exceeded = False,
         needs_arrival_rate = False,
         is_dead = False,
         timeout = DEFAULT_TIMEOUT,
         last_update = now,
         time_last_datagram_recved = now,
         total_bytes_acked = 0,
         acks = [],
         naks = [],
         outgoing_queue = [],
         outgoing_next_weight = replicate PRIORITY_COUNT 0,
         output_queue = [],
         retransmit_cache = cache_new,
         seq_window = window_new SEQ_WINDOW_SIZE,
         reliable_window = window_new RELIABLE_WINDOW_SIZE,
         split_fragments = Map.empty,
         ordered_fragments = replicate ORDERING_CHANNEL_SIZE [],
         send_split_id = 0,
         send_reliable_index = 0,
         send_sequence_index = 0,
         send_ordering_index = replicate ORDERING_CHANNEL_SIZE 0,
         recv_sequence_index = replicate ORDERING_CHANNEL_SIZE 0,
         recv_ordering_index = replicate ORDERING_CHANNEL_SIZE 0,
         controller = cc_new cc (mtu_size - IP_UDP_HEADER_SIZE)\<rparr>
     }"

definition set_timeout :: "u64 \<Rightarrow> 'c layer \<Rightarrow> 'c layer" where
  "set_timeout t l = l\<lparr>timeout := t\<rparr>"

definition is_retransmit_cache_empty :: "'c layer \<Rightarrow> bool" where
  "is_retransmit_cache_empty l = cache_is_empty (retransmit_cache l)"

definition recv :: "'c layer \<Rightarrow> bytes list \<times> 'c layer" where
  "recv l = (output_queue l, l\<lparr>output_queue := []\<rparr>)"

section \<open>Sending\<close>

definition priority_factor :: "usize \<Rightarrow> usize" where
  "priority_factor p = 2 ^ p * p + p"

definition init_next_weight :: "'c layer \<Rightarrow> 'c layer" where
  "init_next_weight l = l\<lparr>outgoing_next_weight := map (\<lambda>i. 2 ^ i * i + i) [0..<PRIORITY_COUNT]\<rparr>"

definition get_next_weight :: "priority \<Rightarrow> 'c layer \<Rightarrow> (usize \<times> 'c layer) option" where
  "get_next_weight p l =
     (let p_idx = priority_index p in
      case heap_peek (outgoing_queue l) of
        None \<Rightarrow>
          let l = init_next_weight l in Some (outgoing_next_weight l ! p_idx, l)
      | Some peek \<Rightarrow>
          do {
            let current_weight = outgoing_next_weight l ! p_idx;
            min_weight \<leftarrow> size_sub (weight peek) (priority_factor (priority_index (send_priority peek)));
            let next_weight =
              (if current_weight < min_weight then min_weight + priority_factor p_idx
               else current_weight);
            Some (next_weight,
              l\<lparr>outgoing_next_weight := (outgoing_next_weight l)
                  [p_idx := next_weight + priority_factor (p_idx + 1)]\<rparr>)
          })"

definition push_outgoing :: "priority \<Rightarrow> fragment \<Rightarrow> 'c layer \<Rightarrow> 'c layer option" where
  "push_outgoing p f l =
     do {
       (w, l) \<leftarrow> get_next_weight p l;
       Some (l\<lparr>outgoing_queue :=
         heap_push weight \<lparr>weight = w, send_priority = p, outgoing = f\<rparr> (outgoing_queue l)\<rparr>)
     }"

text \<open>The pieces of a split message, \<open>i\<close> of them done and \<open>k\<close> to go, from the rest of its data.\<close>

fun split_loop ::
  "priority \<Rightarrow> fragment \<Rightarrow> usize \<Rightarrow> usize \<Rightarrow> nat \<Rightarrow> nat \<Rightarrow> bytes \<Rightarrow> 'c layer \<Rightarrow> 'c layer option" where
  "split_loop p base_fragment allowed_size pieces i 0 bs l = Some l"
| "split_loop p base_fragment allowed_size pieces i (Suc k) bs l =
     do {
       let n = min (length bs) allowed_size;
       let f = base_fragment
         \<lparr>split_info := Some \<lparr>split_size = word_of_nat pieces, split_id = send_split_id l,
            split_index = word_of_nat i\<rparr>,
          data := take n bs\<rparr>;
       l \<leftarrow> push_outgoing p f l;
       split_loop p base_fragment allowed_size pieces (Suc i) k (drop n bs) l
     }"

definition split_fragment :: "priority \<Rightarrow> fragment \<Rightarrow> 'c layer \<Rightarrow> 'c layer option" where
  "split_fragment p base_fragment l =
     do {
       let bs = data base_fragment;
       let base_fragment = base_fragment\<lparr>data := []\<rparr>;
       a \<leftarrow> size_sub (max_size_of_packet l) (calc_header_size base_fragment);
       allowed_size \<leftarrow> size_sub a SPLIT_INFO_SIZE;
       n \<leftarrow> size_sub (length bs) 1;
       q \<leftarrow> size_div n allowed_size;
       let pieces = q + 1;
       l \<leftarrow> split_loop p base_fragment allowed_size pieces 0 pieces bs l;
       next_id \<leftarrow> uadd (send_split_id l) 1;
       Some (l\<lparr>send_split_id := next_id\<rparr>)
     }"

text \<open>
  The fields \<open>send\<close> gives a new fragment. The result of \<open>reliablize\<close> is dropped by the code, so
  the split branch sends the fragment with the reliability class it was given.
\<close>

definition label_fragment :: "reliability \<Rightarrow> u8 \<Rightarrow> bytes \<Rightarrow> 'c layer \<Rightarrow> (fragment \<times> 'c layer) option" where
  "label_fragment r ordering_channel bs l =
     (let f = \<lparr>reliability = r, reliable_index = None, sequence_index = None,
          ordering_info = None, split_info = None, data = bs\<rparr>;
          ch = unat ordering_channel
      in
        if is_sequenced r then
          do {
            next_seq \<leftarrow> uadd (send_sequence_index l) 1;
            index \<leftarrow> array_get (send_ordering_index l) ch;
            Some (f\<lparr>sequence_index := Some (send_sequence_index l),
                    ordering_info := Some \<lparr>ordering_index = index, channel = ordering_channel\<rparr>\<rparr>,
                  l\<lparr>send_sequence_index := next_seq\<rparr>)
          }
        else if is_ordered r then
          do {
            index \<leftarrow> array_get (send_ordering_index l) ch;
            next_index \<leftarrow> uadd index 1;
            Some (f\<lparr>ordering_info := Some \<lparr>ordering_index = index, channel = ordering_channel\<rparr>\<rparr>,
                  l\<lparr>send_sequence_index := 0,
                    send_ordering_index := (send_ordering_index l)[ch := next_index]\<rparr>)
          }
        else Some (f, l))"

definition send :: "priority \<Rightarrow> reliability \<Rightarrow> u8 \<Rightarrow> bytes \<Rightarrow> 'c layer \<Rightarrow> 'c layer option" where
  "send p r ordering_channel bs l =
     do {
       (f, l) \<leftarrow> label_fragment r ordering_channel bs l;
       if calc_full_size f > max_size_of_packet l then split_fragment p f l
       else push_outgoing p f l
     }"

section \<open>Receiving\<close>

definition build_split_fragment ::
  "fragment \<Rightarrow> 'c layer \<Rightarrow> (fragment option \<times> 'c layer) option" where
  "build_split_fragment f l =
     do {
       si \<leftarrow> split_info f;
       if split_index si \<ge> split_size si then Some (None, l)
       else
         case split_fragments l (split_id si) of
           Some fragments \<Rightarrow>
             do {
               fragments \<leftarrow> array_set fragments (unat (split_index si)) (Some (data f));
               if list_all (\<lambda>p. p \<noteq> None) fragments then
                 Some (Some (f\<lparr>data := concat (map the fragments)\<rparr>),
                       l\<lparr>split_fragments := (split_fragments l)(split_id si := None)\<rparr>)
               else
                 Some (None, l\<lparr>split_fragments := (split_fragments l)(split_id si \<mapsto> fragments)\<rparr>)
             }
         | None \<Rightarrow>
             do {
               fragments \<leftarrow> array_set (replicate (unat (split_size si)) None)
                 (unat (split_index si)) (Some (data f));
               Some (None, l\<lparr>split_fragments := (split_fragments l)(split_id si \<mapsto> fragments)\<rparr>)
             }
     }"

text \<open>
  The \<open>while let\<close> loop that releases the queue of an ordering channel: the front slot is taken
  (\<open>take()\<close> leaves \<open>None\<close> there) and popped when it held data.
\<close>

fun release_ordered ::
  "bytes option list \<Rightarrow> u32 \<Rightarrow> bytes list \<Rightarrow> (bytes option list \<times> u32 \<times> bytes list) option" where
  "release_ordered (Some bs # queue) index out =
     do {
       index \<leftarrow> uadd index 1;
       release_ordered queue index (out @ [bs])
     }"
| "release_ordered queue index out = Some (queue, index, out)"

definition enqueue_ordered :: "usize \<Rightarrow> bytes \<Rightarrow> bytes option list \<Rightarrow> bytes option list" where
  "enqueue_ordered index bs queue =
     (if length queue > index then queue[index := Some bs]
      else (queue @ replicate (index + 1 - length queue) None)[index := Some bs])"

definition handle_ordered ::
  "ordering_info \<Rightarrow> fragment \<Rightarrow> 'c layer \<Rightarrow> 'c layer option" where
  "handle_ordered oi f l =
     do {
       let ch = unat (channel oi);
       current \<leftarrow> array_get (recv_ordering_index l) ch;
       if ordering_index oi < current then Some l
       else if ordering_index oi > current then
         do {
           let index = unat (ordering_index oi - current - 1);
           queue \<leftarrow> array_get (ordered_fragments l) ch;
           Some (l\<lparr>ordered_fragments := (ordered_fragments l)
             [ch := enqueue_ordered index (data f) queue]\<rparr>)
         }
       else
         case sequence_index f of
           Some s \<Rightarrow>
             do {
               expected \<leftarrow> array_get (recv_sequence_index l) ch;
               if s \<ge> expected then
                 do {
                   next_s \<leftarrow> uadd s 1;
                   Some (l\<lparr>recv_sequence_index := (recv_sequence_index l)[ch := next_s],
                           output_queue := output_queue l @ [data f]\<rparr>)
                 }
               else Some l
             }
         | None \<Rightarrow>
             do {
               next_index \<leftarrow> uadd current 1;
               queue \<leftarrow> array_get (ordered_fragments l) ch;
               (queue, index, out) \<leftarrow>
                 release_ordered queue next_index (output_queue l @ [data f]);
               Some (l\<lparr>recv_ordering_index := (recv_ordering_index l)[ch := index],
                       recv_sequence_index := (recv_sequence_index l)[ch := 0],
                       ordered_fragments := (ordered_fragments l)[ch := queue],
                       output_queue := out\<rparr>)
             }
     }"

definition deliver :: "fragment \<Rightarrow> 'c layer \<Rightarrow> 'c layer option" where
  "deliver f l =
     (case ordering_info f of
        Some oi \<Rightarrow> handle_ordered oi f l
      | None \<Rightarrow> Some (l\<lparr>output_queue := output_queue l @ [data f]\<rparr>))"

definition handle_unique_fragment :: "fragment \<Rightarrow> 'c layer \<Rightarrow> 'c layer option" where
  "handle_unique_fragment f l =
     (if split_info f \<noteq> None then
        do {
          (built, l) \<leftarrow> build_split_fragment f l;
          case built of
            Some f \<Rightarrow> deliver f l
          | None \<Rightarrow> Some l
        }
      else deliver f l)"

definition handle_fragment :: "fragment \<Rightarrow> 'c layer \<Rightarrow> ('c layer, layer_error, unit) step" where
  "handle_fragment f l =
     (case reliable_index f of
        Some index \<Rightarrow>
          (case window_insert RELIABLE_WINDOW_SIZE index () (reliable_window l) of
             (Inl e, w) \<Rightarrow> Some (Inl (BufferOverflow e), l\<lparr>reliable_window := w\<rparr>)
           | (Inr False, w) \<Rightarrow> Some (Inr (), l\<lparr>reliable_window := w\<rparr>)
           | (Inr True, w) \<Rightarrow>
               do {
                 (count, w) \<leftarrow> window_shift RELIABLE_WINDOW_SIZE w;
                 l \<leftarrow> handle_unique_fragment f (l\<lparr>reliable_window := w\<rparr>);
                 Some (Inr (), l)
               })
      | None \<Rightarrow>
          do {
            l \<leftarrow> handle_unique_fragment f l;
            Some (Inr (), l)
          })"

fun handle_fragments :: "fragment list \<Rightarrow> 'c layer \<Rightarrow> ('c layer, layer_error, unit) step" where
  "handle_fragments [] l = Some (Inr (), l)"
| "handle_fragments (f # fs) l = and_then (handle_fragment f l) (\<lambda>_. handle_fragments fs)"

definition handle_packet ::
  "'c congestion_controller \<Rightarrow> u64 \<Rightarrow> usize \<Rightarrow> bool \<Rightarrow> bool \<Rightarrow> u32 \<Rightarrow> fragment list \<Rightarrow>
     'c layer \<Rightarrow> ('c layer, layer_error, unit) step" where
  "handle_packet cc now sz is_continuous_send needs seq fragments l =
     (case window_insert SEQ_WINDOW_SIZE seq now (seq_window l) of
        (Inl e, w) \<Rightarrow> Some (Inl (BufferOverflow e), l\<lparr>seq_window := w\<rparr>)
      | (Inr _, w) \<Rightarrow>
          do {
            (count, w) \<leftarrow> window_shift SEQ_WINDOW_SIZE w;
            l \<leftarrow>
              (if count = 0 then
                 do {
                   rto \<leftarrow> get_rto cc (controller l);
                   (missing, w) \<leftarrow> collect_missing SEQ_WINDOW_SIZE now rto w;
                   Some (l\<lparr>seq_window := w, naks := naks l @ missing\<rparr>)
                 }
               else Some (l\<lparr>seq_window := w\<rparr>));
            handle_fragments fragments
              (l\<lparr>controller := on_recv_packet cc now sz is_continuous_send (controller l),
                 needs_arrival_rate := needs,
                 acks := acks l @ [seq]\<rparr>)
          })"

fun handle_ack_loop ::
  "'c congestion_controller \<Rightarrow> u64 \<Rightarrow> f32_bits option \<Rightarrow> u32 list \<Rightarrow> 'c layer \<Rightarrow> 'c layer option" where
  "handle_ack_loop cc now arrival_rate [] l = Some l"
| "handle_ack_loop cc now arrival_rate (seq # seqs) l =
     (case mark_as_used seq (retransmit_cache l) of
        (Some (fragments, time_sent), cache) \<Rightarrow>
          do {
            rtt \<leftarrow> usub now time_sent;
            c \<leftarrow> on_recv_ack cc now rtt arrival_rate (total_bytes_acked l) seq
                  (bandwidth_exceeded l) (controller l);
            handle_ack_loop cc now arrival_rate seqs
              (l\<lparr>retransmit_cache := cache, controller := c,
                 total_bytes_acked :=
                   total_bytes_acked l + sum_list (map calc_full_size fragments)\<rparr>)
          }
      | (None, cache) \<Rightarrow>
          handle_ack_loop cc now arrival_rate seqs (l\<lparr>retransmit_cache := cache\<rparr>))"

definition shift_cache :: "'c layer \<Rightarrow> 'c layer option" where
  "shift_cache l =
     do {
       (count, cache) \<leftarrow> cache_shift (retransmit_cache l);
       Some (l\<lparr>retransmit_cache := cache\<rparr>)
     }"

definition handle_ack ::
  "'c congestion_controller \<Rightarrow> u64 \<Rightarrow> f32_bits option \<Rightarrow> u32 list \<Rightarrow> 'c layer \<Rightarrow> 'c layer option" where
  "handle_ack cc now arrival_rate seqs l =
     do {
       l \<leftarrow> handle_ack_loop cc now arrival_rate seqs l;
       shift_cache l
     }"

fun handle_nak_loop :: "'c congestion_controller \<Rightarrow> u32 list \<Rightarrow> 'c layer \<Rightarrow> 'c layer" where
  "handle_nak_loop cc [] l = l"
| "handle_nak_loop cc (seq # seqs) l =
     (case mark_as_used seq (retransmit_cache l) of
        (Some (fragments, _), cache) \<Rightarrow>
          handle_nak_loop cc seqs
            (l\<lparr>retransmit_cache := extend_retransmit_fragments fragments cache,
               controller := on_recv_nak cc (controller l)\<rparr>)
      | (None, cache) \<Rightarrow> handle_nak_loop cc seqs (l\<lparr>retransmit_cache := cache\<rparr>))"

definition handle_nak :: "'c congestion_controller \<Rightarrow> u32 list \<Rightarrow> 'c layer \<Rightarrow> 'c layer option" where
  "handle_nak cc seqs l = shift_cache (handle_nak_loop cc seqs l)"

definition handle_datagram ::
  "wire \<Rightarrow> 'c congestion_controller \<Rightarrow> u64 \<Rightarrow> bytes \<Rightarrow> 'c layer \<Rightarrow>
     ('c layer, layer_error, unit) step" where
  "handle_datagram w cc now bs l =
     (case try_get_datagram w bs of
        Inl e \<Rightarrow> Some (Inl (LayerRukBytes e), l)
      | Inr (d, _) \<Rightarrow>
          let l = l\<lparr>time_last_datagram_recved := now\<rparr> in
          (case d of
             Ack arrival_rate seqs \<Rightarrow>
               do {
                 l \<leftarrow> handle_ack cc now arrival_rate seqs l;
                 Some (Inr (), l)
               }
           | Nak seqs \<Rightarrow>
               do {
                 l \<leftarrow> handle_nak cc seqs l;
                 Some (Inr (), l)
               }
           | Packet _ is_continuous_send needs seq fragments \<Rightarrow>
               handle_packet cc now (length bs) is_continuous_send needs seq fragments l))"

end
