(* ===== verification/Layer_Update.thy ===== *)
theory Layer_Update
  imports Layer
begin

text \<open>
  The periodic \<open>update\<close> of a connection's layer, \<open>reliability/layer.rs\<close>: sending the collected
  acknowledgements, packing fragments to retransmit and queued fragments into packets within the
  bandwidth the congestion controller grants, and sending the packets. The socket is a parameter:
  \<open>send_to\<close> takes the bytes and the address and says whether the call succeeded.
\<close>

type_synonym 'net sender = "bytes \<Rightarrow> socket_addr \<Rightarrow> 'net \<Rightarrow> bool \<times> 'net"

section \<open>Sending a datagram\<close>

definition send_datagram ::
  "wire \<Rightarrow> 'net sender \<Rightarrow> socket_addr \<Rightarrow> datagram \<Rightarrow> 'c layer \<times> 'net \<Rightarrow>
     ('c layer \<times> 'net, layer_error, unit) step" where
  "send_datagram w send_to addr d s =
     do {
       reply_buf \<leftarrow> put_datagram w d;
       let (ok, net) = send_to reply_buf addr (snd s);
       Some (if ok then Inr () else Inl LayerFailedToSend, (fst s, net))
     }"

section \<open>Packing\<close>

text \<open>The code pushes to \<open>packet_sizes\<close> and \<open>packets\<close> together; the model keeps one list of pairs.\<close>

record packing =
  all_datagram_sizes :: usize
  packets :: "(usize \<times> fragment list) list"
  current_packet_size :: usize
  current_packet :: "fragment list"

definition empty_packing :: packing where
  "empty_packing =
     \<lparr>all_datagram_sizes = 0, packets = [], current_packet_size = 0, current_packet = []\<rparr>"

definition close_packet :: "packing \<Rightarrow> packing" where
  "close_packet pk =
     pk\<lparr>packets := packets pk @ [(current_packet_size pk, current_packet pk)],
        current_packet := [], current_packet_size := 0\<rparr>"

definition add_fragment :: "usize \<Rightarrow> usize \<Rightarrow> fragment \<Rightarrow> packing \<Rightarrow> packing" where
  "add_fragment max_size sz f pk =
     (let pk = (if current_packet_size pk + sz > max_size then close_packet pk else pk)
      in pk\<lparr>current_packet := current_packet pk @ [f],
            current_packet_size := current_packet_size pk + sz,
            all_datagram_sizes := all_datagram_sizes pk + sz\<rparr>)"

fun pack_retransmit ::
  "'c congestion_controller \<Rightarrow> u64 \<Rightarrow> usize \<Rightarrow> usize \<Rightarrow> fragment list \<Rightarrow> packing \<Rightarrow> 'c \<Rightarrow>
     fragment list \<times> packing \<times> 'c" where
  "pack_retransmit cc now bandwidth max_size [] pk c = ([], pk, c)"
| "pack_retransmit cc now bandwidth max_size (f # queue) pk c =
     (if all_datagram_sizes pk < bandwidth then
        if all_datagram_sizes pk + calc_full_size f > bandwidth then (f # queue, pk, c)
        else
          pack_retransmit cc now bandwidth max_size queue
            (add_fragment max_size (calc_full_size f) f pk) (on_resend cc now c)
      else (f # queue, pk, c))"

text \<open>A reliable fragment gets its number when it is packed for the first time.\<close>

definition assign_reliable_index :: "fragment \<Rightarrow> u32 \<Rightarrow> (fragment \<times> u32) option" where
  "assign_reliable_index f next_index =
     (if is_reliable (reliability f) then
        do {
          n \<leftarrow> uadd next_index 1;
          Some (f\<lparr>reliable_index := Some next_index\<rparr>, n)
        }
      else Some (f, next_index))"

lemma length_sift_up [simp]: "length (sift_up key pos xs) = length xs"
proof (induction key pos xs rule: sift_up.induct)
  case (1 key pos xs)
  then show ?case by (subst sift_up.simps) simp
qed

lemma length_sift_down_to_bottom [simp]:
  "length (snd (sift_down_to_bottom key pos xs)) = length xs"
proof (induction key pos xs rule: sift_down_to_bottom.induct)
  case (1 key pos xs)
  then show ?case by (subst sift_down_to_bottom.simps) (simp add: Let_def)
qed

lemma length_heap_pop: "heap_pop key xs = Some (x, ys) \<Longrightarrow> length ys < length xs"
  using length_sift_down_to_bottom [of key 0 "(butlast xs)[0 := last xs]"]
  by (auto simp: heap_pop_def split_beta split: if_splits)

function pack_outgoing ::
  "usize \<Rightarrow> usize \<Rightarrow> outgoing_fragment list \<Rightarrow> u32 \<Rightarrow> packing \<Rightarrow>
     (outgoing_fragment list \<times> u32 \<times> packing) option" where
  "pack_outgoing bandwidth max_size queue next_index pk =
     (if all_datagram_sizes pk < bandwidth then
        case heap_peek queue of
          None \<Rightarrow> Some (queue, next_index, pk)
        | Some peek \<Rightarrow>
            let sz = calc_full_size (outgoing peek) in
            if all_datagram_sizes pk + sz > bandwidth then Some (queue, next_index, pk)
            else
              case heap_pop weight queue of
                None \<Rightarrow> None
              | Some (top_fragment, queue) \<Rightarrow>
                  case assign_reliable_index (outgoing top_fragment) next_index of
                    None \<Rightarrow> None
                  | Some (f, next_index) \<Rightarrow>
                      pack_outgoing bandwidth max_size queue next_index
                        (add_fragment max_size sz f pk)
      else Some (queue, next_index, pk))"
  by pat_completeness auto
termination
  by (relation "measure (\<lambda>(_, _, queue, _, _). length queue)") (auto simp: length_heap_pop)

declare pack_outgoing.simps [simp del]

section \<open>Update\<close>

fun send_packets ::
  "wire \<Rightarrow> 'net sender \<Rightarrow> 'c congestion_controller \<Rightarrow> u64 \<Rightarrow> socket_addr \<Rightarrow> bool \<Rightarrow>
     (usize \<times> fragment list) list \<Rightarrow> 'c layer \<times> 'net \<Rightarrow>
     ('c layer \<times> 'net, layer_error, unit) step" where
  "send_packets w send_to cc now addr needs [] s = Some (Inr (), s)"
| "send_packets w send_to cc now addr needs ((sz, fragments) # ps) s =
     do {
       (seq, c) \<leftarrow> get_seq_and_increment cc (controller (fst s));
       c \<leftarrow> on_send_packet cc sz c;
       let l = (fst s)\<lparr>controller := c\<rparr>;
       and_then (send_datagram w send_to addr (Packet False True needs seq fragments) (l, snd s))
         (\<lambda>_ (l, net).
            do {
              (r, cache) \<leftarrow> cache_insert seq (filter (\<lambda>f. is_reliable (reliability f)) fragments)
                now (retransmit_cache l);
              let l = l\<lparr>retransmit_cache := cache\<rparr>;
              case r of
                Inl e \<Rightarrow> Some (Inl (BufferOverflow e), (l, net))
              | Inr _ \<Rightarrow> send_packets w send_to cc now addr needs ps (l, net)
            })
     }"

definition check_alive :: "u64 \<Rightarrow> 'c layer \<Rightarrow> 'c layer option" where
  "check_alive now l =
     (if cache_is_empty (retransmit_cache l) then Some l
      else do {
        silence \<leftarrow> usub now (time_last_datagram_recved l);
        Some (if silence > timeout l then l\<lparr>is_dead := True\<rparr> else l)
      })"

definition send_acks ::
  "wire \<Rightarrow> 'net sender \<Rightarrow> 'c congestion_controller \<Rightarrow> u64 \<Rightarrow> u64 \<Rightarrow> socket_addr \<Rightarrow>
     'c layer \<times> 'net \<Rightarrow> ('c layer \<times> 'net, layer_error, unit) step" where
  "send_acks w send_to cc now since addr s =
     do {
       due \<leftarrow> should_send_ack cc now since (controller (fst s));
       if due \<and> acks (fst s) \<noteq> [] then
         do {
           (arrival_rate, c) \<leftarrow> on_send_ack cc (needs_arrival_rate (fst s)) None (controller (fst s));
           send_datagram w send_to addr (Ack arrival_rate (acks (fst s)))
             ((fst s)\<lparr>controller := c, acks := []\<rparr>, snd s)
         }
       else Some (Inr (), s)
     }"

definition send_naks ::
  "wire \<Rightarrow> 'net sender \<Rightarrow> socket_addr \<Rightarrow> 'c layer \<times> 'net \<Rightarrow>
     ('c layer \<times> 'net, layer_error, unit) step" where
  "send_naks w send_to addr s =
     (if naks (fst s) \<noteq> [] then
        send_datagram w send_to addr (Nak (naks (fst s))) ((fst s)\<lparr>naks := []\<rparr>, snd s)
      else Some (Inr (), s))"

definition pack_packets ::
  "'c congestion_controller \<Rightarrow> u64 \<Rightarrow> u64 \<Rightarrow> bool \<Rightarrow> 'c layer \<Rightarrow>
     ((usize \<times> fragment list) list \<times> 'c layer) option" where
  "pack_packets cc now since is_continuous_send l =
     do {
       (bandwidth, c) \<leftarrow> get_transmission_bandwidth cc now since is_continuous_send (controller l);
       rto \<leftarrow> get_rto cc c;
       cache \<leftarrow> get_retransmit_fragments now rto (retransmit_cache l);
       let (rest, pk, c) =
         pack_retransmit cc now bandwidth (max_size_of_packet l) (retransmit_fragments cache)
           empty_packing c;
       (queue, next_index, pk) \<leftarrow>
         pack_outgoing bandwidth (max_size_of_packet l) (outgoing_queue l)
           (send_reliable_index l) pk;
       let pk = (if current_packet pk \<noteq> [] then close_packet pk else pk);
       Some (packets pk,
         l\<lparr>controller := c, retransmit_cache := cache\<lparr>retransmit_fragments := rest\<rparr>,
           outgoing_queue := queue, send_reliable_index := next_index\<rparr>)
     }"

definition send_queued ::
  "wire \<Rightarrow> 'net sender \<Rightarrow> 'c congestion_controller \<Rightarrow> u64 \<Rightarrow> u64 \<Rightarrow> socket_addr \<Rightarrow>
     'c layer \<times> 'net \<Rightarrow> ('c layer \<times> 'net, layer_error, unit) step" where
  "send_queued w send_to cc now since addr s =
     (let l = fst s;
          needs = is_in_slow_start cc (controller l);
          is_continuous_send = bandwidth_exceeded l;
          l = l\<lparr>bandwidth_exceeded := outgoing_queue l \<noteq> []\<rparr>
      in
        if \<not> cache_is_empty (retransmit_cache l) \<or> bandwidth_exceeded l then
          do {
            (ps, l) \<leftarrow> pack_packets cc now since is_continuous_send l;
            and_then (send_packets w send_to cc now addr needs ps (l, snd s))
              (\<lambda>_ (l, net).
                 Some (Inr (), (l\<lparr>bandwidth_exceeded := outgoing_queue l \<noteq> []\<rparr>, net)))
          }
        else Some (Inr (), (l, snd s)))"

definition update ::
  "wire \<Rightarrow> 'net sender \<Rightarrow> 'c congestion_controller \<Rightarrow> u64 \<Rightarrow> socket_addr \<Rightarrow>
     'c layer \<times> 'net \<Rightarrow> ('c layer \<times> 'net, layer_error, unit) step" where
  "update w send_to cc now addr s =
     do {
       since \<leftarrow> usub now (last_update (fst s));
       l \<leftarrow> check_alive now ((fst s)\<lparr>last_update := now\<rparr>);
       and_then (send_acks w send_to cc now since addr (l, snd s)) (\<lambda>_ s.
         and_then (send_naks w send_to addr s) (\<lambda>_ s.
           send_queued w send_to cc now since addr s))
     }"

end
