(* ===== verification/Float64.thy ===== *)
theory Float64
  imports Prelude "HOL-Library.Log_Nat"
begin

text \<open>
  The double-precision arithmetic the sliding window controller uses. A finite \<open>f64\<close> is the
  rational number it denotes (the sign of zero is not distinguished), and an operation computes
  the exact result and rounds it: to the nearest multiple of the unit in the last place, ties to
  even, with gradual underflow. Overflow does not occur for the values of the code, which are
  round-trip times in milliseconds.
\<close>

type_synonym f64 = rat

text \<open>The exponent \<open>e\<close> of a positive number: \<open>2 powi e \<le> x < 2 powi (e + 1)\<close>.\<close>

definition binade :: "rat \<Rightarrow> int" where
  "binade x =
     (let (p, q) = quotient_of x;
          e = int (floorlog 2 (nat p)) - int (floorlog 2 (nat q))
      in if 2 powi e \<le> x then e else e - 1)"

definition round_even :: "rat \<Rightarrow> int" where
  "round_even y =
     (let n = \<lfloor>y\<rfloor>; d = y - of_int n
      in if d < 1 / 2 then n else if d > 1 / 2 then n + 1 else if even n then n else n + 1)"

definition ulp :: "rat \<Rightarrow> rat" where
  "ulp x = 2 powi (max (binade \<bar>x\<bar>) (- 1022) - 52)"

definition rnd :: "rat \<Rightarrow> f64" where
  "rnd x = (if x = 0 then 0 else ulp x * of_int (round_even (x / ulp x)))"

definition fadd :: "f64 \<Rightarrow> f64 \<Rightarrow> f64" where "fadd a b = rnd (a + b)"
definition fsub :: "f64 \<Rightarrow> f64 \<Rightarrow> f64" where "fsub a b = rnd (a - b)"
definition fmul :: "f64 \<Rightarrow> f64 \<Rightarrow> f64" where "fmul a b = rnd (a * b)"

text \<open>\<open>as f64\<close>; \<open>f64::round\<close> (half away from zero) followed by the saturating \<open>as u64\<close>.\<close>

definition u64_to_f64 :: "u64 \<Rightarrow> f64" where
  "u64_to_f64 n = rnd (of_nat (unat n))"

definition round_to_u64 :: "f64 \<Rightarrow> u64" where
  "round_to_u64 x =
     (let r = (if 0 \<le> x then \<lfloor>x + 1 / 2\<rfloor> else - \<lfloor>1 / 2 - x\<rfloor>)
      in word_of_int (max 0 (min r (2 ^ 64 - 1))))"

section \<open>Facts\<close>

lemma binade_le:
  assumes "0 < x"
  shows "2 powi (binade x) \<le> x"
proof -
  obtain p q where pq: "quotient_of x = (p, q)" by force
  then have x: "x = of_int p / of_int q" and q: "0 < q"
    using quotient_of_div quotient_of_denom_pos by blast+
  have p: "0 < p" using assms x q by (simp add: zero_less_divide_iff)
  let ?lp = "floorlog 2 (nat p)" and ?lq = "floorlog 2 (nat q)"
  have lp: "2 ^ (?lp - 1) \<le> nat p" "0 < ?lp" and lq: "nat q < 2 ^ ?lq"
    using floorlog_bounds [of "nat p" 2] floorlog_bounds [of "nat q" 2] p q
    by (auto simp: floorlog_def)
  define e where "e = int ?lp - int ?lq"
  have b: "binade x = (if 2 powi e \<le> x then e else e - 1)"
    by (simp add: binade_def pq e_def Let_def)
  have "2 powi (e - 1) \<le> x"
  proof -
    have "(2 :: rat) powi (e - 1) = 2 ^ (?lp - 1) / 2 ^ ?lq"
      using lp(2) by (simp add: e_def power_int_diff flip: power_int_of_nat)
    also have "\<dots> \<le> of_int p / of_int q"
    proof (rule frac_le)
      have "int (2 ^ (?lp - 1)) \<le> p" using lp(1) p by linarith
      then show "(2 :: rat) ^ (?lp - 1) \<le> of_int p"
        by (metis of_int_le_iff of_int_of_nat_eq of_nat_numeral of_nat_power)
      have "q \<le> int (2 ^ ?lq)" using lq q by linarith
      then show "(of_int q :: rat) \<le> 2 ^ ?lq"
        by (metis of_int_le_iff of_int_of_nat_eq of_nat_numeral of_nat_power)
    qed (use p q in auto)
    finally show ?thesis by (simp add: x)
  qed
  then show ?thesis by (simp add: b)
qed

lemma less_binade:
  assumes "0 < x"
  shows "x < 2 powi (binade x + 1)"
proof -
  obtain p q where pq: "quotient_of x = (p, q)" by force
  then have x: "x = of_int p / of_int q" and q: "0 < q"
    using quotient_of_div quotient_of_denom_pos by blast+
  have p: "0 < p" using assms x q by (simp add: zero_less_divide_iff)
  let ?lp = "floorlog 2 (nat p)" and ?lq = "floorlog 2 (nat q)"
  have lp: "nat p < 2 ^ ?lp" and lq: "2 ^ (?lq - 1) \<le> nat q" "0 < ?lq"
    using floorlog_bounds [of "nat p" 2] floorlog_bounds [of "nat q" 2] p q
    by (auto simp: floorlog_def)
  define e where "e = int ?lp - int ?lq"
  have b: "binade x = (if 2 powi e \<le> x then e else e - 1)"
    by (simp add: binade_def pq e_def Let_def)
  have "x < 2 powi (e + 1)"
  proof -
    have "of_int p / of_int q < (2 :: rat) ^ ?lp / 2 ^ (?lq - 1)"
    proof (rule frac_less)
      have "p < int (2 ^ ?lp)" using lp p by linarith
      then show "(of_int p :: rat) < 2 ^ ?lp"
        by (metis of_int_less_iff of_int_of_nat_eq of_nat_numeral of_nat_power)
      have "int (2 ^ (?lq - 1)) \<le> q" using lq(1) q by linarith
      then show "(2 :: rat) ^ (?lq - 1) \<le> of_int q"
        by (metis of_int_le_iff of_int_of_nat_eq of_nat_numeral of_nat_power)
    qed (use p in auto)
    also have "(2 :: rat) ^ ?lp / 2 ^ (?lq - 1) = 2 powi (e + 1)"
      using lq(2) by (simp add: e_def power_int_diff power_int_add of_nat_diff flip: power_int_of_nat)
    finally show ?thesis by (simp add: x)
  qed
  then show ?thesis by (simp add: b)
qed

lemma round_even_ge: "of_int n \<le> y \<Longrightarrow> n \<le> round_even y"
proof -
  assume "of_int n \<le> y"
  then have "n \<le> \<lfloor>y\<rfloor>" by (simp add: le_floor_iff)
  then show "n \<le> round_even y" by (simp add: round_even_def Let_def)
qed

lemma ulp_pos: "0 < ulp x"
  by (simp add: ulp_def)

lemma rnd_ge:
  assumes "0 < x" "ulp x * of_int n \<le> x"
  shows "ulp x * of_int n \<le> rnd x"
proof -
  have "of_int n \<le> x / ulp x"
    using assms(2) ulp_pos [of x] by (simp add: pos_le_divide_eq mult.commute)
  then have "n \<le> round_even (x / ulp x)" by (rule round_even_ge)
  then show ?thesis using assms(1) ulp_pos [of x] by (simp add: rnd_def)
qed

lemma rnd_nonneg: "0 \<le> x \<Longrightarrow> 0 \<le> rnd x"
  using rnd_ge [of x 0] by (cases "x = 0") (simp_all add: rnd_def)

text \<open>Rounding does not take a number of the second quarter of a binade below an integer there.\<close>

lemma rnd_ge_30:
  assumes "30 \<le> x"
  shows "30 \<le> rnd x"
proof -
  have x: "0 < x" "\<bar>x\<bar> = x" using assms by simp_all
  have b: "2 powi (binade x) \<le> x" "x < 2 powi (binade x + 1)"
    using binade_le less_binade x(1) by auto
  have e: "4 \<le> binade x"
  proof (rule ccontr)
    assume "\<not> 4 \<le> binade x"
    then have "(2 :: rat) powi (binade x + 1) \<le> 2 powi 4"
      by (intro power_int_increasing) auto
    then show False using b(2) assms by simp
  qed
  have u: "ulp x = 2 powi (binade x - 52)" using e x(2) by (simp add: ulp_def max_def)
  show ?thesis
  proof (cases "binade x = 4")
    case True
    have "(2 :: rat) powi (- 48) * of_int (30 * 2 ^ 48) = 30"
      by (simp add: power_int_minus)
    with True u assms rnd_ge [OF x(1), of "30 * 2 ^ 48"] show ?thesis by simp
  next
    case False
    have "(2 :: rat) powi (binade x - 52) * of_int (2 ^ 52) = 2 powi (binade x)"
      by (simp add: power_int_diff)
    then have "2 powi (binade x) \<le> rnd x"
      using rnd_ge [OF x(1), of "2 ^ 52"] u b(1) by simp
    moreover have "(2 :: rat) powi 5 \<le> 2 powi (binade x)"
      using e False by (intro power_int_increasing) auto
    ultimately show ?thesis by simp
  qed
qed

lemma round_to_u64_ge_30: "30 \<le> x \<Longrightarrow> 30 \<le> round_to_u64 x"
proof -
  assume x: "30 \<le> x"
  let ?r = "\<lfloor>x + 1 / 2\<rfloor>"
  have "30 \<le> ?r" using x by (simp add: le_floor_iff)
  define k where "k = max 0 (min ?r (2 ^ 64 - 1))"
  have k: "30 \<le> k" "k < 2 ^ 64" using \<open>30 \<le> ?r\<close> by (auto simp: k_def)
  then have "uint (word_of_int k :: u64) = k"
    by (simp add: uint_word_of_int)
  then have "30 \<le> (word_of_int k :: u64)" using k(1) by (simp add: word_le_def)
  then show ?thesis using x by (simp add: round_to_u64_def Let_def k_def)
qed

end
