(* ===== verification/Sliding_Window.thy ===== *)
theory Sliding_Window
  imports Congestion Float64
begin

text \<open>
  The default congestion controller, \<open>congestion_controller/sliding_window.rs\<close>: its state and
  every method of the trait, the dictionary \<open>sliding_window\<close> the layer is instantiated with,
  and its properties: the retransmission timeout is between 30 and 2000 ms, no method divides by
  zero, slow start grows the window, and what the congestion avoidance branch does to it.
\<close>

section \<open>State and methods\<close>

definition SYN :: u64 where "SYN = 10"
definition MAX_RTO :: u64 where "MAX_RTO = 2000"
definition ADDITIONAL_VAR :: f64 where "ADDITIONAL_VAR = 30"
definition U_FACTOR :: f64 where "U_FACTOR = 2"
definition Q_FACTOR :: f64 where "Q_FACTOR = 4"
definition D_FACTOR :: f64 where "D_FACTOR = rnd (1 / 20)"

record sliding_window_state =
  cwnd :: usize
  ss_thresh :: usize
  mtu_size_excluding_header :: usize
  next_seq :: u32
  last_rtt :: u64
  estimated_rtt :: f64
  deviation_rtt :: f64
  oldest_unsent_ack :: u64
  next_congestion_control_block :: u32
  backoff_this_block :: bool
  speedup_this_block :: bool
  continuous_send :: bool \<comment> \<open>\<open>is_continuous_send\<close>\<close>

definition sw_new :: "usize \<Rightarrow> sliding_window_state" where
  "sw_new mtu =
     \<lparr>cwnd = mtu, ss_thresh = 0, mtu_size_excluding_header = mtu, next_seq = 0, last_rtt = 0,
      estimated_rtt = 50, deviation_rtt = 25 / 4, oldest_unsent_ack = 0,
      next_congestion_control_block = 0, backoff_this_block = False, speedup_this_block = False,
      continuous_send = False\<rparr>"

definition sw_should_send_ack :: "u64 \<Rightarrow> u64 \<Rightarrow> sliding_window_state \<Rightarrow> bool option" where
  "sw_should_send_ack now time_since_last_update s =
     do {
       age \<leftarrow> usub now (oldest_unsent_ack s);
       Some (age \<ge> SYN)
     }"

definition sw_is_in_slow_start :: "sliding_window_state \<Rightarrow> bool" where
  "sw_is_in_slow_start s \<longleftrightarrow> cwnd s \<le> ss_thresh s \<or> ss_thresh s = 0"

definition sw_get_seq_and_increment ::
  "sliding_window_state \<Rightarrow> (u32 \<times> sliding_window_state) option" where
  "sw_get_seq_and_increment s =
     do {
       n \<leftarrow> uadd (next_seq s) 1;
       Some (next_seq s, s\<lparr>next_seq := n\<rparr>)
     }"

definition sw_get_transmission_bandwidth ::
  "u64 \<Rightarrow> u64 \<Rightarrow> bool \<Rightarrow> sliding_window_state \<Rightarrow> (usize \<times> sliding_window_state) option" where
  "sw_get_transmission_bandwidth now time_since_last_update is_continuous_send s =
     Some (cwnd s, s\<lparr>continuous_send := is_continuous_send\<rparr>)"

definition sw_get_rto :: "sliding_window_state \<Rightarrow> u64" where
  "sw_get_rto s =
     min (round_to_u64
       (fadd (fadd (fmul U_FACTOR (estimated_rtt s)) (fmul Q_FACTOR (deviation_rtt s)))
         ADDITIONAL_VAR)) MAX_RTO"

definition sw_on_resend :: "u64 \<Rightarrow> sliding_window_state \<Rightarrow> sliding_window_state" where
  "sw_on_resend now s =
     (if continuous_send s \<and> \<not> backoff_this_block s \<and> cwnd s > mtu_size_excluding_header s * 2 then
        let thresh = cwnd s div 2;
            thresh = (if thresh < mtu_size_excluding_header s then mtu_size_excluding_header s
                      else thresh)
        in s\<lparr>ss_thresh := thresh, cwnd := mtu_size_excluding_header s,
             next_congestion_control_block := next_seq s, backoff_this_block := True\<rparr>
      else s)"

definition sw_update_rtt :: "u64 \<Rightarrow> sliding_window_state \<Rightarrow> sliding_window_state" where
  "sw_update_rtt rtt s =
     (let diff = fsub (u64_to_f64 rtt) (estimated_rtt s)
      in s\<lparr>last_rtt := rtt,
           estimated_rtt := max (fadd (estimated_rtt s) (fmul D_FACTOR diff)) 0,
           deviation_rtt := max (fadd (deviation_rtt s)
             (fmul D_FACTOR (fsub \<bar>diff\<bar> (deviation_rtt s)))) 0\<rparr>)"

definition sw_on_recv_ack ::
  "u64 \<Rightarrow> u64 \<Rightarrow> f32_bits option \<Rightarrow> usize \<Rightarrow> u32 \<Rightarrow> bool \<Rightarrow> sliding_window_state \<Rightarrow>
     sliding_window_state option" where
  "sw_on_recv_ack now rtt arrival_rate acked seq is_continuous_send s =
     (let s = (sw_update_rtt rtt s)\<lparr>continuous_send := is_continuous_send\<rparr>
      in
        if is_continuous_send then
          let new_period = seq > next_congestion_control_block s;
              s = (if new_period then
                     s\<lparr>backoff_this_block := False, speedup_this_block := True,
                       next_congestion_control_block := next_seq s\<rparr>
                   else s)
          in
            if sw_is_in_slow_start s then
              let window = cwnd s + mtu_size_excluding_header s in
              if window > ss_thresh s \<and> ss_thresh s \<noteq> 0 then
                do {
                  q \<leftarrow> size_div ((mtu_size_excluding_header s)\<^sup>2) window;
                  Some (s\<lparr>cwnd := ss_thresh s + q\<rparr>)
                }
              else Some (s\<lparr>cwnd := window\<rparr>)
            else if new_period then
              do {
                q \<leftarrow> size_div ((mtu_size_excluding_header s)\<^sup>2) (cwnd s);
                Some (s\<lparr>cwnd := q\<rparr>)
              }
            else Some s
        else Some s)"

definition sw_on_recv_nak :: "sliding_window_state \<Rightarrow> sliding_window_state" where
  "sw_on_recv_nak s =
     (if continuous_send s \<and> \<not> backoff_this_block s then s\<lparr>ss_thresh := cwnd s div 2\<rparr> else s)"

definition sw_on_recv_packet :: "u64 \<Rightarrow> usize \<Rightarrow> bool \<Rightarrow> sliding_window_state \<Rightarrow> sliding_window_state" where
  "sw_on_recv_packet now sz is_continuous_send s =
     (if oldest_unsent_ack s = 0 then s\<lparr>oldest_unsent_ack := now\<rparr> else s)"

definition sw_on_send_ack ::
  "bool \<Rightarrow> f32_bits option \<Rightarrow> sliding_window_state \<Rightarrow> (f32_bits option \<times> sliding_window_state) option"
where
  "sw_on_send_ack needs arrival_rate s = Some (arrival_rate, s)"

definition sw_on_send_packet :: "usize \<Rightarrow> sliding_window_state \<Rightarrow> sliding_window_state option" where
  "sw_on_send_packet sz s = Some s"

definition sliding_window :: "sliding_window_state congestion_controller" where
  "sliding_window =
     \<lparr>cc_new = sw_new,
      should_send_ack = sw_should_send_ack,
      is_in_slow_start = sw_is_in_slow_start,
      get_seq_and_increment = sw_get_seq_and_increment,
      get_transmission_bandwidth = sw_get_transmission_bandwidth,
      get_rto = (\<lambda>s. Some (sw_get_rto s)),
      on_resend = sw_on_resend,
      on_recv_ack = sw_on_recv_ack,
      on_recv_nak = sw_on_recv_nak,
      on_recv_packet = sw_on_recv_packet,
      on_send_ack = sw_on_send_ack,
      on_send_packet = sw_on_send_packet\<rparr>"

lemma sliding_window_simps [simp]:
  "cc_new sliding_window = sw_new"
  "should_send_ack sliding_window = sw_should_send_ack"
  "is_in_slow_start sliding_window = sw_is_in_slow_start"
  "get_seq_and_increment sliding_window = sw_get_seq_and_increment"
  "get_transmission_bandwidth sliding_window = sw_get_transmission_bandwidth"
  "get_rto sliding_window s = Some (sw_get_rto s)"
  "on_resend sliding_window = sw_on_resend"
  "on_recv_ack sliding_window = sw_on_recv_ack"
  "on_recv_nak sliding_window = sw_on_recv_nak"
  "on_recv_packet sliding_window = sw_on_recv_packet"
  "on_send_ack sliding_window = sw_on_send_ack"
  "on_send_packet sliding_window = sw_on_send_packet"
  by (simp_all add: sliding_window_def)

section \<open>The laws of a controller\<close>

lemma sw_on_recv_ack_next_seq:
  "sw_on_recv_ack now rtt rate acked seq cont s = Some s' \<Longrightarrow> next_seq s' = next_seq s"
  by (auto simp: sw_on_recv_ack_def sw_update_rtt_def Let_def split: if_splits bind_splits)

interpretation sliding: controller_laws sliding_window "\<lambda>s. unat (next_seq s)"
proof unfold_locales
  fix s s' :: sliding_window_state and q :: u32 and b
  show "get_seq_and_increment sliding_window s = Some (q, s') \<Longrightarrow>
      unat q = unat (next_seq s) \<and> unat (next_seq s') = Suc (unat (next_seq s))"
    by (auto simp: sw_get_seq_and_increment_def checked_arith split: bind_splits)
  show "Suc (unat (next_seq s)) < 2 ^ 32 \<Longrightarrow> get_seq_and_increment sliding_window s \<noteq> None"
    by (simp add: sw_get_seq_and_increment_def uadd_def)
qed (auto simp: sw_new_def sw_get_transmission_bandwidth_def sw_on_resend_def Let_def
    sw_on_recv_ack_next_seq sw_on_recv_nak_def sw_on_recv_packet_def sw_on_send_ack_def
    sw_on_send_packet_def)

section \<open>Properties\<close>

text \<open>The estimates are never negative, whatever round-trip times are reported.\<close>

definition sw_inv :: "sliding_window_state \<Rightarrow> bool" where
  "sw_inv s \<longleftrightarrow> 0 \<le> estimated_rtt s \<and> 0 \<le> deviation_rtt s \<and> 0 < mtu_size_excluding_header s"

lemma sw_inv_new: "0 < mtu \<Longrightarrow> sw_inv (sw_new mtu)"
  by (simp add: sw_inv_def sw_new_def)

lemma sw_update_rtt_fields [simp]:
  "0 \<le> estimated_rtt (sw_update_rtt rtt s)" "0 \<le> deviation_rtt (sw_update_rtt rtt s)"
  "cwnd (sw_update_rtt rtt s) = cwnd s" "ss_thresh (sw_update_rtt rtt s) = ss_thresh s"
  "next_seq (sw_update_rtt rtt s) = next_seq s"
  "next_congestion_control_block (sw_update_rtt rtt s) = next_congestion_control_block s"
  "mtu_size_excluding_header (sw_update_rtt rtt s) = mtu_size_excluding_header s"
  by (simp_all add: sw_update_rtt_def Let_def)

lemma sw_on_recv_ack_returns:
  assumes "sw_inv s"
  shows "\<exists>s'. sw_on_recv_ack now rtt rate acked seq cont s = Some s' \<and> sw_inv s'"
  using assms
  by (auto simp: sw_on_recv_ack_def Let_def sw_inv_def size_div_def sw_is_in_slow_start_def)

interpretation sliding_inv: controller_invariant sliding_window sw_inv "\<lambda>mtu. 0 < mtu"
proof unfold_locales
  fix e s s'
  assume inv: "sw_inv s" and step: "cc_step sliding_window e s = Some s'"
  show "sw_inv s'"
  proof (cases e)
    case (RecvAck now rtt rate acked seq cont)
    then show ?thesis
      using inv step sw_on_recv_ack_returns [of s now rtt rate acked seq cont] by auto
  qed (use inv step in \<open>auto simp: sw_inv_def sw_on_resend_def sw_on_recv_nak_def Let_def
      sw_on_recv_packet_def sw_get_transmission_bandwidth_def sw_get_seq_and_increment_def
      sw_on_send_ack_def sw_on_send_packet_def split: bind_splits\<close>)
qed (simp add: sw_inv_new)

lemma sw_rto_bounds:
  assumes "sw_inv s"
  shows "30 \<le> sw_get_rto s \<and> sw_get_rto s \<le> 2000"
proof -
  have "0 \<le> fmul U_FACTOR (estimated_rtt s)" "0 \<le> fmul Q_FACTOR (deviation_rtt s)"
    using assms by (simp_all add: sw_inv_def fmul_def rnd_nonneg U_FACTOR_def Q_FACTOR_def)
  then have "0 \<le> fadd (fmul U_FACTOR (estimated_rtt s)) (fmul Q_FACTOR (deviation_rtt s))"
    by (simp add: fadd_def rnd_nonneg)
  then have "30 \<le> fadd (fadd (fmul U_FACTOR (estimated_rtt s)) (fmul Q_FACTOR (deviation_rtt s)))
      ADDITIONAL_VAR"
    using rnd_ge_30 by (simp add: fadd_def [of _ 30] ADDITIONAL_VAR_def)
  then show ?thesis
    using round_to_u64_ge_30 by (simp add: sw_get_rto_def MAX_RTO_def)
qed

text \<open>C23: the retransmission timeout stays between 30 and 2000 milliseconds, whatever events the
  controller has seen.\<close>
theorem rto_bounds:
  assumes "cc_run sliding_window es (sw_new mtu) = Some s" and "0 < mtu"
  shows "30 \<le> sw_get_rto s \<and> sw_get_rto s \<le> 2000"
  using sw_rto_bounds sliding_inv.reachable_inv [of es mtu s] assms by simp

theorem rto_bounds_witness:
  "\<exists>s. cc_run sliding_window [RecvPacket 5 100 True, RecvNak, NextNumber] (sw_new 1464) =
       Some s \<and> 30 \<le> sw_get_rto s"
proof -
  obtain s where
    "cc_run sliding_window [RecvPacket 5 100 True, RecvNak, NextNumber] (sw_new 1464) = Some s"
    by (simp add: sw_get_seq_and_increment_def uadd_def sw_on_recv_packet_def sw_on_recv_nak_def
        sw_new_def)
  with rto_bounds [OF this] show ?thesis by simp
qed

text \<open>C24: no acknowledgement makes the controller panic: the two divisions by the window never
  divide by zero.\<close>
theorem recv_ack_never_panics:
  assumes "cc_run sliding_window es (sw_new mtu) = Some s" and "0 < mtu"
  shows "sw_on_recv_ack now rtt rate acked seq cont s \<noteq> None"
proof -
  have "sw_inv s" using sliding_inv.reachable_inv [of es mtu s] assms by simp
  then show ?thesis
    using sw_on_recv_ack_returns [of s now rtt rate acked seq cont] by auto
qed

theorem recv_ack_never_panics_witness:
  "sw_on_recv_ack 100 40 None 0 1 True (sw_new 1464) \<noteq> None"
  using recv_ack_never_panics [of "[]" 1464 "sw_new 1464"] by simp

text \<open>In congestion avoidance (above the threshold, first acknowledgement of a period) the
  window is replaced by the quotient \<open>mtu * mtu / cwnd\<close>: a window of more than one datagram
  collapses below one datagram instead of growing by a fraction of it.\<close>
theorem congestion_avoidance_collapses:
  assumes "0 < ss_thresh s" and "ss_thresh s < cwnd s"
    and "mtu_size_excluding_header s < cwnd s" and "0 < mtu_size_excluding_header s"
    and "next_congestion_control_block s < seq"
  shows "\<exists>s'. sw_on_recv_ack now rtt rate acked seq True s = Some s' \<and>
     cwnd s' < mtu_size_excluding_header s"
proof -
  let ?m = "mtu_size_excluding_header s"
  have "?m * ?m < cwnd s * ?m" using assms(3,4) by simp
  then have "?m\<^sup>2 div cwnd s < ?m"
    using assms(3) by (simp add: power2_eq_square div_less_iff_less_mult mult.commute)
  then show ?thesis
    using assms by (simp add: sw_on_recv_ack_def Let_def sw_is_in_slow_start_def size_div_def)
qed

theorem congestion_avoidance_collapses_witness:
  "\<exists>s'. sw_on_recv_ack 100 40 None 0 9 True
       ((sw_new 1464)\<lparr>cwnd := 7320, ss_thresh := 4392\<rparr>) = Some s' \<and> cwnd s' < 1464"
  using congestion_avoidance_collapses
    [of "(sw_new 1464)\<lparr>cwnd := 7320, ss_thresh := 4392\<rparr>" 9 100 40 None 0]
  by (simp add: sw_new_def)

end
