(* ===== verification/Conn.thy ===== *)
theory Conn
  imports Layer_Update Sliding_Window
begin

text \<open>
  A connection and a pending connection request, \<open>conn.rs\<close>, and the messages and commands that
  travel between the peer's task and the application, \<open>app.rs\<close> and \<open>peer.rs\<close>. A connection uses
  the sliding window controller, the default of the build.
\<close>

record req_conn =
  req_addr :: socket_addr
  next_req_time :: u64
  req_count :: usize
  max_req_count :: usize
  req_interval :: u64
  req_timeout :: "u64 option"

definition req_conn_new :: "u64 \<Rightarrow> socket_addr \<Rightarrow> u64 \<Rightarrow> usize \<Rightarrow> u64 option \<Rightarrow> req_conn" where
  "req_conn_new now a interval max_count t =
     \<lparr>req_addr = a, next_req_time = now, req_count = 0, max_req_count = max_count,
      req_interval = interval, req_timeout = t\<rparr>"

datatype connect_mode =
    UnverfiedSender
  | RequestedConnection
  | HandlingConnectionRequest
  | Connected

record conn =
  guid :: u64
  create_time :: u64
  next_ping_time :: u64
  ping :: u64
  connect_mode :: connect_mode
  conn_layer :: "sliding_window_state layer"
  last_reliable_send :: u64

definition conn_new :: "u64 \<Rightarrow> u64 \<Rightarrow> connect_mode \<Rightarrow> usize \<Rightarrow> conn option" where
  "conn_new now g mode mtu_size =
     do {
       l \<leftarrow> layer_new sliding_window now mtu_size;
       Some \<lparr>guid = g, create_time = now, next_ping_time = now, ping = 0, connect_mode = mode,
             conn_layer = l, last_reliable_send = now\<rparr>
     }"

text \<open>The constructors of \<open>RukMessageContext\<close> have a prefix here: several share their name with a
  message identifier.\<close>

datatype ruk_message_context =
    MsgUnconnectedPing
  | MsgUnconnectedPong u64 bytes
  | MsgIncompatibleProtocolVersion u8
  | MsgConnectionAttemptFailed
  | MsgAlreadyConnected
  | MsgNoFreeIncomingConnections
  | MsgConnectionBanned
  | MsgIpRecentlyConnected
  | MsgConnectionRequestAccepted
  | MsgNewIncomingConnection
  | MsgApp bytes

record ruk_message =
  msg_addr :: socket_addr
  msg_guid :: u64
  msg_context :: ruk_message_context

datatype ruk_command =
    Send socket_addr priority reliability u8 bytes
  | Close socket_addr

text \<open>\<open>send_to_conn\<close> and \<open>send_ping_to_conn\<close> of \<open>peer.rs\<close>.\<close>

definition send_to_conn ::
  "u64 \<Rightarrow> priority \<Rightarrow> reliability \<Rightarrow> u8 \<Rightarrow> bytes \<Rightarrow> conn \<Rightarrow> conn option" where
  "send_to_conn now p r ordering_channel bs c =
     (let c = (if is_reliable r then c\<lparr>last_reliable_send := now\<rparr> else c) in
      do {
        l \<leftarrow> send p r ordering_channel bs (conn_layer c);
        Some (c\<lparr>conn_layer := l\<rparr>)
      })"

definition send_ping_to_conn :: "wire \<Rightarrow> u64 \<Rightarrow> reliability \<Rightarrow> conn \<Rightarrow> conn option" where
  "send_ping_to_conn w now r c =
     send_to_conn now Immediate r 0 (online_to_u8 ConnectedPing # put_u64 w now) c"

end
