(* ===== verification/Peer.thy ===== *)
theory Peer
  imports Conn
begin

text \<open>
  The peer, \<open>peer.rs\<close>: the state its task keeps, the commands and messages it exchanges with the
  application, the handlers of online messages and of offline packets, and the update cycle.

  What is not under \<open>src/\<close> is in the record \<open>env\<close>: the layout of numbers, the socket, what the
  application takes from the message queue while the task waits for room in it, and whether
  \<open>DashMap::remove\<close> returns when the caller holds a reference into the map (its documentation
  says that it may deadlock).
\<close>

section \<open>State\<close>

definition COMMAND_QUEUE_SIZE :: usize where "COMMAND_QUEUE_SIZE = 8192"
definition MESSAGE_QUEUE_SIZE :: usize where "MESSAGE_QUEUE_SIZE = 8192"
definition PACKET_QUEUE_SIZE :: usize where "PACKET_QUEUE_SIZE = 8192"

record 'net env =
  env_wire :: wire
  env_send_to :: "'net sender"
  app_receives :: "ruk_message list \<Rightarrow> ruk_message list"
  remove_while_held :: bool
  own_guid :: u64
  max_conn_count :: usize
  env_ping_res :: bytes

record 'net peer =
  conn_count :: usize
  conns :: "socket_addr \<rightharpoonup> conn"
  req_conns :: "socket_addr \<rightharpoonup> req_conn"
  ban_list :: "socket_addr \<rightharpoonup> u64"
  packet_queue :: "(socket_addr \<times> bytes) list"
  command_queue :: "ruk_command list"
  message_queue :: "ruk_message list"
  net :: 'net

definition peer_new :: "'net \<Rightarrow> 'net peer" where
  "peer_new n =
     \<lparr>conn_count = 0, conns = Map.empty, req_conns = Map.empty, ban_list = Map.empty,
      packet_queue = [], command_queue = [], message_queue = [], net = n\<rparr>"

section \<open>Queues\<close>

text \<open>
  \<open>push_command\<close> is the retry loop of \<open>send_command_send\<close> and \<open>send_command_close\<close> when the task
  itself runs it: only the task pops commands, so a full queue is never emptied and the loop does
  not end. \<open>push_message\<close> is the loop of \<open>send_message\<close>: the application makes room.
\<close>

definition push_command :: "ruk_command \<Rightarrow> 'net peer \<Rightarrow> 'net peer option" where
  "push_command cmd p =
     (if length (command_queue p) < COMMAND_QUEUE_SIZE
      then Some (p\<lparr>command_queue := command_queue p @ [cmd]\<rparr>)
      else None)"

definition send_message ::
  "'net env \<Rightarrow> socket_addr \<Rightarrow> u64 \<Rightarrow> ruk_message_context \<Rightarrow> 'net peer \<Rightarrow> 'net peer" where
  "send_message e a g ctx p =
     (let queue = (if length (message_queue p) < MESSAGE_QUEUE_SIZE then message_queue p
                   else app_receives e (message_queue p))
      in p\<lparr>message_queue := queue @ [\<lparr>msg_addr = a, msg_guid = g, msg_context = ctx\<rparr>]\<rparr>)"

definition close_conn_internal :: "socket_addr \<Rightarrow> priority \<Rightarrow> u8 \<Rightarrow> 'net peer \<Rightarrow> 'net peer option" where
  "close_conn_internal a prio ordering_channel p =
     do {
       p \<leftarrow> push_command (Send a prio ReliableOrdered ordering_channel
              [online_to_u8 DisconnectionNotification]) p;
       push_command (Close a) p
     }"

definition ban_addr_internal :: "socket_addr \<Rightarrow> u64 \<Rightarrow> 'net peer \<Rightarrow> 'net peer" where
  "ban_addr_internal a time p = p\<lparr>ban_list := (ban_list p)(a \<mapsto> time)\<rparr>"

text \<open>The methods the application calls.\<close>

definition peer_recv :: "'net peer \<Rightarrow> ruk_message option \<times> 'net peer" where
  "peer_recv p =
     (case message_queue p of
        [] \<Rightarrow> (None, p)
      | m # ms \<Rightarrow> (Some m, p\<lparr>message_queue := ms\<rparr>))"

fun peer_recv_many :: "nat \<Rightarrow> 'net peer \<Rightarrow> ruk_message list \<times> 'net peer" where
  "peer_recv_many 0 p = ([], p)"
| "peer_recv_many (Suc n) p =
     (case peer_recv p of
        (None, p) \<Rightarrow> ([], p)
      | (Some m, p) \<Rightarrow> let (ms, p) = peer_recv_many n p in (m # ms, p))"

definition peer_connect ::
  "u64 \<Rightarrow> socket_addr option \<Rightarrow> usize \<Rightarrow> u64 \<Rightarrow> u64 option \<Rightarrow> 'net peer \<Rightarrow>
     (peer_error + unit) \<times> 'net peer" where
  "peer_connect now resolved max_count interval t p =
     (case resolved of
        None \<Rightarrow> (Inl InvalidAddress, p)
      | Some a \<Rightarrow>
          if req_conns p a \<noteq> None then (Inl AlreadyConnecting, p)
          else (Inr (),
            p\<lparr>req_conns := (req_conns p)(a \<mapsto> req_conn_new now a interval max_count t)\<rparr>))"

definition peer_ping :: "'net env \<Rightarrow> u64 \<Rightarrow> socket_addr option \<Rightarrow> 'net peer \<Rightarrow>
    (peer_error + unit) \<times> 'net peer" where
  "peer_ping e now resolved p =
     (case resolved of
        None \<Rightarrow> (Inl InvalidAddress, p)
      | Some a \<Rightarrow>
          (Inr (), p\<lparr>net := snd (env_send_to e
             ([offline_to_u8 UnconnectedPing] @ put_u64 (env_wire e) now
              @ OFFLINE_MESSAGE_DATA_ID @ put_u64 (env_wire e) (own_guid e)) a (net p))\<rparr>))"

definition peer_send ::
  "socket_addr \<Rightarrow> priority \<Rightarrow> reliability \<Rightarrow> u8 \<Rightarrow> bytes \<Rightarrow> 'net peer \<Rightarrow> 'net peer option" where
  "peer_send a prio r ordering_channel bs p = push_command (Send a prio r ordering_channel bs) p"

definition close_conn :: "socket_addr \<Rightarrow> 'net peer \<Rightarrow> 'net peer option" where
  "close_conn a p = close_conn_internal a Low 0 p"

definition ban_addr :: "socket_addr \<Rightarrow> u64 \<Rightarrow> 'net peer \<Rightarrow> 'net peer" where
  "ban_addr a time p = ban_addr_internal a time p"

definition unban_addr :: "socket_addr \<Rightarrow> 'net peer \<Rightarrow> 'net peer" where
  "unban_addr a p = p\<lparr>ban_list := (ban_list p)(a := None)\<rparr>"

text \<open>
  One datagram in the receiving task: its buffer cuts what is longer than a packet of the largest
  MTU, what is too short is dropped, and the rest waits for room in the queue (\<open>None\<close>: the task
  waits until the update cycle has emptied the queue).
\<close>

definition receive_datagram :: "socket_addr \<Rightarrow> bytes \<Rightarrow> 'net peer \<Rightarrow> 'net peer option" where
  "receive_datagram a datagram p =
     (let packet = take (MAX_MTU_SIZE - IP_UDP_HEADER_SIZE) datagram in
      if length packet < MIN_PACKET_SIZE then Some p
      else if length (packet_queue p) < PACKET_QUEUE_SIZE
      then Some (p\<lparr>packet_queue := packet_queue p @ [(a, packet)]\<rparr>)
      else None)"

section \<open>Commands\<close>

fun process_command :: "u64 \<Rightarrow> ruk_command \<Rightarrow> 'net peer \<Rightarrow> 'net peer option" where
  "process_command now (Send a prio r ordering_channel bs) p =
     (case conns p a of
        Some c \<Rightarrow>
          do {
            c \<leftarrow> send_to_conn now prio r ordering_channel bs c;
            Some (p\<lparr>conns := (conns p)(a \<mapsto> c)\<rparr>)
          }
      | None \<Rightarrow> Some p)"
| "process_command now (Close a) p =
     (if conns p a \<noteq> None then
        do {
          n \<leftarrow> size_sub (conn_count p) 1;
          Some (p\<lparr>conns := (conns p)(a := None), conn_count := n\<rparr>)
        }
      else Some p)"

fun process_commands :: "u64 \<Rightarrow> ruk_command list \<Rightarrow> 'net peer \<Rightarrow> 'net peer option" where
  "process_commands now [] p = Some p"
| "process_commands now (cmd # cmds) p =
     do {
       p \<leftarrow> process_command now cmd p;
       process_commands now cmds p
     }"

section \<open>Online messages\<close>

definition unspecified_addr :: socket_addr where
  "unspecified_addr = V4 [0, 0, 0, 0] 0"

definition saturating_sub :: "u64 \<Rightarrow> u64 \<Rightarrow> u64" where
  "saturating_sub a b = (if b \<le> a then a - b else 0)"

text \<open>The bodies of the online messages, read in the order of the code.\<close>

definition try_get_connection_request :: "wire \<Rightarrow> u64 parser" where
  "try_get_connection_request w =
     pbind (try_get_u64 w) (\<lambda>_.
     pbind (try_get_u64 w) (\<lambda>ping_time.
     pbind try_get_u8 (\<lambda>_.
     preturn ping_time)))"

definition try_get_request_accepted :: "wire \<Rightarrow> (socket_addr \<times> u64 \<times> u64) parser" where
  "try_get_request_accepted w =
     pbind (try_get_addr w) (\<lambda>remote_addr.
     pbind (try_get_u16 w) (\<lambda>_.
     pbind (ptimes 10 (try_get_addr w)) (\<lambda>_.
     pbind (try_get_u64 w) (\<lambda>ping_time.
     pbind (try_get_u64 w) (\<lambda>pong_time.
     preturn (remote_addr, ping_time, pong_time))))))"

definition try_get_new_incoming :: "wire \<Rightarrow> u64 parser" where
  "try_get_new_incoming w =
     pbind (try_get_addr w) (\<lambda>_.
     pbind (ptimes 20 (try_get_addr w)) (\<lambda>_.
     pbind (try_get_u64 w) (\<lambda>ping_time.
     pbind (try_get_u64 w) (\<lambda>_.
     preturn ping_time))))"

definition request_accepted_reply :: "wire \<Rightarrow> u64 \<Rightarrow> socket_addr \<Rightarrow> u64 \<Rightarrow> bytes" where
  "request_accepted_reply w now a ping_time =
     [online_to_u8 ConnectionRequestAccepted] @ put_addr w a @ put_u16 w 0
     @ concat (replicate 10 (put_addr w unspecified_addr)) @ put_u64 w ping_time @ put_u64 w now"

definition new_incoming_reply :: "wire \<Rightarrow> u64 \<Rightarrow> socket_addr \<Rightarrow> u64 \<Rightarrow> bytes" where
  "new_incoming_reply w now remote_addr pong_time =
     [online_to_u8 NewIncomingConnection] @ put_addr w remote_addr
     @ concat (replicate 20 (put_addr w unspecified_addr)) @ put_u64 w pong_time @ put_u64 w now"

type_synonym 'net online = "(conn \<times> 'net peer, peer_error, unit) step"

definition process_online :: "'net env \<Rightarrow> u64 \<Rightarrow> socket_addr \<Rightarrow> online_id \<Rightarrow> bytes \<Rightarrow>
    conn \<times> 'net peer \<Rightarrow> 'net online" where
  "process_online e now a i bs s =
     (let w = env_wire e; c = fst s; p = snd s in
      case i of
        ConnectionRequest \<Rightarrow>
          (case try_get_connection_request w bs of
             Inl err \<Rightarrow> Some (Inl (PeerRukBytes err), s)
           | Inr (ping_time, _) \<Rightarrow>
               do {
                 c \<leftarrow> send_to_conn now Immediate ReliableOrdered 0
                   (request_accepted_reply w now a ping_time)
                   (c\<lparr>connect_mode := HandlingConnectionRequest\<rparr>);
                 Some (Inr (), (c, p))
               })
      | ConnectionRequestAccepted \<Rightarrow>
          if connect_mode c \<noteq> RequestedConnection then
            Some (Inl (InvalidPacket ''connection request accepted is not expected.''), s)
          else
            (case try_get_request_accepted w bs of
               Inl err \<Rightarrow> Some (Inl (PeerRukBytes err), s)
             | Inr ((remote_addr, ping_time, pong_time), _) \<Rightarrow>
                 do {
                   let c = c\<lparr>ping := saturating_sub now ping_time, connect_mode := Connected\<rparr>;
                   let p = send_message e a (guid c) MsgConnectionRequestAccepted p;
                   c \<leftarrow> send_to_conn now Immediate ReliableOrdered 0
                     (new_incoming_reply w now remote_addr pong_time) c;
                   c \<leftarrow> send_ping_to_conn w now Unreliable c;
                   Some (Inr (), (c, p))
                 })
      | NewIncomingConnection \<Rightarrow>
          if connect_mode c \<noteq> HandlingConnectionRequest then
            Some (Inl (InvalidPacket ''new incoming connection is not expected.''), s)
          else
            do {
              c \<leftarrow> send_ping_to_conn w now Unreliable (c\<lparr>connect_mode := Connected\<rparr>);
              case try_get_new_incoming w bs of
                Inl err \<Rightarrow> Some (Inl (PeerRukBytes err), (c, p))
              | Inr (ping_time, _) \<Rightarrow>
                  Some (Inr (), (c\<lparr>ping := saturating_sub now ping_time\<rparr>,
                    send_message e a (guid c) MsgNewIncomingConnection p))
            }
      | ConnectedPing \<Rightarrow>
          (case try_get_u64 w bs of
             Inl err \<Rightarrow> Some (Inl (PeerRukBytes err), s)
           | Inr (ping_time, _) \<Rightarrow>
               do {
                 c \<leftarrow> send_to_conn now Immediate Unreliable 0
                   ([online_to_u8 ConnectedPong] @ put_u64 w ping_time @ put_u64 w now) c;
                 Some (Inr (), (c, p))
               })
      | ConnectedPong \<Rightarrow>
          (case pbind (try_get_u64 w) (\<lambda>t. pbind (try_get_u64 w) (\<lambda>_. preturn t)) bs of
             Inl err \<Rightarrow> Some (Inl (PeerRukBytes err), s)
           | Inr (ping_time, _) \<Rightarrow> Some (Inr (), (c\<lparr>ping := saturating_sub now ping_time\<rparr>, p)))
      | DisconnectionNotification \<Rightarrow>
          do {
            p \<leftarrow> close_conn_internal a Low 0 p;
            Some (Inr (), (c, p))
          })"

definition process_message :: "'net env \<Rightarrow> u64 \<Rightarrow> socket_addr \<Rightarrow> bytes \<Rightarrow>
    conn \<times> 'net peer \<Rightarrow> 'net online" where
  "process_message e now a msg s =
     (case msg of
        [] \<Rightarrow> Some (Inl (InvalidPacket ''message is too small.''), s)
      | b # bs \<Rightarrow>
          if connect_mode (fst s) = UnverfiedSender \<and> b \<noteq> online_to_u8 ConnectionRequest then
            Some (Inl (InvalidPacket ''unverified sender can only send connection request.''), s)
          else
            case online_from_u8 b of
              Some i \<Rightarrow> process_online e now a i bs s
            | None \<Rightarrow>
                Some (Inr (), (fst s, send_message e a (guid (fst s)) (MsgApp msg) (snd s))))"

section \<open>Offline packets\<close>

type_synonym 'net offline = "('net peer, peer_error, unit) step"

definition send_offline :: "'net env \<Rightarrow> socket_addr \<Rightarrow> bytes \<Rightarrow> 'net peer \<Rightarrow> 'net offline" where
  "send_offline e a bs p =
     (let (ok, n) = env_send_to e bs a (net p)
      in Some (if ok then Inr () else Inl FailedToSend, p\<lparr>net := n\<rparr>))"

definition with_parsed ::
  "'a parser \<Rightarrow> bytes \<Rightarrow> 'net peer \<Rightarrow> ('a \<Rightarrow> bytes \<Rightarrow> 'net offline) \<Rightarrow> 'net offline" where
  "with_parsed parser bs p f =
     (case parser bs of
        Inl err \<Rightarrow> Some (Inl (PeerRukBytes err), p)
      | Inr (x, rest) \<Rightarrow> f x rest)"

definition after_magic :: "'a parser \<Rightarrow> 'a parser" where
  "after_magic parser = pbind (try_advance (length OFFLINE_MESSAGE_DATA_ID)) (\<lambda>_. parser)"

text \<open>The answer that carries an id, the magic bytes and the peer's own guid.\<close>

definition id_magic_guid :: "'net env \<Rightarrow> offline_id \<Rightarrow> bytes" where
  "id_magic_guid e i =
     [offline_to_u8 i] @ OFFLINE_MESSAGE_DATA_ID @ put_u64 (env_wire e) (own_guid e)"

definition on_unconnected_ping :: "'net env \<Rightarrow> socket_addr \<Rightarrow> bytes \<Rightarrow> 'net peer \<Rightarrow> 'net offline" where
  "on_unconnected_ping e a bs p =
     (let w = env_wire e in
      if conn_count p \<ge> max_conn_count e then Some (Inr (), p)
      else
        with_parsed
          (pbind (try_get_u64 w) (\<lambda>t.
           after_magic (pbind (try_get_u64 w) (\<lambda>g. preturn (t, g))))) bs p
          (\<lambda>(ping_time, remote_guid) _.
             and_then
               (send_offline e a
                 ([offline_to_u8 UnconnectedPong] @ put_u64 w ping_time @ put_u64 w (own_guid e)
                  @ OFFLINE_MESSAGE_DATA_ID @ put_string w (env_ping_res e)) p)
               (\<lambda>_ p. Some (Inr (), send_message e a remote_guid MsgUnconnectedPing p))))"

definition on_unconnected_pong ::
  "'net env \<Rightarrow> u64 \<Rightarrow> socket_addr \<Rightarrow> bytes \<Rightarrow> 'net peer \<Rightarrow> 'net offline" where
  "on_unconnected_pong e now a bs p =
     (let w = env_wire e in
      with_parsed
        (pbind (try_get_u64 w) (\<lambda>t.
         pbind (try_get_u64 w) (\<lambda>g.
         after_magic (pbind (try_get_string w) (\<lambda>s. preturn (t, g, s)))))) bs p
        (\<lambda>(ping_time, remote_guid, s) _.
           Some (Inr (), send_message e a remote_guid
             (MsgUnconnectedPong (saturating_sub now ping_time) s) p)))"

definition on_open_connection_request_1 ::
  "'net env \<Rightarrow> socket_addr \<Rightarrow> bytes \<Rightarrow> 'net peer \<Rightarrow> 'net offline" where
  "on_open_connection_request_1 e a bs p =
     (let w = env_wire e in
      with_parsed (after_magic try_get_u8) bs p
        (\<lambda>proto_version rest.
           if proto_version \<noteq> PROTOCOL_VERSION then
             send_offline e a
               ([offline_to_u8 IncompatibleProtocolVersion, PROTOCOL_VERSION]
                @ OFFLINE_MESSAGE_DATA_ID @ put_u64 w (own_guid e)) p
           else
             send_offline e a
               (id_magic_guid e OpenConnectionReply1 @ [0]
                @ put_u16 w (word_of_nat
                    (min (length rest + 18 + IP_UDP_HEADER_SIZE) MAX_MTU_SIZE))) p))"

definition on_open_connection_reply_1 ::
  "'net env \<Rightarrow> socket_addr \<Rightarrow> bytes \<Rightarrow> 'net peer \<Rightarrow> 'net offline" where
  "on_open_connection_reply_1 e a bs p =
     (let w = env_wire e in
      with_parsed
        (after_magic
          (pbind (try_get_u64 w) (\<lambda>_.
           pbind try_get_u8 (\<lambda>has_cookie.
           pwhen (has_cookie = 1) (try_get_u32 w))))) bs p
        (\<lambda>cookie rest.
           case req_conns p a of
             None \<Rightarrow> Some (Inr (), p)
           | Some req \<Rightarrow>
               with_parsed (try_get_u16 w) rest p
                 (\<lambda>mtu_size _.
                    send_offline e a
                      ([offline_to_u8 OpenConnectionRequest2] @ OFFLINE_MESSAGE_DATA_ID
                       @ (case cookie of Some k \<Rightarrow> put_u32 w k @ [0] | None \<Rightarrow> [])
                       @ put_addr w (req_addr req) @ put_u16 w mtu_size
                       @ put_u64 w (own_guid e)) p)))"

text \<open>\<open>register_conn\<close> always returns a connection; the outer option is the panic of \<open>Layer::new\<close>.\<close>

definition register_conn :: "u64 \<Rightarrow> u64 \<Rightarrow> connect_mode \<Rightarrow> usize \<Rightarrow> conn option option" where
  "register_conn now g mode mtu_size =
     do {
       c \<leftarrow> conn_new now g mode mtu_size;
       Some (Some c)
     }"

definition insert_conn :: "socket_addr \<Rightarrow> conn \<Rightarrow> 'net peer \<Rightarrow> 'net peer" where
  "insert_conn a c p = p\<lparr>conn_count := conn_count p + 1, conns := (conns p)(a \<mapsto> c)\<rparr>"

definition on_open_connection_request_2 ::
  "'net env \<Rightarrow> u64 \<Rightarrow> socket_addr \<Rightarrow> bytes \<Rightarrow> 'net peer \<Rightarrow> 'net offline" where
  "on_open_connection_request_2 e now a bs p =
     (let w = env_wire e in
      with_parsed
        (after_magic
          (pbind (try_get_addr w) (\<lambda>binding_addr.
           pbind (try_get_u16 w) (\<lambda>mtu_size.
           pbind (try_get_u64 w) (\<lambda>g. preturn (mtu_size, g)))))) bs p
        (\<lambda>(mtu_size, remote_guid) _.
           if conn_count p \<ge> max_conn_count e then
             send_offline e a (id_magic_guid e NoFreeIncomingConnections) p
           else
             do {
               registered \<leftarrow> register_conn now remote_guid UnverfiedSender (unat mtu_size);
               case registered of
                 Some c \<Rightarrow>
                   send_offline e a
                     (id_magic_guid e OpenConnectionReply2 @ put_addr w a @ put_u16 w mtu_size @ [0])
                     (insert_conn a c p)
               | None \<Rightarrow> send_offline e a (id_magic_guid e IpRecentlyConnected) p
             }))"

definition connection_request :: "'net env \<Rightarrow> u64 \<Rightarrow> bytes" where
  "connection_request e now =
     [online_to_u8 ConnectionRequest] @ put_u64 (env_wire e) (own_guid e)
     @ put_u64 (env_wire e) now @ [0]"

definition on_open_connection_reply_2 ::
  "'net env \<Rightarrow> u64 \<Rightarrow> socket_addr \<Rightarrow> bytes \<Rightarrow> 'net peer \<Rightarrow> 'net offline" where
  "on_open_connection_reply_2 e now a bs p =
     (let w = env_wire e in
      with_parsed
        (after_magic
          (pbind (try_get_u64 w) (\<lambda>g.
           pbind (try_get_addr w) (\<lambda>binding_addr.
           pbind (try_get_u16 w) (\<lambda>mtu_size.
           pbind try_get_u8 (\<lambda>_. preturn (g, mtu_size))))))) bs p
        (\<lambda>(remote_guid, mtu_size) _.
           case req_conns p a of
             None \<Rightarrow> Some (Inr (), p)
           | Some req \<Rightarrow>
               let p = p\<lparr>req_conns := (req_conns p)(a := None)\<rparr> in
               do {
                 registered \<leftarrow> register_conn now remote_guid UnverfiedSender (unat mtu_size);
                 case registered of
                   None \<Rightarrow> Some (Inr (), p)
                 | Some c \<Rightarrow>
                     do {
                       let c = c\<lparr>connect_mode := RequestedConnection\<rparr>;
                       let c = (case req_timeout req of
                           Some t \<Rightarrow> c\<lparr>conn_layer := set_timeout t (conn_layer c)\<rparr>
                         | None \<Rightarrow> c);
                       c \<leftarrow> send_to_conn now Immediate Reliable 0 (connection_request e now) c;
                       Some (Inr (), insert_conn a c p)
                     }
               }))"

definition on_incompatible_version ::
  "'net env \<Rightarrow> socket_addr \<Rightarrow> bytes \<Rightarrow> 'net peer \<Rightarrow> 'net offline" where
  "on_incompatible_version e a bs p =
     (let w = env_wire e in
      with_parsed (after_magic (pbind try_get_u8 (\<lambda>v. pbind (try_get_u64 w) (\<lambda>g. preturn (v, g))))) bs p
        (\<lambda>(v, g) _. Some (Inr (), send_message e a g (MsgIncompatibleProtocolVersion v) p)))"

text \<open>\<open>AlreadyConnected\<close>, \<open>NoFreeIncomingConnections\<close>, \<open>ConnectionBanned\<close>, \<open>IpRecentlyConnected\<close>.\<close>

definition on_refusal ::
  "'net env \<Rightarrow> socket_addr \<Rightarrow> ruk_message_context \<Rightarrow> bytes \<Rightarrow> 'net peer \<Rightarrow> 'net offline" where
  "on_refusal e a ctx bs p =
     with_parsed (after_magic (try_get_u64 (env_wire e))) bs p
       (\<lambda>g _. Some (Inr (), send_message e a g ctx p))"

definition process_offline_packet ::
  "'net env \<Rightarrow> u64 \<Rightarrow> socket_addr \<Rightarrow> bytes \<Rightarrow> 'net peer \<Rightarrow> 'net offline" where
  "process_offline_packet e now a packet p =
     (if length packet < MIN_OFFLINE_PACKET_SIZE then
        Some (Inl (InvalidPacket ''packet is too small.''), p)
      else
        let bs = tl packet in
        case offline_from_u8 (hd packet) of
          None \<Rightarrow> Some (Inl (InvalidPacket ''invalid offline message id.''), p)
        | Some UnconnectedPing \<Rightarrow> on_unconnected_ping e a bs p
        | Some UnconnectedPong \<Rightarrow> on_unconnected_pong e now a bs p
        | Some OpenConnectionRequest1 \<Rightarrow> on_open_connection_request_1 e a bs p
        | Some OpenConnectionReply1 \<Rightarrow> on_open_connection_reply_1 e a bs p
        | Some OpenConnectionRequest2 \<Rightarrow> on_open_connection_request_2 e now a bs p
        | Some OpenConnectionReply2 \<Rightarrow> on_open_connection_reply_2 e now a bs p
        | Some IncompatibleProtocolVersion \<Rightarrow> on_incompatible_version e a bs p
        | Some AlreadyConnected \<Rightarrow> on_refusal e a MsgAlreadyConnected bs p
        | Some NoFreeIncomingConnections \<Rightarrow> on_refusal e a MsgNoFreeIncomingConnections bs p
        | Some ConnectionBanned \<Rightarrow> on_refusal e a MsgConnectionBanned bs p
        | Some IpRecentlyConnected \<Rightarrow> on_refusal e a MsgIpRecentlyConnected bs p)"

section \<open>Packets\<close>

text \<open>
  The messages of a connection after a datagram: the first that fails bans the address and
  closes the connection, and the rest are dropped (they were taken from the layer).
\<close>

fun process_messages :: "'net env \<Rightarrow> u64 \<Rightarrow> socket_addr \<Rightarrow> bytes list \<Rightarrow>
    conn \<times> 'net peer \<Rightarrow> (conn \<times> 'net peer) option" where
  "process_messages e now a [] s = Some s"
| "process_messages e now a (msg # msgs) s =
     do {
       (r, s) \<leftarrow> process_message e now a msg s;
       case r of
         Inr _ \<Rightarrow> process_messages e now a msgs s
       | Inl _ \<Rightarrow>
           do {
             p \<leftarrow> close_conn_internal a Low 0
               (ban_addr_internal a (timeout (conn_layer (fst s))) (snd s));
             Some (fst s, p)
           }
     }"

definition put_conn :: "socket_addr \<Rightarrow> conn \<Rightarrow> 'net peer \<Rightarrow> 'net peer" where
  "put_conn a c p = p\<lparr>conns := (conns p)(a \<mapsto> c)\<rparr>"

definition process_online_packet ::
  "'net env \<Rightarrow> u64 \<Rightarrow> socket_addr \<Rightarrow> bytes \<Rightarrow> conn \<Rightarrow> 'net peer \<Rightarrow> 'net peer option" where
  "process_online_packet e now a packet c p =
     do {
       (r, l) \<leftarrow> handle_datagram (env_wire e) sliding_window now packet (conn_layer c);
       case r of
         Inl _ \<Rightarrow> close_conn_internal a Low 0 (put_conn a (c\<lparr>conn_layer := l\<rparr>) p)
       | Inr _ \<Rightarrow>
           do {
             let (msgs, l) = recv l;
             (c, p) \<leftarrow> process_messages e now a msgs (c\<lparr>conn_layer := l\<rparr>, p);
             Some (put_conn a c p)
           }
     }"

definition process_unbanned ::
  "'net env \<Rightarrow> u64 \<Rightarrow> socket_addr \<Rightarrow> bytes \<Rightarrow> 'net peer \<Rightarrow> 'net peer option" where
  "process_unbanned e now a packet p =
     do {
       (r, p) \<leftarrow> process_offline_packet e now a packet p;
       Some (case r of
           Inl _ \<Rightarrow> ban_addr_internal a DEFAULT_TIMEOUT p
         | Inr _ \<Rightarrow> p)
     }"

definition process_packet ::
  "'net env \<Rightarrow> u64 \<Rightarrow> socket_addr \<Rightarrow> bytes \<Rightarrow> 'net peer \<Rightarrow> 'net peer option" where
  "process_packet e now a packet p =
     (case conns p a of
        Some c \<Rightarrow> process_online_packet e now a packet c p
      | None \<Rightarrow>
          case ban_list p a of
            Some ban_time \<Rightarrow>
              if ban_time < now then
                if remove_while_held e then
                  process_unbanned e now a packet (p\<lparr>ban_list := (ban_list p)(a := None)\<rparr>)
                else None
              else
                Some (snd (the (send_offline e a (id_magic_guid e ConnectionBanned) p)))
          | None \<Rightarrow> process_unbanned e now a packet p)"

section \<open>The update cycle\<close>

fun process_packets :: "'net env \<Rightarrow> u64 \<Rightarrow> (socket_addr \<times> bytes) list \<Rightarrow> 'net peer \<Rightarrow> 'net peer option" where
  "process_packets e now [] p = Some p"
| "process_packets e now ((a, packet) # rest) p =
     do {
       p \<leftarrow> process_packet e now a packet p;
       process_packets e now rest p
     }"

definition request_1 :: "usize \<Rightarrow> bytes" where
  "request_1 mtu_size =
     (let start = [offline_to_u8 OpenConnectionRequest1] @ OFFLINE_MESSAGE_DATA_ID @ [PROTOCOL_VERSION]
      in start @ replicate (mtu_size - IP_UDP_HEADER_SIZE - length start) 0)"

text \<open>One pending request; the loop holds a reference to it while the body runs.\<close>

definition update_req_conn :: "'net env \<Rightarrow> u64 \<Rightarrow> socket_addr \<Rightarrow> req_conn \<Rightarrow> 'net peer \<Rightarrow> 'net peer option" where
  "update_req_conn e now a req p =
     (if now > next_req_time req then
        if req_count req \<ge> max_req_count req then
          let p = send_message e a (own_guid e) MsgConnectionAttemptFailed p in
          if remove_while_held e then Some (p\<lparr>req_conns := (req_conns p)(a := None)\<rparr>) else None
        else
          do {
            tries \<leftarrow> size_div (max_req_count req) (length MTU_SIZES);
            index \<leftarrow> size_div (req_count req) tries;
            let mtu_size = MTU_SIZES ! min index (length MTU_SIZES - 1);
            next_time \<leftarrow> uadd now (req_interval req);
            let p = p\<lparr>req_conns := (req_conns p)(a \<mapsto>
              req\<lparr>req_count := req_count req + 1, next_req_time := next_time\<rparr>)\<rparr>;
            Some (snd (the (send_offline e a (request_1 mtu_size) p)))
          }
      else Some p)"

text \<open>The order in which a map is iterated is a parameter: the list of its keys.\<close>

fun update_req_conns :: "'net env \<Rightarrow> u64 \<Rightarrow> socket_addr list \<Rightarrow> 'net peer \<Rightarrow> 'net peer option" where
  "update_req_conns e now [] p = Some p"
| "update_req_conns e now (a # as) p =
     do {
       p \<leftarrow> (case req_conns p a of Some req \<Rightarrow> update_req_conn e now a req p | None \<Rightarrow> Some p);
       update_req_conns e now as p
     }"

fun process_queued_messages :: "'net env \<Rightarrow> u64 \<Rightarrow> socket_addr \<Rightarrow> bytes list \<Rightarrow>
    conn \<times> 'net peer \<Rightarrow> (conn \<times> 'net peer) option" where
  "process_queued_messages e now a [] s = Some s"
| "process_queued_messages e now a (msg # msgs) s =
     do {
       (r, s) \<leftarrow> process_message e now a msg s;
       case r of
         Inr _ \<Rightarrow> process_queued_messages e now a msgs s
       | Inl _ \<Rightarrow>
           do {
             p \<leftarrow> close_conn_internal a Low 0
               (ban_addr_internal a (timeout (conn_layer (fst s))) (snd s));
             process_queued_messages e now a msgs (fst s, p)
           }
     }"

definition keep_alive :: "'net env \<Rightarrow> u64 \<Rightarrow> conn \<Rightarrow> conn option" where
  "keep_alive e now c =
     (if connect_mode c = Connected then
        do {
          idle \<leftarrow> usub now (last_reliable_send c);
          if idle > timeout (conn_layer c) div 2 \<and> is_retransmit_cache_empty (conn_layer c)
          then send_ping_to_conn (env_wire e) now Reliable c
          else Some c
        }
      else Some c)"

definition gave_up :: "u64 \<Rightarrow> conn \<Rightarrow> bool option" where
  "gave_up now c =
     (if is_dead (conn_layer c) then Some True
      else if connect_mode c \<noteq> Connected then
        do {
          age \<leftarrow> usub now (create_time c);
          Some (age > 10000)
        }
      else Some False)"

definition periodic_ping :: "'net env \<Rightarrow> u64 \<Rightarrow> conn \<Rightarrow> conn option" where
  "periodic_ping e now c =
     (if connect_mode c = Connected \<and> now > next_ping_time c then
        do {
          t \<leftarrow> uadd now 5000;
          send_ping_to_conn (env_wire e) now Unreliable (c\<lparr>next_ping_time := t\<rparr>)
        }
      else Some c)"

definition update_live_conn ::
  "'net env \<Rightarrow> u64 \<Rightarrow> socket_addr \<Rightarrow> conn \<Rightarrow> 'net peer \<Rightarrow> 'net peer option" where
  "update_live_conn e now a c p =
     do {
       c \<leftarrow> periodic_ping e now c;
       let (msgs, l) = recv (conn_layer c);
       (c, p) \<leftarrow> process_queued_messages e now a msgs (c\<lparr>conn_layer := l\<rparr>, p);
       Some (put_conn a c p)
     }"

definition update_conn :: "'net env \<Rightarrow> u64 \<Rightarrow> socket_addr \<Rightarrow> conn \<Rightarrow> 'net peer \<Rightarrow> 'net peer option" where
  "update_conn e now a c p =
     do {
       c \<leftarrow> keep_alive e now c;
       (r, (l, n)) \<leftarrow> update (env_wire e) (env_send_to e) sliding_window now a (conn_layer c, net p);
       let c = c\<lparr>conn_layer := l\<rparr>;
       let p = p\<lparr>net := n\<rparr>;
       dead \<leftarrow> (case r of Inl _ \<Rightarrow> Some True | Inr _ \<Rightarrow> gave_up now c);
       if dead then close_conn_internal a Low 0 (put_conn a c p)
       else update_live_conn e now a c p
     }"

fun update_conns :: "'net env \<Rightarrow> u64 \<Rightarrow> socket_addr list \<Rightarrow> 'net peer \<Rightarrow> 'net peer option" where
  "update_conns e now [] p = Some p"
| "update_conns e now (a # as) p =
     do {
       p \<leftarrow> (case conns p a of Some c \<Rightarrow> update_conn e now a c p | None \<Rightarrow> Some p);
       update_conns e now as p
     }"

definition update_cycle ::
  "'net env \<Rightarrow> u64 \<Rightarrow> socket_addr list \<Rightarrow> socket_addr list \<Rightarrow> 'net peer \<Rightarrow> 'net peer option" where
  "update_cycle e now req_order conn_order p =
     do {
       p \<leftarrow> process_packets e now (packet_queue p) (p\<lparr>packet_queue := []\<rparr>);
       p \<leftarrow> process_commands now (command_queue p) (p\<lparr>command_queue := []\<rparr>);
       p \<leftarrow> update_req_conns e now req_order p;
       update_conns e now conn_order p
     }"


text \<open>The last cycle of the update task, after the application has closed the peer.\<close>

fun close_all :: "socket_addr list \<Rightarrow> 'net peer \<Rightarrow> 'net peer option" where
  "close_all [] p = Some p"
| "close_all (a # as) p =
     do {
       p \<leftarrow> close_conn_internal a Immediate 0 p;
       close_all as p
     }"

definition shutdown ::
  "'net env \<Rightarrow> u64 \<Rightarrow> socket_addr list \<Rightarrow> socket_addr list \<Rightarrow> socket_addr list \<Rightarrow>
     'net peer \<Rightarrow> 'net peer option" where
  "shutdown e now close_order req_order conn_order p =
     do {
       p \<leftarrow> close_all close_order p;
       update_cycle e now req_order conn_order p
     }"

end
