(* ===== verification/Peer_Invariant.thy ===== *)
theory Peer_Invariant
  imports Peer
begin

text \<open>
  Invariants of the peer. The locale \<open>peer_invariant\<close> asks that a predicate is kept by the dozen
  elementary changes the handlers are made of; it then holds through every handler, the update
  cycle and the shutdown. Its instances are the exact count of connections and the bounds of the
  queues.
\<close>

section \<open>What the message handlers leave alone\<close>

text \<open>The parts of the peer that only packets, commands and the request loop change.\<close>

definition same_conns :: "'net peer \<Rightarrow> 'net peer \<Rightarrow> bool" where
  "same_conns p q \<longleftrightarrow> conns q = conns p \<and> conn_count q = conn_count p"

lemma same_conns_refl [simp]: "same_conns p p"
  by (simp add: same_conns_def)

lemma same_conns_trans: "same_conns p q \<Longrightarrow> same_conns q r \<Longrightarrow> same_conns p r"
  by (simp add: same_conns_def)

lemma same_conns_send_message [simp]: "same_conns p (send_message e a g ctx p)"
  by (simp add: same_conns_def send_message_def Let_def)

lemma same_conns_ban [simp]: "same_conns p (ban_addr_internal a t p)"
  by (simp add: same_conns_def ban_addr_internal_def)

lemma same_conns_close: "close_conn_internal a prio ch p = Some q \<Longrightarrow> same_conns p q"
  by (auto simp: close_conn_internal_def push_command_def same_conns_def split: if_splits bind_splits)

lemma same_conns_ban_close:
  "close_conn_internal a prio ch (ban_addr_internal b t p) = Some q \<Longrightarrow> same_conns p q"
  using same_conns_close same_conns_trans same_conns_ban by blast

lemma process_online_conns:
  "process_online e now a i bs (c, p) = Some (r, (c', q)) \<Longrightarrow> same_conns p q"
  by (cases i)
    (auto simp: process_online_def Let_def intro: same_conns_close
      split: sum.splits if_splits bind_splits)

lemma process_message_conns:
  "process_message e now a msg (c, p) = Some (r, (c', q)) \<Longrightarrow> same_conns p q"
  by (auto simp: process_message_def intro: process_online_conns
      split: list.splits if_splits option.splits)

lemma process_messages_conns:
  "process_messages e now a msgs (c, p) = Some (c', q) \<Longrightarrow> same_conns p q"
proof (induction msgs arbitrary: c p)
  case (Cons msg msgs)
  obtain r c1 p1 where step: "process_message e now a msg (c, p) = Some (r, (c1, p1))"
    using Cons.prems by (auto split: bind_splits)
  note same = process_message_conns [OF step]
  show ?case
  proof (cases r)
    case (Inl err)
    then show ?thesis
      using Cons.prems step same by (auto split: bind_splits intro: same_conns_trans same_conns_ban_close)
  next
    case (Inr u)
    then show ?thesis using Cons step same by (auto intro: same_conns_trans)
  qed
qed simp

lemma process_queued_messages_conns:
  "process_queued_messages e now a msgs (c, p) = Some (c', q) \<Longrightarrow> same_conns p q"
proof (induction msgs arbitrary: c p)
  case (Cons msg msgs)
  obtain r c1 p1 where step: "process_message e now a msg (c, p) = Some (r, (c1, p1))"
    using Cons.prems by (auto split: bind_splits)
  note same = process_message_conns [OF step]
  show ?case
  proof (cases r)
    case (Inl err)
    then obtain p2 where p2:
      "close_conn_internal a Low 0 (ban_addr_internal a (timeout (conn_layer c1)) p1) = Some p2"
      "process_queued_messages e now a msgs (c1, p2) = Some (c', q)"
      using Cons.prems step by (auto split: bind_splits)
    show ?thesis
      using Cons.IH [OF p2(2)] same_conns_ban_close [OF p2(1)] same by (blast intro: same_conns_trans)
  next
    case (Inr u)
    then show ?thesis using Cons step same by (auto intro: same_conns_trans)
  qed
qed simp

section \<open>The locale\<close>

lemma send_offline_eq:
  "send_offline e a bs p =
     Some (if fst (env_send_to e bs a (net p)) then Inr () else Inl FailedToSend,
           p\<lparr>net := snd (env_send_to e bs a (net p))\<rparr>)"
  by (simp add: send_offline_def split_beta Let_def)

lemmas offline_handlers =
  on_unconnected_ping_def on_unconnected_pong_def on_open_connection_request_1_def
  on_open_connection_reply_1_def on_incompatible_version_def on_refusal_def

locale peer_invariant =
  fixes e :: "'net env" and inv :: "'net peer \<Rightarrow> bool"
  assumes inv_net: "inv p \<Longrightarrow> inv (p\<lparr>net := n\<rparr>)"
    and inv_ban_list: "inv p \<Longrightarrow> inv (p\<lparr>ban_list := m\<rparr>)"
    and inv_req_conns: "inv p \<Longrightarrow> inv (p\<lparr>req_conns := rs\<rparr>)"
    and inv_take_packets: "inv p \<Longrightarrow> inv (p\<lparr>packet_queue := []\<rparr>)"
    and inv_take_commands: "inv p \<Longrightarrow> inv (p\<lparr>command_queue := []\<rparr>)"
    and inv_push: "push_command cmd p = Some q \<Longrightarrow> inv p \<Longrightarrow> inv q"
    and inv_message: "inv p \<Longrightarrow> inv (send_message e a g ctx p)"
    and inv_put: "inv p \<Longrightarrow> conns p a \<noteq> None \<Longrightarrow> inv (put_conn a c p)"
    and inv_insert: "inv p \<Longrightarrow> conns p a = None \<Longrightarrow> inv (insert_conn a c p)"
    and inv_remove: "inv p \<Longrightarrow> conns p a \<noteq> None \<Longrightarrow> size_sub (conn_count p) 1 = Some k \<Longrightarrow>
      inv (p\<lparr>conns := (conns p)(a := None), conn_count := k\<rparr>)"
begin

lemma close_inv: "close_conn_internal a prio ch p = Some q \<Longrightarrow> inv p \<Longrightarrow> inv q"
  unfolding close_conn_internal_def by (auto split: bind_splits dest!: inv_push)

lemma ban_inv: "inv p \<Longrightarrow> inv (ban_addr_internal a t p)"
  by (simp add: ban_addr_internal_def inv_ban_list)

lemma send_offline_inv: "send_offline e a bs p = Some (r, q) \<Longrightarrow> inv p \<Longrightarrow> inv q"
  by (auto simp: send_offline_eq inv_net)

lemma process_command_inv:
  assumes "process_command now cmd p = Some q" "inv p"
  shows "inv q"
proof (cases cmd)
  case (Send a prio r ch bs)
  then show ?thesis
    using assms inv_put [of p a] by (auto simp: put_conn_def split: option.splits bind_splits)
next
  case (Close a)
  then show ?thesis using assms inv_remove [of p a] by (auto split: if_splits bind_splits)
qed

lemma process_commands_inv: "process_commands now cmds p = Some q \<Longrightarrow> inv p \<Longrightarrow> inv q"
  by (induction cmds arbitrary: p) (auto split: bind_splits dest: process_command_inv)

text \<open>Online messages.\<close>

lemma process_online_inv: "process_online e now a i bs (c, p) = Some (r, (c', q)) \<Longrightarrow> inv p \<Longrightarrow> inv q"
  by (cases i)
    (auto simp: process_online_def Let_def inv_message intro: close_inv
      split: sum.splits if_splits bind_splits)

lemma process_message_inv: "process_message e now a msg (c, p) = Some (r, (c', q)) \<Longrightarrow> inv p \<Longrightarrow> inv q"
  by (auto simp: process_message_def inv_message intro: process_online_inv
      split: list.splits if_splits option.splits)

lemma process_messages_inv: "process_messages e now a msgs (c, p) = Some (c', q) \<Longrightarrow> inv p \<Longrightarrow> inv q"
proof (induction msgs arbitrary: c p)
  case (Cons msg msgs)
  obtain r c1 p1 where step: "process_message e now a msg (c, p) = Some (r, (c1, p1))"
    using Cons.prems by (auto split: bind_splits)
  have "inv p1" using process_message_inv [OF step Cons.prems(2)] .
  then show ?case
    using Cons step by (cases r) (auto split: bind_splits intro: close_inv ban_inv)
qed simp

lemma process_queued_messages_inv:
  "process_queued_messages e now a msgs (c, p) = Some (c', q) \<Longrightarrow> inv p \<Longrightarrow> inv q"
proof (induction msgs arbitrary: c p)
  case (Cons msg msgs)
  obtain r c1 p1 where step: "process_message e now a msg (c, p) = Some (r, (c1, p1))"
    using Cons.prems by (auto split: bind_splits)
  have "inv p1" using process_message_inv [OF step Cons.prems(2)] .
  then show ?case
    using Cons step by (cases r) (auto split: bind_splits dest: close_inv [OF _ ban_inv])
qed simp

text \<open>Offline packets, of an address without a connection.\<close>

lemma offline_handlers_inv:
  "on_unconnected_ping e a bs p = Some (r, q) \<Longrightarrow> inv p \<Longrightarrow> inv q"
  "on_unconnected_pong e now a bs p = Some (r, q) \<Longrightarrow> inv p \<Longrightarrow> inv q"
  "on_open_connection_request_1 e a bs p = Some (r, q) \<Longrightarrow> inv p \<Longrightarrow> inv q"
  "on_open_connection_reply_1 e a bs p = Some (r, q) \<Longrightarrow> inv p \<Longrightarrow> inv q"
  "on_incompatible_version e a bs p = Some (r, q) \<Longrightarrow> inv p \<Longrightarrow> inv q"
  "on_refusal e a ctx bs p = Some (r, q) \<Longrightarrow> inv p \<Longrightarrow> inv q"
  by (auto simp: offline_handlers with_parsed_def and_then_def send_offline_eq Let_def
      inv_net inv_message split: sum.splits option.splits if_splits)

lemma on_request_2_inv:
  "on_open_connection_request_2 e now a bs p = Some (r, q) \<Longrightarrow> inv p \<Longrightarrow> conns p a = None \<Longrightarrow> inv q"
  by (auto simp: on_open_connection_request_2_def with_parsed_def register_conn_def
      send_offline_eq Let_def inv_net inv_insert split: sum.splits if_splits bind_splits)

lemma on_reply_2_inv:
  "on_open_connection_reply_2 e now a bs p = Some (r, q) \<Longrightarrow> inv p \<Longrightarrow> conns p a = None \<Longrightarrow> inv q"
  by (auto simp: on_open_connection_reply_2_def with_parsed_def register_conn_def Let_def
      inv_req_conns inv_insert split: sum.splits option.splits bind_splits)

lemma process_unbanned_inv:
  assumes "process_unbanned e now a packet p = Some q" "inv p" "conns p a = None"
  shows "inv q"
proof -
  obtain r p1 where p1: "process_offline_packet e now a packet p = Some (r, p1)"
    "q = p1 \<or> q = ban_addr_internal a DEFAULT_TIMEOUT p1"
    using assms(1) by (auto simp: process_unbanned_def split: bind_splits sum.splits)
  have "inv p1"
    using p1(1) assms(2,3)
    by (auto simp: process_offline_packet_def Let_def
        intro: offline_handlers_inv on_request_2_inv on_reply_2_inv
        split: if_splits option.splits offline_id.splits)
  then show ?thesis using p1(2) ban_inv by blast
qed

lemma process_online_packet_inv:
  assumes "process_online_packet e now a packet c p = Some q" "inv p" "conns p a \<noteq> None"
  shows "inv q"
proof -
  obtain r l where l: "handle_datagram (env_wire e) sliding_window now packet (conn_layer c) = Some (r, l)"
    using assms(1) by (auto simp: process_online_packet_def split: bind_splits)
  show ?thesis
  proof (cases r)
    case (Inl err)
    then have "close_conn_internal a Low 0 (put_conn a (c\<lparr>conn_layer := l\<rparr>) p) = Some q"
      using assms(1) l by (simp add: process_online_packet_def)
    then show ?thesis using close_inv inv_put [OF assms(2,3)] by blast
  next
    case (Inr u)
    then obtain c1 p1 msgs l1 where p1:
      "process_messages e now a msgs (c\<lparr>conn_layer := l1\<rparr>, p) = Some (c1, p1)" "q = put_conn a c1 p1"
      using assms(1) l
      by (auto simp: process_online_packet_def Let_def split: bind_splits prod.splits)
    have "conns p1 a \<noteq> None"
      using process_messages_conns [OF p1(1)] assms(3) by (simp add: same_conns_def)
    then show ?thesis using inv_put process_messages_inv [OF p1(1) assms(2)] p1(2) by blast
  qed
qed

lemma process_packet_inv:
  assumes "process_packet e now a packet p = Some q" "inv p"
  shows "inv q"
proof (cases "conns p a")
  case (Some c)
  then show ?thesis using assms process_online_packet_inv by (auto simp: process_packet_def)
next
  case None
  have "inv (p\<lparr>ban_list := m\<rparr>)" "conns (p\<lparr>ban_list := m\<rparr>) a = None" for m
    using assms(2) None by (simp_all add: inv_ban_list)
  then show ?thesis
    using assms None process_unbanned_inv inv_net [OF assms(2)]
    by (fastforce simp: process_packet_def send_offline_eq split: option.splits if_splits)
qed

lemma process_packets_inv: "process_packets e now ps p = Some q \<Longrightarrow> inv p \<Longrightarrow> inv q"
proof (induction ps arbitrary: p)
  case (Cons x xs)
  then show ?case by (cases x) (auto split: bind_splits dest: process_packet_inv)
qed simp

text \<open>Requests and connections.\<close>

lemma update_req_conn_inv: "update_req_conn e now a req p = Some q \<Longrightarrow> inv p \<Longrightarrow> inv q"
  by (auto simp: update_req_conn_def send_offline_eq Let_def inv_req_conns inv_message inv_net
      split: if_splits bind_splits)

lemma update_req_conns_inv: "update_req_conns e now keys p = Some q \<Longrightarrow> inv p \<Longrightarrow> inv q"
  by (induction keys arbitrary: p)
    (auto split: bind_splits option.splits dest: update_req_conn_inv)

lemma update_live_conn_inv:
  assumes "update_live_conn e now a c p = Some q" "inv p" "conns p a \<noteq> None"
  shows "inv q"
proof -
  obtain c1 where c1: "periodic_ping e now c = Some c1"
    using assms(1) by (auto simp: update_live_conn_def split: bind_splits)
  obtain msgs l where l: "recv (conn_layer c1) = (msgs, l)" by force
  obtain c2 p1 where p1:
    "process_queued_messages e now a msgs (c1\<lparr>conn_layer := l\<rparr>, p) = Some (c2, p1)"
    "q = put_conn a c2 p1"
    using assms(1) c1 l by (auto simp: update_live_conn_def Let_def split: bind_splits)
  have "conns p1 a \<noteq> None"
    using process_queued_messages_conns [OF p1(1)] assms(3) by (simp add: same_conns_def)
  then show ?thesis using inv_put process_queued_messages_inv [OF p1(1) assms(2)] p1(2) by blast
qed

lemma update_conn_inv:
  assumes "update_conn e now a c p = Some q" "inv p" "conns p a \<noteq> None"
  shows "inv q"
proof -
  obtain c1 r l n dead where step: "keep_alive e now c = Some c1"
    "(if dead then close_conn_internal a Low 0 (put_conn a (c1\<lparr>conn_layer := l\<rparr>) (p\<lparr>net := n\<rparr>))
      else update_live_conn e now a (c1\<lparr>conn_layer := l\<rparr>) (p\<lparr>net := n\<rparr>)) = Some q"
    using assms(1) by (auto simp: update_conn_def Let_def split: bind_splits)
  have p: "inv (p\<lparr>net := n\<rparr>)" "conns (p\<lparr>net := n\<rparr>) a \<noteq> None"
    using assms(2,3) by (simp_all add: inv_net)
  show ?thesis
    using step(2) close_inv inv_put [OF p] update_live_conn_inv [OF _ p] by (cases dead) auto
qed

lemma update_conns_inv: "update_conns e now keys p = Some q \<Longrightarrow> inv p \<Longrightarrow> inv q"
  by (induction keys arbitrary: p) (auto split: bind_splits option.splits dest: update_conn_inv)

lemma update_cycle_inv:
  assumes "update_cycle e now req_order conn_order p = Some q" "inv p"
  shows "inv q"
proof -
  obtain p1 p2 p3 where p: "process_packets e now (packet_queue p) (p\<lparr>packet_queue := []\<rparr>) = Some p1"
    "process_commands now (command_queue p1) (p1\<lparr>command_queue := []\<rparr>) = Some p2"
    "update_req_conns e now req_order p2 = Some p3" "update_conns e now conn_order p3 = Some q"
    using assms(1) by (auto simp: update_cycle_def split: bind_splits)
  have "inv p1" using process_packets_inv [OF p(1) inv_take_packets [OF assms(2)]] .
  then have "inv p2" using process_commands_inv [OF p(2)] inv_take_commands by blast
  then show ?thesis using update_conns_inv [OF p(4)] update_req_conns_inv [OF p(3)] by blast
qed

lemma close_all_inv: "close_all as p = Some q \<Longrightarrow> inv p \<Longrightarrow> inv q"
  by (induction as arbitrary: p) (auto split: bind_splits dest: close_inv)

lemma shutdown_inv: "shutdown e now close_order req_order conn_order p = Some q \<Longrightarrow> inv p \<Longrightarrow> inv q"
  by (auto simp: shutdown_def split: bind_splits dest: close_all_inv update_cycle_inv)

end

section \<open>The connection count\<close>

definition counted :: "'net peer \<Rightarrow> bool" where
  "counted p \<longleftrightarrow> finite (dom (conns p)) \<and> conn_count p = card (dom (conns p))"

lemma counted_put_conn: "counted p \<Longrightarrow> conns p a \<noteq> None \<Longrightarrow> counted (put_conn a c p)"
proof -
  assume p: "counted p" "conns p a \<noteq> None"
  then have "insert a (dom (conns p)) = dom (conns p)" by auto
  then show ?thesis using p(1) by (simp add: counted_def put_conn_def)
qed

interpretation counting: peer_invariant e counted
proof unfold_locales
  fix p q :: "'a peer" and cmd and a and c and k
  show "push_command cmd p = Some q \<Longrightarrow> counted p \<Longrightarrow> counted q"
    by (auto simp: push_command_def counted_def split: if_splits)
  show "counted p \<Longrightarrow> conns p a \<noteq> None \<Longrightarrow> counted (put_conn a c p)"
    by (rule counted_put_conn)
  show "counted p \<Longrightarrow> conns p a = None \<Longrightarrow> counted (insert_conn a c p)"
    by (simp add: counted_def insert_conn_def domIff)
  show "counted p \<Longrightarrow> conns p a \<noteq> None \<Longrightarrow> size_sub (conn_count p) 1 = Some k \<Longrightarrow>
      counted (p\<lparr>conns := (conns p)(a := None), conn_count := k\<rparr>)"
    by (auto simp: counted_def checked_arith domIff split: if_splits)
qed (simp_all add: counted_def send_message_def Let_def)

section \<open>The bounds of the queues\<close>

text \<open>When the message queue is full the task waits until the application has taken a message.\<close>

definition app_makes_room :: "'net env \<Rightarrow> bool" where
  "app_makes_room e \<longleftrightarrow> (\<forall>q. length (app_receives e q) < MESSAGE_QUEUE_SIZE)"

definition queues_bounded :: "'net peer \<Rightarrow> bool" where
  "queues_bounded p \<longleftrightarrow>
     length (packet_queue p) \<le> PACKET_QUEUE_SIZE \<and>
     length (command_queue p) \<le> COMMAND_QUEUE_SIZE \<and>
     length (message_queue p) \<le> MESSAGE_QUEUE_SIZE \<and>
     (\<forall>(a, packet) \<in> set (packet_queue p).
        MIN_PACKET_SIZE \<le> length packet \<and> length packet \<le> MAX_MTU_SIZE - IP_UDP_HEADER_SIZE)"

interpretation bounding: peer_invariant e "\<lambda>p. app_makes_room e \<longrightarrow> queues_bounded p"
proof unfold_locales
  fix p q :: "'a peer" and cmd
  show "push_command cmd p = Some q \<Longrightarrow> app_makes_room e \<longrightarrow> queues_bounded p \<Longrightarrow>
      app_makes_room e \<longrightarrow> queues_bounded q"
    by (auto simp: push_command_def queues_bounded_def split: if_splits)
qed (auto simp: queues_bounded_def put_conn_def insert_conn_def send_message_def Let_def
    app_makes_room_def Suc_le_eq)

end
