(* ===== verification/Layer_Send.thy ===== *)
theory Layer_Send
  imports Layer Sliding_Window
begin

text \<open>
  The sending side of the layer: the invariant of the outgoing queue (a heap of fragments that
  fit a packet and whose weights cannot underflow), and what \<open>send\<close> puts into the queue,
  described by \<open>message_pieces\<close>.
\<close>

section \<open>The invariant of the outgoing queue\<close>

text \<open>A fragment of the queue carries the fields of its class, but for the reliable index.\<close>

definition labelled :: "fragment \<Rightarrow> bool" where
  "labelled f \<longleftrightarrow>
     reliable_index f = None \<and>
     (sequence_index f \<noteq> None \<longleftrightarrow> is_sequenced (reliability f)) \<and>
     (ordering_info f \<noteq> None \<longleftrightarrow> is_sequenced (reliability f) \<or> is_ordered (reliability f))"

definition factor :: "priority \<Rightarrow> usize" where
  "factor p = priority_factor (priority_index p)"

definition queued_ok :: "usize \<Rightarrow> outgoing_fragment \<Rightarrow> bool" where
  "queued_ok max_size o' \<longleftrightarrow>
     factor (send_priority o') \<le> weight o' \<and>
     labelled (outgoing o') \<and> calc_full_size (outgoing o') \<le> max_size"

definition sender_inv :: "'c layer \<Rightarrow> bool" where
  "sender_inv l \<longleftrightarrow>
     heap weight (outgoing_queue l) \<and>
     (\<forall>o' \<in># mset (outgoing_queue l). queued_ok (max_size_of_packet l) o') \<and>
     length (outgoing_next_weight l) = PRIORITY_COUNT \<and>
     (outgoing_queue l \<noteq> [] \<longrightarrow> (\<forall>p. factor p \<le> outgoing_next_weight l ! priority_index p)) \<and>
     length (send_ordering_index l) = ORDERING_CHANNEL_SIZE"

lemma sender_inv_new:
  assumes "layer_new cc now mtu = Some l"
  shows "sender_inv l" "max_size_of_packet l + 32 = mtu"
  using assms
  by (auto simp: layer_new_def sender_inv_def heap_def checked_arith
      HEADER_SIZE_def PACKET_HEADER_SIZE_def IP_UDP_HEADER_SIZE_def split: bind_splits)

definition queued :: "'c layer \<Rightarrow> fragment multiset" where
  "queued l = image_mset outgoing (mset (outgoing_queue l))"

lemma factor_le_next: "factor p \<le> priority_factor (priority_index p + 1)"
  by (cases p) (simp_all add: factor_def priority_factor_def)

lemma nth_init_next_weight:
  "outgoing_next_weight (init_next_weight l) ! priority_index p = factor p"
  by (cases p) (simp_all add: init_next_weight_def factor_def priority_factor_def PRIORITY_COUNT_def)

text \<open>The weight of a new fragment, without the arithmetic that could panic.\<close>

definition next_weight :: "priority \<Rightarrow> 'c layer \<Rightarrow> usize" where
  "next_weight p l =
     (case heap_peek (outgoing_queue l) of
        None \<Rightarrow> factor p
      | Some peek \<Rightarrow>
          let current = outgoing_next_weight l ! priority_index p;
              min_weight = weight peek - factor (send_priority peek)
          in if current < min_weight then min_weight + factor p else current)"

lemma peek_queued_ok:
  assumes "sender_inv l" "heap_peek (outgoing_queue l) = Some x"
  shows "queued_ok (max_size_of_packet l) x" "outgoing_queue l \<noteq> []"
  using assms heap.peek_least [of weight "outgoing_queue l" x]
  by (auto simp: sender_inv_def heap_peek_def)

lemma get_next_weight_spec:
  assumes "sender_inv l"
  shows "\<exists>ws. get_next_weight p l = Some (next_weight p l, l\<lparr>outgoing_next_weight := ws\<rparr>) \<and>
     length ws = PRIORITY_COUNT \<and> (\<forall>q. factor q \<le> ws ! priority_index q) \<and>
     factor p \<le> next_weight p l"
proof (cases "heap_peek (outgoing_queue l)")
  case None
  let ?l = "init_next_weight l"
  have "get_next_weight p l = Some (next_weight p l, ?l)"
    using None by (simp add: get_next_weight_def next_weight_def nth_init_next_weight Let_def)
  moreover have "?l = l\<lparr>outgoing_next_weight := outgoing_next_weight ?l\<rparr>"
    by (simp add: init_next_weight_def)
  moreover have "length (outgoing_next_weight ?l) = PRIORITY_COUNT"
    by (simp add: init_next_weight_def)
  ultimately show ?thesis
    using None nth_init_next_weight [of l]
    by (intro exI [of _ "outgoing_next_weight ?l"]) (simp add: next_weight_def)
next
  case (Some x)
  let ?w = "next_weight p l"
  let ?ws = "(outgoing_next_weight l)[priority_index p := ?w + priority_factor (priority_index p + 1)]"
  note x = peek_queued_ok [OF assms Some]
  have len: "length (outgoing_next_weight l) = PRIORITY_COUNT"
    using assms by (simp add: sender_inv_def)
  have next_ok: "factor q \<le> outgoing_next_weight l ! priority_index q" for q
    using assms x(2) by (simp add: sender_inv_def)
  have "size_sub (weight x) (priority_factor (priority_index (send_priority x)))
      = Some (weight x - factor (send_priority x))"
    using x(1) by (simp add: size_sub_def queued_ok_def factor_def)
  then have "get_next_weight p l = Some (?w, l\<lparr>outgoing_next_weight := ?ws\<rparr>)"
    using Some by (simp add: get_next_weight_def next_weight_def Let_def factor_def)
  moreover have "factor p \<le> ?w"
    using Some next_ok [of p] by (auto simp: next_weight_def Let_def)
  moreover have "factor q \<le> ?ws ! priority_index q" for q
    using next_ok [of q] factor_le_next [of p] len by (cases "q = p") auto
  ultimately show ?thesis using len by (intro exI [of _ ?ws]) simp
qed

lemma push_outgoing_spec:
  assumes "sender_inv l" "labelled f" "calc_full_size f \<le> max_size_of_packet l"
  shows "\<exists>q ws. push_outgoing p f l =
       Some (l\<lparr>outgoing_next_weight := ws, outgoing_queue := q\<rparr>) \<and>
     sender_inv (l\<lparr>outgoing_next_weight := ws, outgoing_queue := q\<rparr>) \<and>
     mset q = add_mset \<lparr>weight = next_weight p l, send_priority = p, outgoing = f\<rparr>
       (mset (outgoing_queue l))"
proof -
  obtain ws where ws: "get_next_weight p l = Some (next_weight p l, l\<lparr>outgoing_next_weight := ws\<rparr>)"
    "length ws = PRIORITY_COUNT" "\<forall>q. factor q \<le> ws ! priority_index q" "factor p \<le> next_weight p l"
    using get_next_weight_spec [OF assms(1)] by blast
  let ?o = "\<lparr>weight = next_weight p l, send_priority = p, outgoing = f\<rparr>"
  let ?q = "heap_push weight ?o (outgoing_queue l)"
  have heap: "heap weight (outgoing_queue l)" using assms(1) by (simp add: sender_inv_def)
  have "queued_ok (max_size_of_packet l) ?o"
    using assms(2,3) ws(4) by (simp add: queued_ok_def)
  then have "sender_inv (l\<lparr>outgoing_next_weight := ws, outgoing_queue := ?q\<rparr>)"
    using assms(1) ws(2,3) heap.invar_push [OF heap] heap.elems_push [OF heap]
    by (simp add: sender_inv_def)
  then show ?thesis
    using ws(1) heap.elems_push [OF heap] by (auto simp: push_outgoing_def)
qed

section \<open>The pieces of a message\<close>

definition piece_size :: "usize \<Rightarrow> fragment \<Rightarrow> usize" where
  "piece_size max_size f = max_size - calc_header_size f - SPLIT_INFO_SIZE"

definition piece_count :: "usize \<Rightarrow> fragment \<Rightarrow> usize" where
  "piece_count max_size f = (length (data f) - 1) div piece_size max_size f + 1"

definition piece :: "usize \<Rightarrow> u16 \<Rightarrow> fragment \<Rightarrow> nat \<Rightarrow> fragment" where
  "piece max_size id' f i =
     f\<lparr>split_info := Some \<lparr>split_size = word_of_nat (piece_count max_size f), split_id = id',
         split_index = word_of_nat i\<rparr>,
       data := take (piece_size max_size f) (drop (i * piece_size max_size f) (data f))\<rparr>"

definition message_pieces :: "usize \<Rightarrow> u16 \<Rightarrow> fragment \<Rightarrow> fragment list" where
  "message_pieces max_size id' f =
     (if calc_full_size f > max_size then map (piece max_size id' f) [0..<piece_count max_size f]
      else [f])"

lemma concat_chunks:
  assumes "0 < n"
  shows "concat (map (\<lambda>i. take n (drop (i * n) xs)) [0..<k]) = take (k * n) xs"
proof (induction k)
  case (Suc k)
  have "take (Suc k * n) xs = take (k * n) xs @ take n (drop (k * n) xs)"
    by (simp add: take_add [symmetric] add.commute)
  with Suc show ?case by simp
qed simp

lemma message_pieces_data:
  assumes "calc_header_size f + SPLIT_INFO_SIZE < max_size"
  shows "concat (map data (message_pieces max_size id' f)) = data f"
proof (cases "calc_full_size f > max_size")
  case True
  let ?n = "piece_size max_size f"
  have n: "0 < ?n" using assms by (simp add: piece_size_def)
  have "length (data f) \<le> piece_count max_size f * ?n"
    using dividend_less_div_times [OF n, of "length (data f) - 1"]
    by (simp add: piece_count_def add.commute)
  then show ?thesis
    using True concat_chunks [OF n, of "data f" "piece_count max_size f"]
    by (simp add: message_pieces_def comp_def piece_def)
qed (simp add: message_pieces_def)

lemma calc_full_size_piece:
  assumes "calc_header_size f + SPLIT_INFO_SIZE < max_size" "split_info f = None"
  shows "calc_full_size (piece max_size id' f i) \<le> max_size"
proof -
  have "calc_header_size (piece max_size id' f i) = calc_header_size f + SPLIT_INFO_SIZE"
    using assms(2) by (simp add: calc_header_size_def piece_def SPLIT_INFO_SIZE_def)
  moreover have "length (data (piece max_size id' f i)) \<le> piece_size max_size f"
    by (simp add: piece_def)
  ultimately show ?thesis using assms(1) by (simp add: calc_full_size_def piece_size_def)
qed

lemma labelled_piece [simp]: "labelled (piece max_size id' f i) = labelled f"
  by (simp add: labelled_def piece_def)

lemma split_loop_spec:
  assumes "sender_inv l" "labelled f" "split_info f = None"
    and room: "calc_header_size f + SPLIT_INFO_SIZE < max_size_of_packet l"
  shows "\<exists>q ws. split_loop p (f\<lparr>data := []\<rparr>) (piece_size (max_size_of_packet l) f)
         (piece_count (max_size_of_packet l) f) i k
         (drop (i * piece_size (max_size_of_packet l) f) (data f)) l =
       Some (l\<lparr>outgoing_next_weight := ws, outgoing_queue := q\<rparr>) \<and>
     sender_inv (l\<lparr>outgoing_next_weight := ws, outgoing_queue := q\<rparr>) \<and>
     image_mset outgoing (mset q) =
       queued l + mset (map (piece (max_size_of_packet l) (send_split_id l) f) [i..<i + k])"
  using assms(1,4)
proof (induction k arbitrary: i l)
  case 0
  then show ?case
    by (intro exI [of _ "outgoing_queue l"] exI [of _ "outgoing_next_weight l"]) (simp add: queued_def)
next
  case (Suc k)
  let ?m = "max_size_of_packet l" and ?id = "send_split_id l"
  let ?n = "piece_size ?m f" and ?f = "piece ?m ?id f i"
  obtain q ws where q: "push_outgoing p ?f l = Some (l\<lparr>outgoing_next_weight := ws, outgoing_queue := q\<rparr>)"
    "sender_inv (l\<lparr>outgoing_next_weight := ws, outgoing_queue := q\<rparr>)"
    "mset q = add_mset \<lparr>weight = next_weight p l, send_priority = p, outgoing = ?f\<rparr>
       (mset (outgoing_queue l))"
    using push_outgoing_spec [OF Suc.prems(1), of ?f p] assms(2,3) Suc.prems(2)
      calc_full_size_piece by (metis labelled_piece)
  let ?l = "l\<lparr>outgoing_next_weight := ws, outgoing_queue := q\<rparr>"
  have same: "max_size_of_packet ?l = ?m" "send_split_id ?l = ?id" by simp_all
  have take: "take (min (length (drop (i * ?n) (data f))) ?n) (drop (i * ?n) (data f))
      = take ?n (drop (i * ?n) (data f))"
    by (simp add: min_def)
  have drop: "drop (min (length (drop (i * ?n) (data f))) ?n) (drop (i * ?n) (data f))
      = drop (Suc i * ?n) (data f)"
    by (simp add: min_def add.commute)
  have f: "f\<lparr>data := [], split_info := Some \<lparr>split_size = word_of_nat (piece_count ?m f),
        split_id = ?id, split_index = word_of_nat i\<rparr>, data := take ?n (drop (i * ?n) (data f))\<rparr> = ?f"
    by (simp add: piece_def)
  have step: "split_loop p (f\<lparr>data := []\<rparr>) ?n (piece_count ?m f) i (Suc k) (drop (i * ?n) (data f)) l
      = split_loop p (f\<lparr>data := []\<rparr>) ?n (piece_count ?m f) (Suc i) k (drop (Suc i * ?n) (data f)) ?l"
    unfolding split_loop.simps Let_def take drop f q(1) by simp
  obtain q' ws' where q': "split_loop p (f\<lparr>data := []\<rparr>) ?n (piece_count ?m f) (Suc i) k
        (drop (Suc i * ?n) (data f)) ?l = Some (?l\<lparr>outgoing_next_weight := ws', outgoing_queue := q'\<rparr>)"
    "sender_inv (?l\<lparr>outgoing_next_weight := ws', outgoing_queue := q'\<rparr>)"
    "image_mset outgoing (mset q') = queued ?l + mset (map (piece ?m ?id f) [Suc i..<Suc i + k])"
    using Suc.IH [OF q(2), of "Suc i"] Suc.prems(2) unfolding same by blast
  have "queued ?l = add_mset ?f (queued l)" using q(3) by (simp add: queued_def)
  moreover have "[i..<i + Suc k] = i # [Suc i..<Suc i + k]" by (simp add: upt_conv_Cons)
  ultimately have "image_mset outgoing (mset q') = queued l + mset (map (piece ?m ?id f) [i..<i + Suc k])"
    using q'(3) by simp
  then show ?case
    using step q'(1,2) by (intro exI [of _ q'] exI [of _ ws']) simp
qed

lemma split_fragment_spec:
  assumes "sender_inv l" "labelled f" "split_info f = None"
    and room: "calc_header_size f + SPLIT_INFO_SIZE < max_size_of_packet l"
    and large: "calc_full_size f > max_size_of_packet l"
    and ids: "unat (send_split_id l) + 1 < 2 ^ 16"
  shows "\<exists>q ws. split_fragment p f l =
       Some (l\<lparr>outgoing_next_weight := ws, outgoing_queue := q, send_split_id := send_split_id l + 1\<rparr>) \<and>
     sender_inv (l\<lparr>outgoing_next_weight := ws, outgoing_queue := q, send_split_id := send_split_id l + 1\<rparr>) \<and>
     image_mset outgoing (mset q) =
       queued l + mset (message_pieces (max_size_of_packet l) (send_split_id l) f)"
proof -
  let ?m = "max_size_of_packet l" and ?id = "send_split_id l"
  have header: "calc_header_size (f\<lparr>data := []\<rparr>) = calc_header_size f"
    by (simp add: calc_header_size_def)
  have a: "size_sub ?m (calc_header_size (f\<lparr>data := []\<rparr>)) = Some (?m - calc_header_size f)"
    "size_sub (?m - calc_header_size f) SPLIT_INFO_SIZE = Some (piece_size ?m f)"
    using room by (simp_all add: header size_sub_def piece_size_def)
  have "data f \<noteq> []" using room large by (auto simp: calc_full_size_def)
  then have b: "size_sub (length (data f)) 1 = Some (length (data f) - 1)"
    by (simp add: size_sub_def Suc_le_eq)
  have c: "size_div (length (data f) - 1) (piece_size ?m f)
      = Some ((length (data f) - 1) div piece_size ?m f)"
    using room by (simp add: size_div_def piece_size_def)
  obtain q ws where q: "split_loop p (f\<lparr>data := []\<rparr>) (piece_size ?m f) (piece_count ?m f) 0
        (piece_count ?m f) (data f) l = Some (l\<lparr>outgoing_next_weight := ws, outgoing_queue := q\<rparr>)"
    "sender_inv (l\<lparr>outgoing_next_weight := ws, outgoing_queue := q\<rparr>)"
    "image_mset outgoing (mset q) = queued l + mset (map (piece ?m ?id f) [0..<piece_count ?m f])"
    using split_loop_spec [OF assms(1-3) room, of p 0 "piece_count ?m f"] by auto
  have id: "uadd ?id 1 = Some (?id + 1)" using ids by (simp add: uadd_def)
  have "split_fragment p f l =
      Some (l\<lparr>outgoing_next_weight := ws, outgoing_queue := q, send_split_id := ?id + 1\<rparr>)"
    using q(1) id
    by (simp add: split_fragment_def Let_def a b c piece_count_def del: One_nat_def)
  moreover have "sender_inv (l\<lparr>outgoing_next_weight := ws, outgoing_queue := q, send_split_id := ?id + 1\<rparr>)"
    using q(2) by (simp add: sender_inv_def)
  ultimately show ?thesis using q(3) large by (auto simp: message_pieces_def)
qed

section \<open>What \<open>send\<close> queues\<close>

definition new_fragment :: "reliability \<Rightarrow> u8 \<Rightarrow> bytes \<Rightarrow> 'c layer \<Rightarrow> fragment" where
  "new_fragment r ch bs l =
     \<lparr>reliability = r, reliable_index = None,
      sequence_index = (if is_sequenced r then Some (send_sequence_index l) else None),
      ordering_info =
        (if is_sequenced r \<or> is_ordered r then
           Some \<lparr>ordering_index = send_ordering_index l ! unat ch, channel = ch\<rparr>
         else None),
      split_info = None, data = bs\<rparr>"

definition number_message :: "reliability \<Rightarrow> u8 \<Rightarrow> 'c layer \<Rightarrow> 'c layer" where
  "number_message r ch l =
     (if is_sequenced r then l\<lparr>send_sequence_index := send_sequence_index l + 1\<rparr>
      else if is_ordered r then
        l\<lparr>send_sequence_index := 0,
          send_ordering_index := (send_ordering_index l)
            [unat ch := send_ordering_index l ! unat ch + 1]\<rparr>
      else l)"

text \<open>The counters of the sender have not reached their limits, and a packet holds a split piece.\<close>

definition sender_room :: "u8 \<Rightarrow> 'c layer \<Rightarrow> bool" where
  "sender_room ch l \<longleftrightarrow>
     unat ch < ORDERING_CHANNEL_SIZE \<and>
     unat (send_sequence_index l) + 1 < 2 ^ 32 \<and>
     unat (send_ordering_index l ! unat ch) + 1 < 2 ^ 32 \<and>
     unat (send_split_id l) + 1 < 2 ^ 16 \<and>
     24 \<le> max_size_of_packet l"

lemma label_fragment_spec:
  assumes "sender_inv l" "sender_room ch l"
  shows "label_fragment r ch bs l = Some (new_fragment r ch bs l, number_message r ch l)"
proof -
  have "uadd (send_sequence_index l) 1 = Some (send_sequence_index l + 1)"
    "uadd (send_ordering_index l ! unat ch) 1 = Some (send_ordering_index l ! unat ch + 1)"
    "array_get (send_ordering_index l) (unat ch) = Some (send_ordering_index l ! unat ch)"
    using assms by (auto simp: sender_room_def sender_inv_def uadd_def array_get_def)
  then show ?thesis
    by (simp add: label_fragment_def new_fragment_def number_message_def Let_def)
qed

lemma labelled_new_fragment [simp]: "labelled (new_fragment r ch bs l)"
  by (simp add: labelled_def new_fragment_def)

lemma new_fragment_fields [simp]:
  "data (new_fragment r ch bs l) = bs" "reliability (new_fragment r ch bs l) = r"
  "split_info (new_fragment r ch bs l) = None"
  by (simp_all add: new_fragment_def)

lemma header_new_fragment: "calc_header_size (new_fragment r ch bs l) \<le> 13"
  by (simp add: calc_header_size_def)

lemma number_message_simps [simp]:
  "max_size_of_packet (number_message r ch l) = max_size_of_packet l"
  "send_split_id (number_message r ch l) = send_split_id l"
  "outgoing_queue (number_message r ch l) = outgoing_queue l"
  "queued (number_message r ch l) = queued l"
  "output_queue (number_message r ch l) = output_queue l"
  by (simp_all add: number_message_def queued_def)

lemma sender_inv_number_message: "sender_inv l \<Longrightarrow> sender_inv (number_message r ch l)"
  by (simp add: number_message_def sender_inv_def)

lemma send_spec:
  assumes "sender_inv l" "sender_room ch l"
  shows "\<exists>l'. send p r ch bs l = Some l' \<and> sender_inv l' \<and>
     max_size_of_packet l' = max_size_of_packet l \<and>
     send_ordering_index l' = send_ordering_index (number_message r ch l) \<and>
     send_sequence_index l' = send_sequence_index (number_message r ch l) \<and>
     unat (send_split_id l') \<le> unat (send_split_id l) + 1 \<and>
     queued l' = queued l +
       mset (message_pieces (max_size_of_packet l) (send_split_id l) (new_fragment r ch bs l))"
proof -
  let ?m = "max_size_of_packet l" and ?l = "number_message r ch l" and ?f = "new_fragment r ch bs l"
  have inv: "sender_inv ?l" using assms(1) by (rule sender_inv_number_message)
  have room: "calc_header_size ?f + SPLIT_INFO_SIZE < max_size_of_packet ?l"
    using assms(2) header_new_fragment [of r ch bs l] by (simp add: sender_room_def SPLIT_INFO_SIZE_def)
  have send: "send p r ch bs l =
      (if calc_full_size ?f > ?m then split_fragment p ?f ?l else push_outgoing p ?f ?l)"
    by (simp add: send_def label_fragment_spec [OF assms])
  show ?thesis
  proof (cases "calc_full_size ?f > ?m")
    case True
    moreover have id: "unat (send_split_id ?l) + 1 < 2 ^ 16"
      using assms(2) by (simp add: sender_room_def)
    moreover have "unat (send_split_id l + 1) = unat (send_split_id l) + 1"
      using id by (simp add: unat_word_ariths)
    ultimately show ?thesis
      using split_fragment_spec [OF inv labelled_new_fragment new_fragment_fields(3) room, of p] send
      by (auto simp: queued_def)
  next
    case False
    then show ?thesis
      using push_outgoing_spec [OF inv labelled_new_fragment, of r ch bs l p] send
      by (auto simp: queued_def message_pieces_def)
  qed
qed

text \<open>A layer on which \<open>k\<close> more messages can be sent, whatever they are.\<close>

definition sender_ready :: "nat \<Rightarrow> 'c layer \<Rightarrow> bool" where
  "sender_ready k l \<longleftrightarrow>
     sender_inv l \<and> 24 \<le> max_size_of_packet l \<and>
     unat (send_sequence_index l) + k < 2 ^ 32 \<and>
     (\<forall>i < ORDERING_CHANNEL_SIZE. unat (send_ordering_index l ! i) + k < 2 ^ 32) \<and>
     unat (send_split_id l) + k < 2 ^ 16"

lemma send_ready:
  assumes "sender_ready (Suc k) l" "unat ch < ORDERING_CHANNEL_SIZE"
  shows "\<exists>l'. send p r ch bs l = Some l' \<and> sender_ready k l' \<and>
     max_size_of_packet l' = max_size_of_packet l \<and>
     queued l' = queued l +
       mset (message_pieces (max_size_of_packet l) (send_split_id l) (new_fragment r ch bs l))"
proof -
  have "sender_room ch l" "sender_inv l"
    using assms by (auto simp: sender_ready_def sender_room_def)
  then obtain l' where l': "send p r ch bs l = Some l'" "sender_inv l'"
    "max_size_of_packet l' = max_size_of_packet l"
    "send_ordering_index l' = send_ordering_index (number_message r ch l)"
    "send_sequence_index l' = send_sequence_index (number_message r ch l)"
    "unat (send_split_id l') \<le> unat (send_split_id l) + 1"
    "queued l' = queued l +
       mset (message_pieces (max_size_of_packet l) (send_split_id l) (new_fragment r ch bs l))"
    using send_spec [of l ch p r bs] by blast
  have succ: "unat (n + 1) = unat n + 1" if "unat n + 1 < 2 ^ 32" for n :: u32
    using that by (simp add: unat_word_ariths)
  have seq: "unat (send_sequence_index l') \<le> unat (send_sequence_index l) + 1"
    using assms succ [of "send_sequence_index l"]
    by (simp add: l'(5) number_message_def sender_ready_def)
  have "unat (send_ordering_index l' ! i) + k < 2 ^ 32" if "i < ORDERING_CHANNEL_SIZE" for i
    using assms that succ [of "send_ordering_index l ! i"]
    by (auto simp: l'(4) number_message_def sender_ready_def sender_inv_def nth_list_update)
  then have "sender_ready k l'"
    using l'(2,3,6) seq assms by (auto simp: sender_ready_def)
  then show ?thesis using l' by blast
qed

section \<open>Properties\<close>

definition sample_layer :: "sliding_window_state layer" where
  "sample_layer = the (layer_new sliding_window 0 1492)"

lemma sample_layer_new: "layer_new sliding_window 0 1492 = Some sample_layer"
  by (simp add: sample_layer_def layer_new_def size_sub_def
      HEADER_SIZE_def PACKET_HEADER_SIZE_def IP_UDP_HEADER_SIZE_def)

lemma sample_layer_fields:
  "outgoing_queue sample_layer = []" "max_size_of_packet sample_layer = 1460"
  "send_ordering_index sample_layer = replicate 32 0" "send_sequence_index sample_layer = 0"
  "send_split_id sample_layer = 0" "output_queue sample_layer = []"
  "reliable_window sample_layer = window_new 512" "split_fragments sample_layer = Map.empty"
  "recv_ordering_index sample_layer = replicate 32 0"
  "recv_sequence_index sample_layer = replicate 32 0"
  "ordered_fragments sample_layer = replicate 32 []"
  "send_reliable_index sample_layer = 0" "retransmit_cache sample_layer = cache_new"
  "controller sample_layer = sw_new 1464" "bandwidth_exceeded sample_layer = False"
  "seq_window sample_layer = window_new 128" "acks sample_layer = []" "naks sample_layer = []"
  by (simp_all add: sample_layer_def layer_new_def size_sub_def HEADER_SIZE_def
      PACKET_HEADER_SIZE_def IP_UDP_HEADER_SIZE_def ORDERING_CHANNEL_SIZE_def
      RELIABLE_WINDOW_SIZE_def SEQ_WINDOW_SIZE_def)

lemma sample_layer_room: "sender_inv sample_layer" "unat ch < 32 \<Longrightarrow> sender_room ch sample_layer"
  using sender_inv_new(1) [OF sample_layer_new]
  by (simp_all add: sender_room_def sample_layer_fields ORDERING_CHANNEL_SIZE_def)

text \<open>C13: \<open>send\<close> returns and adds to the outgoing queue exactly the pieces of its message: one
  fragment when it fits a packet, otherwise the pieces of the split message in their order, all
  with the next split id, and nothing that was queued is lost.\<close>
theorem send_queues_pieces:
  assumes "sender_inv l" and "sender_room ch l"
  shows "\<exists>l'. send p r ch bs l = Some l' \<and>
     queued l' = queued l +
       mset (message_pieces (max_size_of_packet l) (send_split_id l) (new_fragment r ch bs l))"
  using send_spec [OF assms, of p r bs] by blast

theorem send_queues_pieces_witness:
  "\<exists>l'. send High Reliable 0 [1, 2, 3] sample_layer = Some l' \<and>
     queued l' = {#new_fragment Reliable 0 [1, 2, 3] sample_layer#}"
proof -
  have "sender_room 0 sample_layer" by (simp add: sample_layer_room)
  moreover have "message_pieces 1460 0 (new_fragment Reliable 0 [1, 2, 3] sample_layer)
      = [new_fragment Reliable 0 [1, 2, 3] sample_layer]"
    by (simp add: message_pieces_def calc_full_size_def calc_header_size_def)
  ultimately show ?thesis
    using send_queues_pieces [OF sample_layer_room(1), of 0 High Reliable "[1, 2, 3]"]
    by (simp add: sample_layer_fields queued_def)
qed

text \<open>C14: \<open>send\<close> keeps the queue sendable: it stays a heap by weight, every fragment in it fits a
  packet and carries the fields of its class, and no later weight computation can underflow.\<close>
theorem send_keeps_queue_sendable:
  assumes "sender_inv l" and "sender_room ch l"
  shows "pred_option sender_inv (send p r ch bs l)"
  using send_spec [OF assms, of p r bs] by auto

theorem send_keeps_queue_sendable_witness:
  "pred_option sender_inv (send Low ReliableOrdered 3 (replicate 5000 7) sample_layer)"
  using send_keeps_queue_sendable [OF sample_layer_room(1), of 3 Low ReliableOrdered]
  by (simp add: sample_layer_room)

text \<open>The pieces of a message, put together in their order, are the message, for every payload
  and every packet size that leaves room for one byte per piece.\<close>
theorem pieces_rebuild_message:
  assumes "calc_header_size f + SPLIT_INFO_SIZE < max_size"
  shows "concat (map data (message_pieces max_size id' f)) = data f"
  by (rule message_pieces_data [OF assms])

theorem pieces_rebuild_message_witness:
  "concat (map data (message_pieces 30 0 (new_fragment Reliable 0 (replicate 100 9) sample_layer)))
     = replicate 100 9"
  using pieces_rebuild_message [of "new_fragment Reliable 0 (replicate 100 9) sample_layer" 30 0]
  by (simp add: calc_header_size_def SPLIT_INFO_SIZE_def)

fun pop_fragments :: "nat \<Rightarrow> outgoing_fragment list \<Rightarrow> fragment list" where
  "pop_fragments 0 queue = []"
| "pop_fragments (Suc n) queue =
     (case heap_pop weight queue of
        None \<Rightarrow> []
      | Some (x, queue) \<Rightarrow> outgoing x # pop_fragments n queue)"

text \<open>Messages of one priority can leave in the wrong order. The weight given to the first
  message of an empty queue is given to the second one as well, so a more urgent message in
  between makes the heap release the second before the first.\<close>
theorem equal_priority_reordered:
  "map_option (\<lambda>l. map data (pop_fragments 3 (outgoing_queue l)))
     (do {
        l \<leftarrow> send Low Reliable 0 [1] sample_layer;
        l \<leftarrow> send Low Reliable 0 [2] l;
        send Immediate Reliable 0 [3] l
      }) = Some [[3], [2], [1]]"
  by (simp add: send_def label_fragment_def push_outgoing_def get_next_weight_def Let_def
      calc_full_size_def calc_header_size_def sample_layer_fields heap_peek_def init_next_weight_def
      heap_push_def sift_up.simps exchange_def heap_pop_def sift_down_to_bottom.simps
      PRIORITY_COUNT_def priority_factor_def size_sub_def numeral_eq_Suc)

end
