(* ===== verification/Layer_Receive.thy ===== *)
theory Layer_Receive
  imports Layer_Send "HOL-Library.Sublist"
begin

text \<open>
  The receiving side of the layer: reassembly of split messages in any order, removal of
  duplicates by the reliable window, and the ordering and sequencing of a channel. The theorems
  also show where the code departs from its promise: a gap in an ordering channel, and a channel
  number or a split size chosen by the sender.
\<close>

section \<open>Reassembly\<close>

text \<open>The state of the reassembly of one message: the pieces that have arrived.\<close>

definition assembled :: "usize \<Rightarrow> (nat \<Rightarrow> bytes) \<Rightarrow> nat set \<Rightarrow> bytes option list" where
  "assembled n chunk arrived = map (\<lambda>i. if i \<in> arrived then Some (chunk i) else None) [0..<n]"

lemma length_assembled [simp]: "length (assembled n chunk arrived) = n"
  by (simp add: assembled_def)

lemma assembled_empty: "assembled n chunk {} = replicate n None"
  by (simp add: assembled_def map_replicate_const)

lemma assembled_insert:
  "i < n \<Longrightarrow> (assembled n chunk arrived)[i := Some (chunk i)] = assembled n chunk (insert i arrived)"
  by (rule nth_equalityI) (auto simp: assembled_def nth_list_update)

lemma assembled_full:
  "list_all (\<lambda>p. p \<noteq> None) (assembled n chunk arrived) \<longleftrightarrow> {..<n} \<subseteq> arrived"
  by (auto simp: assembled_def list_all_iff)

text \<open>A piece of the message \<open>id'\<close> of \<open>n\<close> pieces, whatever its other fields are.\<close>

definition is_piece :: "u16 \<Rightarrow> usize \<Rightarrow> (nat \<Rightarrow> bytes) \<Rightarrow> nat \<Rightarrow> fragment \<Rightarrow> bool" where
  "is_piece id' n chunk i f \<longleftrightarrow>
     (\<exists>si. split_info f = Some si \<and> split_id si = id' \<and> unat (split_size si) = n \<and>
        unat (split_index si) = i) \<and> i < n \<and> data f = chunk i"

text \<open>What the layer holds for message \<open>id'\<close> when the pieces \<open>arrived\<close> have come.\<close>

definition holds_pieces :: "u16 \<Rightarrow> usize \<Rightarrow> (nat \<Rightarrow> bytes) \<Rightarrow> nat set \<Rightarrow> 'c layer \<Rightarrow> bool" where
  "holds_pieces id' n chunk arrived l \<longleftrightarrow>
     split_fragments l id' = (if arrived = {} then None else Some (assembled n chunk arrived))"

lemma build_split_fragment_first:
  assumes "holds_pieces id' n chunk {} l" "is_piece id' n chunk i f"
  shows "build_split_fragment f l =
     Some (None, l\<lparr>split_fragments := (split_fragments l)(id' \<mapsto> assembled n chunk {i})\<rparr>)"
proof -
  obtain si where si: "split_info f = Some si" "split_id si = id'" "unat (split_size si) = n"
    "unat (split_index si) = i" "i < n" "data f = chunk i"
    using assms(2) by (auto simp: is_piece_def)
  have "\<not> split_index si \<ge> split_size si" using si by (simp add: word_le_nat_alt)
  moreover have "array_set (replicate n None) i (Some (chunk i)) = Some (assembled n chunk {i})"
    using assembled_insert [OF si(5), of chunk "{}"] si(5)
    by (simp add: array_set_def assembled_empty)
  ultimately show ?thesis
    using assms(1) si by (simp add: build_split_fragment_def holds_pieces_def)
qed

lemma build_split_fragment_more:
  assumes "holds_pieces id' n chunk arrived l" "arrived \<noteq> {}" "is_piece id' n chunk i f"
  shows "build_split_fragment f l =
     (if {..<n} \<subseteq> insert i arrived then
        Some (Some (f\<lparr>data := concat (map chunk [0..<n])\<rparr>),
              l\<lparr>split_fragments := (split_fragments l)(id' := None)\<rparr>)
      else
        Some (None,
          l\<lparr>split_fragments := (split_fragments l)(id' \<mapsto> assembled n chunk (insert i arrived))\<rparr>))"
proof -
  obtain si where si: "split_info f = Some si" "split_id si = id'" "unat (split_size si) = n"
    "unat (split_index si) = i" "i < n" "data f = chunk i"
    using assms(3) by (auto simp: is_piece_def)
  have "\<not> split_index si \<ge> split_size si" using si by (simp add: word_le_nat_alt)
  moreover have "array_set (assembled n chunk arrived) i (Some (chunk i))
      = Some (assembled n chunk (insert i arrived))"
    using assembled_insert [OF si(5), of chunk arrived] si(5) by (simp add: array_set_def)
  moreover have "map the (assembled n chunk (insert i arrived)) = map chunk [0..<n]"
    if "{..<n} \<subseteq> insert i arrived"
    using that by (auto simp: assembled_def)
  ultimately show ?thesis
    using assms(1,2) si
    by (simp add: build_split_fragment_def holds_pieces_def assembled_full del: not_None_eq)
qed

section \<open>Fragments that pass the duplicate check\<close>

text \<open>A run of fragments that are new: each goes to \<open>handle_unique_fragment\<close>.\<close>

fun handle_unique_fragments :: "fragment list \<Rightarrow> 'c layer \<Rightarrow> 'c layer option" where
  "handle_unique_fragments [] l = Some l"
| "handle_unique_fragments (f # fs) l =
     do {
       l \<leftarrow> handle_unique_fragment f l;
       handle_unique_fragments fs l
     }"

lemma handle_unique_fragments_append:
  "handle_unique_fragments (fs @ gs) l =
     do {
       l \<leftarrow> handle_unique_fragments fs l;
       handle_unique_fragments gs l
     }"
  by (induction fs arbitrary: l) (simp_all split: bind_split)

text \<open>Pieces that do not complete the message are kept and change nothing else.\<close>

lemma pieces_kept:
  assumes "holds_pieces id' n chunk arrived l"
    and "length fs = length is" "\<forall>k < length is. is_piece id' n chunk (is ! k) (fs ! k)"
    and "\<not> {..<n} \<subseteq> arrived \<union> set is" "distinct is" "arrived \<inter> set is = {}" "is \<noteq> [] \<or> arrived \<noteq> {}"
    and "1 < n"
  shows "handle_unique_fragments fs l =
     Some (l\<lparr>split_fragments := (split_fragments l)(id' \<mapsto> assembled n chunk (arrived \<union> set is))\<rparr>)"
  using assms
proof (induction "is" arbitrary: fs arrived l)
  case Nil
  then show ?case by (auto simp: holds_pieces_def fun_upd_idem)
next
  case (Cons i "is")
  obtain f gs where fs: "fs = f # gs" "length gs = length is" using Cons.prems(2) by (cases fs) auto
  have f: "is_piece id' n chunk i f" using Cons.prems(3) fs by auto
  have gs: "\<forall>k < length is. is_piece id' n chunk (is ! k) (gs ! k)"
    using Cons.prems(3) fs by force
  let ?l = "l\<lparr>split_fragments := (split_fragments l)(id' \<mapsto> assembled n chunk (insert i arrived))\<rparr>"
  have split: "split_info f \<noteq> None" using f by (auto simp: is_piece_def)
  have "handle_unique_fragment f l = Some ?l"
  proof (cases "arrived = {}")
    case True
    with Cons.prems(1) f split show ?thesis
      by (simp add: handle_unique_fragment_def build_split_fragment_first)
  next
    case False
    moreover have "\<not> {..<n} \<subseteq> insert i arrived" using Cons.prems(4) by auto
    ultimately show ?thesis
      using Cons.prems(1) f split
      by (simp add: handle_unique_fragment_def build_split_fragment_more)
  qed
  moreover have "holds_pieces id' n chunk (insert i arrived) ?l"
    by (simp add: holds_pieces_def)
  moreover have "handle_unique_fragments gs ?l =
     Some (?l\<lparr>split_fragments := (split_fragments ?l)
       (id' \<mapsto> assembled n chunk (insert i arrived \<union> set is))\<rparr>)"
  proof (rule Cons.IH)
    show "\<not> {..<n} \<subseteq> insert i arrived \<union> set is" using Cons.prems(4) by simp
    show "distinct is" "insert i arrived \<inter> set is = {}" using Cons.prems(5,6) by auto
  qed (use fs gs Cons.prems(8) \<open>holds_pieces id' n chunk (insert i arrived) ?l\<close> in simp_all)
  ultimately show ?case
    by (simp add: fs)
      (rule arg_cong [where f = "\<lambda>m. l\<lparr>split_fragments := m\<rparr>"], auto simp: fun_eq_iff)
qed

lemma pieces_complete:
  assumes "split_fragments l id' = None" "1 < n" "length fs = n" "length is = n" "distinct is"
    "set is = {..<n}" "\<forall>k < n. is_piece id' n chunk (is ! k) (fs ! k)"
  shows "handle_unique_fragments fs l =
     deliver ((last fs)\<lparr>data := concat (map chunk [0..<n])\<rparr>) l"
proof -
  obtain js j where "is": "is = js @ [j]"
    using assms(2,4) by (cases "is" rule: rev_cases) auto
  obtain gs f where fs: "fs = gs @ [f]"
    using assms(2,3) by (cases fs rule: rev_cases) auto
  have len: "length gs = length js" "n = Suc (length js)" using "is" fs assms(3,4) by auto
  have f: "is_piece id' n chunk j f"
    using assms(7) [rule_format, of "length js"] len by (simp add: "is" fs nth_append)
  have gs: "\<forall>k < length js. is_piece id' n chunk (js ! k) (gs ! k)"
  proof (intro allI impI)
    fix k assume k: "k < length js"
    then show "is_piece id' n chunk (js ! k) (gs ! k)"
      using assms(7) [rule_format, of k] len by (simp add: "is" fs nth_append)
  qed
  have j: "j \<notin> set js" "insert j (set js) = {..<n}" using assms(5,6) "is" by auto
  have "j < n" using j(2) by auto
  have ne: "js \<noteq> []" using assms(2) len by auto
  let ?l = "l\<lparr>split_fragments := (split_fragments l)(id' \<mapsto> assembled n chunk (set js))\<rparr>"
  have "handle_unique_fragments gs l = Some ?l"
    using pieces_kept [of id' n chunk "{}" l gs js] assms(1,2,5) len gs j \<open>j < n\<close> ne "is"
    by (auto simp: holds_pieces_def)
  moreover have "build_split_fragment f ?l = Some (Some (f\<lparr>data := concat (map chunk [0..<n])\<rparr>), l)"
  proof -
    have "holds_pieces id' n chunk (set js) ?l" using ne by (simp add: holds_pieces_def)
    moreover have "?l\<lparr>split_fragments := (split_fragments ?l)(id' := None)\<rparr> = l"
      using assms(1) by (simp add: fun_upd_idem)
    ultimately show ?thesis
      using build_split_fragment_more [of id' n chunk "set js" ?l j f] f ne j(2) by simp
  qed
  moreover have "split_info f \<noteq> None" using f by (auto simp: is_piece_def)
  ultimately show ?thesis
    by (cases "deliver (f\<lparr>data := concat (map chunk [0..<n])\<rparr>) l")
      (simp_all add: fs handle_unique_fragments_append handle_unique_fragment_def)
qed

section \<open>The duplicate check\<close>

definition set_window :: "unit window \<Rightarrow> 'c layer \<Rightarrow> 'c layer" where
  "set_window w l = l\<lparr>reliable_window := w\<rparr>"

lemma set_window_simps [simp]:
  "reliable_window (set_window w l) = w" "split_fragments (set_window w l) = split_fragments l"
  "output_queue (set_window w l) = output_queue l"
  "recv_ordering_index (set_window w l) = recv_ordering_index l"
  "recv_sequence_index (set_window w l) = recv_sequence_index l"
  "ordered_fragments (set_window w l) = ordered_fragments l"
  "set_window w (set_window v l) = set_window w l" "set_window (reliable_window l) l = l"
  by (simp_all add: set_window_def)

lemma build_split_fragment_window:
  "build_split_fragment f (set_window w l) =
     map_option (map_prod id (set_window w)) (build_split_fragment f l)"
  by (auto simp: build_split_fragment_def set_window_def Let_def
      split: bind_split option.split)

lemma handle_ordered_window:
  "handle_ordered oi f (set_window w l) = map_option (set_window w) (handle_ordered oi f l)"
  by (auto simp: handle_ordered_def set_window_def Let_def split: bind_split option.split)

lemma deliver_window: "deliver f (set_window w l) = map_option (set_window w) (deliver f l)"
  by (auto simp: deliver_def handle_ordered_window split: option.split) (simp add: set_window_def)

lemma handle_unique_fragment_window:
  "handle_unique_fragment f (set_window w l) = map_option (set_window w) (handle_unique_fragment f l)"
  by (auto simp: handle_unique_fragment_def build_split_fragment_window deliver_window
      split: bind_split option.split)

text \<open>A fragment whose number has not been seen is handled, and its number becomes seen.\<close>

lemma handle_fragment_fresh:
  assumes "room_for 512 limit (reliable_window l)" "seen 512 (reliable_window l) \<subseteq> {..<limit}"
    "reliable_index f = Some index" "unat index < limit" "unat index \<notin> seen 512 (reliable_window l)"
  shows "\<exists>w. handle_fragment f l =
       map_option (\<lambda>l'. (Inr (), set_window w l')) (handle_unique_fragment f l) \<and>
     room_for 512 limit w \<and> seen 512 w = insert (unat index) (seen 512 (reliable_window l))"
proof -
  obtain w where w: "insert_and_shift 512 index () (reliable_window l) = Some (Inr True, w)"
    "room_for 512 limit w" "seen 512 w = insert (unat index) (seen 512 (reliable_window l))"
    using ring.accept_unseen [OF assms(1,2,4,5), of "()"] by blast
  then obtain v count where v: "window_insert 512 index () (reliable_window l) = (Inr True, v)"
    "window_shift 512 v = Some (count, w)"
    by (auto simp: insert_and_shift_def split: prod.splits sum.splits bool.splits bind_splits)
  then have "handle_fragment f l = handle_unique_fragment f (set_window w l) \<bind> (\<lambda>l. Some (Inr (), l))"
    using assms(3) by (simp add: handle_fragment_def RELIABLE_WINDOW_SIZE_def set_window_def)
  also have "\<dots> = map_option (\<lambda>l'. (Inr (), set_window w l')) (handle_unique_fragment f l)"
    by (cases "handle_unique_fragment f l") (simp_all add: handle_unique_fragment_window)
  finally show ?thesis using w(2,3) by blast
qed

text \<open>A fragment whose number was seen, and is not below the window, changes nothing.\<close>

lemma handle_fragment_duplicate:
  assumes "settled 512 (reliable_window l)" "unat (start_index (reliable_window l)) + 512 < 2 ^ 32"
    "reliable_index f = Some index" "start_index (reliable_window l) \<le> index"
    "unat index \<in> seen 512 (reliable_window l)"
  shows "handle_fragment f l = Some (Inr (), l)"
proof -
  let ?w = "reliable_window l"
  have map: "window_map 512 ?w (unat index) \<noteq> None"
    using assms(4,5) by (auto simp: seen_def word_le_nat_alt)
  then have less: "unat index < unat (start_index ?w) + 512"
    by (auto simp: window_map_def pending_def split: if_splits)
  have "window_insert 512 index () ?w = (Inr False, ?w)"
    using window_map_slot [OF _ assms(4) less] assms(1) map less
    by (auto simp: window_insert_def settled_def)
  then show ?thesis
    using assms(3) by (simp add: handle_fragment_def RELIABLE_WINDOW_SIZE_def)
qed

lemma handle_fragments_fresh:
  assumes "room_for 512 limit (reliable_window l)" "seen 512 (reliable_window l) \<subseteq> {..<limit}"
    and "\<forall>f \<in> set fs. \<exists>index. reliable_index f = Some index \<and> unat index < limit \<and>
          unat index \<notin> seen 512 (reliable_window l)"
    and "distinct (map reliable_index fs)"
    and "handle_unique_fragments fs l = Some l'"
  shows "\<exists>w. handle_fragments fs l = Some (Inr (), set_window w l') \<and> room_for 512 limit w \<and>
     seen 512 w = seen 512 (reliable_window l) \<union> (\<lambda>f. unat (the (reliable_index f))) ` set fs"
  using assms
proof (induction fs arbitrary: l l')
  case Nil
  then show ?case by (intro exI [of _ "reliable_window l"]) simp
next
  case (Cons f fs)
  obtain index where index: "reliable_index f = Some index" "unat index < limit"
    "unat index \<notin> seen 512 (reliable_window l)"
    using Cons.prems(3) by auto
  obtain l1 where l1: "handle_unique_fragment f l = Some l1" "handle_unique_fragments fs l1 = Some l'"
    using Cons.prems(5) by (auto split: bind_splits)
  obtain w where w: "handle_fragment f l = Some (Inr (), set_window w l1)"
    "room_for 512 limit w" "seen 512 w = insert (unat index) (seen 512 (reliable_window l))"
    using handle_fragment_fresh [OF Cons.prems(1,2) index] l1(1) by auto
  have set: "handle_unique_fragments fs (set_window w l1) = Some (set_window w l')"
    using l1(2)
  proof (induction fs arbitrary: l1)
    case (Cons g gs)
    then show ?case by (auto simp: handle_unique_fragment_window split: bind_splits)
  qed simp
  have fresh: "\<forall>g \<in> set fs. \<exists>i. reliable_index g = Some i \<and> unat i < limit \<and> unat i \<notin> seen 512 w"
  proof
    fix g assume g: "g \<in> set fs"
    then obtain i where i: "reliable_index g = Some i" "unat i < limit"
      "unat i \<notin> seen 512 (reliable_window l)"
      using Cons.prems(3) by auto
    moreover have "i \<noteq> index"
    proof
      assume "i = index"
      then have "Some index \<in> reliable_index ` set fs" using g i(1) by (metis image_eqI)
      then show False using Cons.prems(4) index(1) by simp
    qed
    ultimately show "\<exists>i. reliable_index g = Some i \<and> unat i < limit \<and> unat i \<notin> seen 512 w"
      using i by (intro exI [of _ i]) (simp add: w(3) word_unat_eq_iff)
  qed
  have "\<exists>w'. handle_fragments fs (set_window w l1) = Some (Inr (), set_window w' (set_window w l')) \<and>
      room_for 512 limit w' \<and> seen 512 w' = seen 512 w \<union> (\<lambda>f. unat (the (reliable_index f))) ` set fs"
    using Cons.IH [of "set_window w l1" "set_window w l'"] w(2,3) index(2) fresh Cons.prems(2,4) set
    by auto
  then show ?case using w index(1) by (auto intro!: exI)
qed

section \<open>From \<open>send\<close> to \<open>recv\<close>\<close>

lemma mset_map_witness:
  assumes "mset ys = mset (map g xs)"
  shows "\<exists>zs. mset zs = mset xs \<and> map g zs = ys"
  using assms
proof (induction ys arbitrary: xs)
  case (Cons y ys)
  then have "y \<in> set (map g xs)" by (metis list.set_intros(1) set_mset_mset)
  then obtain x where x: "x \<in> set xs" "g x = y" by auto
  then obtain a b where ab: "xs = a @ x # b" by (auto dest: split_list)
  then have "mset ys = mset (map g (a @ b))" using Cons.prems x(2) by simp
  then obtain zs where "mset zs = mset (a @ b)" "map g zs = ys" using Cons.IH by blast
  then show ?case using x(2) ab by (intro exI [of _ "x # zs"]) simp
qed simp

definition unnumbered :: "fragment \<Rightarrow> fragment" where
  "unnumbered f = f\<lparr>reliable_index := None\<rparr>"

lemma is_piece_unnumbered [simp]: "is_piece id' n chunk i (unnumbered f) = is_piece id' n chunk i f"
  by (simp add: is_piece_def unnumbered_def)

lemma piece_is_piece:
  assumes "piece_count max_size f < 2 ^ 32" "i < piece_count max_size f"
  shows "is_piece id' (piece_count max_size f)
    (\<lambda>i. take (piece_size max_size f) (drop (i * piece_size max_size f) (data f))) i
    (piece max_size id' f i)"
  using assms by (simp add: is_piece_def piece_def unat_of_nat)

text \<open>The pieces of a message in any order amount to the message itself.\<close>

lemma handle_pieces:
  assumes pieces: "mset (map unnumbered fs) = mset (message_pieces max_size id' f)"
    and large: "calc_full_size f > max_size" and room: "calc_header_size f + SPLIT_INFO_SIZE < max_size"
    and count: "piece_count max_size f < 2 ^ 32" and free: "split_fragments l id' = None"
  shows "handle_unique_fragments fs l = deliver ((last fs)\<lparr>data := data f\<rparr>) l"
proof -
  let ?n = "piece_count max_size f"
  let ?c = "\<lambda>i. take (piece_size max_size f) (drop (i * piece_size max_size f) (data f))"
  have "mset (map unnumbered fs) = mset (map (piece max_size id' f) [0..<?n])"
    using pieces large by (simp add: message_pieces_def)
  then obtain "is" where js: "mset is = mset [0..<?n]" "map (piece max_size id' f) is = map unnumbered fs"
    using mset_map_witness by blast
  have len: "length is = ?n" using arg_cong [OF js(1), of size] by simp
  have len': "length fs = ?n" using len arg_cong [OF js(2), of length] by simp
  have set: "set is = {..<?n}" using js(1) by (metis atLeast_upt mset_eq_setD)
  have dist: "distinct is" using js(1) by (metis distinct_upt mset_eq_imp_distinct_iff)
  have piece: "is_piece id' ?n ?c (is ! k) (fs ! k)" if k: "k < ?n" for k
  proof -
    have "is ! k \<in> set is" using k len by simp
    then have "is ! k < ?n" using set by simp
    moreover have "unnumbered (fs ! k) = piece max_size id' f (is ! k)"
      using arg_cong [OF js(2), of "\<lambda>xs. xs ! k"] k len len' by simp
    ultimately show ?thesis using piece_is_piece [OF count] is_piece_unnumbered by metis
  qed
  have n: "0 < piece_size max_size f" using room by (simp add: piece_size_def)
  have long: "piece_size max_size f + 1 < length (data f)"
    using large room by (simp add: calc_full_size_def piece_size_def SPLIT_INFO_SIZE_def)
  then have "1 \<le> (length (data f) - 1) div piece_size max_size f"
    using n by (simp add: div_greater_zero_iff Suc_le_eq)
  then have "1 < ?n" by (simp add: piece_count_def)
  moreover have "concat (map ?c [0..<?n]) = data f"
    using message_pieces_data [OF room, of id'] large
    by (simp add: message_pieces_def comp_def piece_def)
  ultimately show ?thesis
    using pieces_complete [OF free _ len' len dist set, of ?c] piece by simp
qed

text \<open>The fragments of one message on the wire: its pieces, in any order, each with a number of
  its own that the receiver has not seen.\<close>

definition fresh_pieces :: "usize \<Rightarrow> u16 \<Rightarrow> fragment \<Rightarrow> nat \<Rightarrow> fragment list \<Rightarrow> 'c layer \<Rightarrow> bool" where
  "fresh_pieces max_size id' f limit fs l \<longleftrightarrow>
     mset (map unnumbered fs) = mset (message_pieces max_size id' f) \<and>
     (\<forall>g \<in> set fs. \<exists>index. reliable_index g = Some index \<and> unat index < limit \<and>
          unat index \<notin> seen 512 (reliable_window l)) \<and>
     distinct (map reliable_index fs) \<and>
     room_for 512 limit (reliable_window l) \<and> seen 512 (reliable_window l) \<subseteq> {..<limit} \<and>
     split_fragments l id' = None"

lemma message_delivered:
  assumes fresh: "fresh_pieces max_size id' f limit fs l"
    and f: "split_info f = None" "ordering_info f = None" "calc_header_size f + SPLIT_INFO_SIZE < max_size"
    and count: "piece_count max_size f < 2 ^ 32"
  shows "\<exists>l'. handle_fragments fs l = Some (Inr (), l') \<and> output_queue l' = output_queue l @ [data f]"
proof -
  have pieces: "mset (map unnumbered fs) = mset (message_pieces max_size id' f)"
    using fresh by (simp add: fresh_pieces_def)
  have ord: "ordering_info g = None" if "g \<in> set fs" for g
  proof -
    have "unnumbered g \<in> set (message_pieces max_size id' f)"
      using that pieces by (metis image_eqI list.set_map mset_eq_setD)
    then have "ordering_info (unnumbered g) = None"
      using f(2) by (auto simp: message_pieces_def piece_def split: if_splits)
    then show ?thesis by (simp add: unnumbered_def)
  qed
  have "handle_unique_fragments fs l = Some (l\<lparr>output_queue := output_queue l @ [data f]\<rparr>)"
  proof (cases "calc_full_size f > max_size")
    case True
    have "fs \<noteq> []" using pieces True by (auto simp: message_pieces_def piece_count_def)
    then have "ordering_info (last fs) = None" using ord by simp
    then show ?thesis
      using handle_pieces [OF pieces True f(3) count, of l] fresh
      by (simp add: fresh_pieces_def deliver_def)
  next
    case False
    then have "mset (map unnumbered fs) = {#f#}" using pieces by (simp add: message_pieces_def)
    then obtain g where g: "fs = [g]" "unnumbered g = f"
      by (metis (no_types, lifting) list.simps(8) list.simps(9) map_eq_Cons_conv map_is_Nil_conv
          mset_single_iff_right)
    have "split_info g = None" "data g = data f" "ordering_info g = None"
      using g f by (auto simp: unnumbered_def)
    then show ?thesis using g(1) by (simp add: handle_unique_fragment_def deliver_def)
  qed
  then obtain w where "handle_fragments fs l =
      Some (Inr (), set_window w (l\<lparr>output_queue := output_queue l @ [data f]\<rparr>))"
    using handle_fragments_fresh [of limit l fs] fresh by (auto simp: fresh_pieces_def)
  then show ?thesis by simp
qed

section \<open>The next packet of a sequence\<close>

text \<open>A packet with the number the sequence window starts at moves the window, so no gap is looked
  for, and its fragments are handled by a layer with the same windows, pieces and output.\<close>

lemma handle_next_packet:
  assumes "settled SEQ_WINDOW_SIZE (seq_window l)" and "seq = start_index (seq_window l)"
    and "unat seq + SEQ_WINDOW_SIZE < 2 ^ 32"
  shows "\<exists>l'. handle_packet cc now sz co ne seq fs l = handle_fragments fs l' \<and>
     reliable_window l' = reliable_window l \<and> split_fragments l' = split_fragments l \<and>
     output_queue l' = output_queue l \<and> timeout l' = timeout l"
proof -
  let ?n = SEQ_WINDOW_SIZE
  have inv: "window_inv ?n (seq_window l)" "window_map ?n (seq_window l) (unat seq) = None"
    using assms(1,2) by (simp_all add: settled_def)
  have pos: "0 < ?n" by (simp add: SEQ_WINDOW_SIZE_def)
  obtain w1 f where w1: "window_insert ?n seq now (seq_window l) = (Inr True, w1)"
    "start_index w1 = seq" "window_map ?n w1 = (window_map ?n (seq_window l))(unat seq \<mapsto> now)"
    "window_inv ?n w1" "furthest_index w1 = Some f" "seq \<le> f"
    using window_insert_spec [OF inv(1), of seq now] inv(2) assms(2) pos by auto
  obtain c w where w: "window_shift ?n w1 = Some (c, w)" "unat (start_index w) = unat seq + c"
    "window_map ?n w1 (unat (start_index w)) = None"
    using window_shift_spec [OF w1(4,5)] w1(2,6) assms(3) by auto
  have "c \<noteq> 0" using w(2,3) w1(3) by (cases "c = 0") auto
  then show ?thesis
    using w1(1) w(1) by (auto simp: handle_packet_def)
qed

end
