(* ===== verification/Layer_Transmit.thy ===== *)
theory Layer_Transmit
  imports Layer_Update Layer_Receive
begin

text \<open>
  What \<open>update\<close> packs and sends: packets within the size and the bandwidth, no fragment lost
  between the queues, the packets and the retransmission cache, consecutive numbers, and the
  two situations in which the code loses or stalls traffic.
\<close>

section \<open>Packing one fragment\<close>

definition packed :: "packing \<Rightarrow> fragment list" where
  "packed pk = concat (map snd (packets pk)) @ current_packet pk"

definition total_size :: "fragment list \<Rightarrow> usize" where
  "total_size fs = sum_list (map calc_full_size fs)"

definition packing_ok :: "usize \<Rightarrow> packing \<Rightarrow> bool" where
  "packing_ok max_size pk \<longleftrightarrow>
     (\<forall>(sz, fs) \<in> set (packets pk). sz = total_size fs \<and> sz \<le> max_size \<and> fs \<noteq> []) \<and>
     current_packet_size pk = total_size (current_packet pk) \<and> current_packet_size pk \<le> max_size \<and>
     all_datagram_sizes pk = total_size (packed pk)"

lemma total_size_simps [simp]:
  "total_size [] = 0" "total_size (f # fs) = calc_full_size f + total_size fs"
  "total_size (fs @ gs) = total_size fs + total_size gs"
  by (simp_all add: total_size_def)

lemma packing_ok_empty: "packing_ok max_size empty_packing" "packed empty_packing = []"
  by (simp_all add: packing_ok_def empty_packing_def packed_def)

lemma close_packet_ok:
  "packing_ok max_size pk \<Longrightarrow> current_packet pk \<noteq> [] \<Longrightarrow>
     packing_ok max_size (close_packet pk) \<and> packed (close_packet pk) = packed pk"
  by (auto simp: packing_ok_def close_packet_def packed_def)

lemma add_fragment_ok:
  assumes "packing_ok max_size pk" "calc_full_size f \<le> max_size"
  shows "packing_ok max_size (add_fragment max_size (calc_full_size f) f pk) \<and>
    packed (add_fragment max_size (calc_full_size f) f pk) = packed pk @ [f] \<and>
    all_datagram_sizes (add_fragment max_size (calc_full_size f) f pk)
      = all_datagram_sizes pk + calc_full_size f"
proof (cases "current_packet_size pk + calc_full_size f > max_size")
  case True
  then have "current_packet pk \<noteq> []" using assms by (auto simp: packing_ok_def)
  then show ?thesis
    using close_packet_ok [OF assms(1)] assms True
    by (auto simp: add_fragment_def packing_ok_def packed_def close_packet_def Let_def)
next
  case False
  then show ?thesis
    using assms by (auto simp: add_fragment_def packing_ok_def packed_def Let_def)
qed

text \<open>The retransmission queue is packed from its front.\<close>

lemma pack_retransmit_spec:
  assumes "packing_ok max_size pk" "\<forall>f \<in> set queue. calc_full_size f \<le> max_size"
    "all_datagram_sizes pk \<le> bandwidth"
    "pack_retransmit cc now bandwidth max_size queue pk c = (rest, pk', c')"
  shows "\<exists>taken. queue = taken @ rest \<and> packed pk' = packed pk @ taken \<and>
    packing_ok max_size pk' \<and> all_datagram_sizes pk' \<le> bandwidth"
  using assms
proof (induction queue arbitrary: pk c)
  case Nil
  then show ?case by simp
next
  case (Cons f queue)
  let ?pk = "add_fragment max_size (calc_full_size f) f pk"
  show ?case
  proof (cases "all_datagram_sizes pk < bandwidth \<and>
      \<not> all_datagram_sizes pk + calc_full_size f > bandwidth")
    case True
    have add: "packing_ok max_size ?pk" "packed ?pk = packed pk @ [f]"
      "all_datagram_sizes ?pk = all_datagram_sizes pk + calc_full_size f"
      using add_fragment_ok [OF Cons.prems(1), of f] Cons.prems(2) by auto
    obtain taken where "queue = taken @ rest" "packed pk' = packed ?pk @ taken"
      "packing_ok max_size pk'" "all_datagram_sizes pk' \<le> bandwidth"
      using Cons.IH [of ?pk "on_resend cc now c"] Cons.prems add True by auto
    then show ?thesis using add(2) by (intro exI [of _ "f # taken"]) simp
  next
    case False
    then have "rest = f # queue" "pk' = pk" using Cons.prems(4) by (auto split: if_splits)
    then show ?thesis using Cons.prems by (intro exI [of _ "[]"]) simp
  qed
qed

section \<open>Packing the outgoing queue\<close>

lemma assign_reliable_index_spec:
  assumes "labelled f" "assign_reliable_index f next_index = Some (g, n)"
  shows "unnumbered g = f \<and> fields_match g \<and> calc_full_size g = calc_full_size f \<and>
    reliability g = reliability f \<and>
    (if is_reliable (reliability f)
     then reliable_index g = Some next_index \<and> unat n = Suc (unat next_index)
     else n = next_index)"
proof (cases "is_reliable (reliability f)")
  case True
  then obtain k where k: "uadd next_index 1 = Some k" "g = f\<lparr>reliable_index := Some next_index\<rparr>" "n = k"
    using assms(2) by (auto simp: assign_reliable_index_def split: bind_splits)
  have "unat k = Suc (unat next_index)" using k(1) by (simp add: checked_arith)
  moreover have "f\<lparr>reliable_index := None\<rparr> = f" using assms(1) by (simp add: labelled_def)
  ultimately show ?thesis
    using True k(2,3) assms(1)
    by (simp add: unnumbered_def fields_match_def labelled_def calc_full_size_def calc_header_size_def)
next
  case False
  then have "g = f" "n = next_index" using assms(2) by (simp_all add: assign_reliable_index_def)
  moreover have "f\<lparr>reliable_index := None\<rparr> = f" using assms(1) by (simp add: labelled_def)
  ultimately show ?thesis
    using False assms(1) by (simp add: unnumbered_def fields_match_def labelled_def)
qed

definition reliable_numbers :: "fragment list \<Rightarrow> u32 list" where
  "reliable_numbers fs = map (\<lambda>f. the (reliable_index f)) (filter (\<lambda>f. is_reliable (reliability f)) fs)"

lemma reliable_numbers_simps [simp]:
  "reliable_numbers [] = []"
  "reliable_numbers (f # fs) =
     (if is_reliable (reliability f) then the (reliable_index f) # reliable_numbers fs
      else reliable_numbers fs)"
  by (simp_all add: reliable_numbers_def)

text \<open>The front of the outgoing queue: \<open>xs\<close> in the order of their weights, none heavier than what
  stays.\<close>

definition front_of_queue ::
  "outgoing_fragment list \<Rightarrow> outgoing_fragment list \<Rightarrow> outgoing_fragment list \<Rightarrow> bool" where
  "front_of_queue xs queue queue' \<longleftrightarrow>
     mset queue = mset xs + mset queue' \<and> sorted (map weight xs) \<and>
     (\<forall>x \<in> set xs. \<forall>y \<in> set queue'. weight x \<le> weight y)"

lemma front_of_queue_Nil: "front_of_queue [] queue queue"
  by (simp add: front_of_queue_def)

lemma front_of_queue_Cons:
  assumes "front_of_queue xs q queue'" "mset queue = add_mset x (mset q)" "\<forall>y \<in> set q. weight x \<le> weight y"
  shows "front_of_queue (x # xs) queue queue'"
proof -
  have "set q = set xs \<union> set queue'"
    using assms(1) unfolding front_of_queue_def by (metis set_mset_mset set_mset_union)
  then show ?thesis using assms by (simp add: front_of_queue_def)
qed

text \<open>What a run of the packing loop takes from the queue: its front, as \<open>fresh\<close>, numbered from
  \<open>next_index\<close>.\<close>

definition packs_fresh ::
  "usize \<Rightarrow> outgoing_fragment list \<Rightarrow> u32 \<Rightarrow> outgoing_fragment list \<Rightarrow> u32 \<Rightarrow> fragment list \<Rightarrow> bool" where
  "packs_fresh max_size queue next_index queue' next_index' fresh \<longleftrightarrow>
     heap weight queue' \<and> (\<forall>x \<in># mset queue'. queued_ok max_size x) \<and>
     image_mset outgoing (mset queue) =
       mset (map unnumbered fresh) + image_mset outgoing (mset queue') \<and>
     (\<exists>xs. front_of_queue xs queue queue' \<and> map unnumbered fresh = map outgoing xs) \<and>
     (\<forall>f \<in> set fresh. fields_match f) \<and>
     map unat (reliable_numbers fresh) = [unat next_index..<unat next_index'] \<and>
     unat next_index \<le> unat next_index'"

lemma pack_outgoing_spec:
  assumes "heap weight queue" "\<forall>x \<in># mset queue. queued_ok max_size x" "packing_ok max_size pk"
    "all_datagram_sizes pk \<le> bandwidth"
    "pack_outgoing bandwidth max_size queue next_index pk = Some (queue', next_index', pk')"
  shows "\<exists>fresh. packs_fresh max_size queue next_index queue' next_index' fresh \<and>
    packed pk' = packed pk @ fresh \<and> packing_ok max_size pk' \<and> all_datagram_sizes pk' \<le> bandwidth"
  using assms
proof (induction bandwidth max_size queue next_index pk rule: pack_outgoing.induct)
  case (1 bandwidth max_size queue next_index pk)
  have stop: ?case if "queue' = queue" "next_index' = next_index" "pk' = pk"
    using "1.prems" that front_of_queue_Nil by (intro exI [of _ "[]"]) (simp add: packs_fresh_def)
  show ?case
  proof (cases "all_datagram_sizes pk < bandwidth")
    case False
    then show ?thesis using "1.prems"(5) stop by (simp add: pack_outgoing.simps)
  next
    case more: True
    show ?thesis
    proof (cases "heap_peek queue")
      case None
      then show ?thesis using "1.prems"(5) stop by (simp add: pack_outgoing.simps more)
    next
      case (Some x)
      let ?sz = "calc_full_size (outgoing x)"
      show ?thesis
      proof (cases "all_datagram_sizes pk + ?sz > bandwidth")
        case True
        then show ?thesis using "1.prems"(5) stop Some by (simp add: pack_outgoing.simps more)
      next
        case room: False
        obtain q where q: "heap_pop weight queue = Some (x, q)"
          using heap.pop_peek [OF "1.prems"(1) Some] by blast
        have pop: "heap weight q" "mset queue = add_mset x (mset q)"
          using heap.pop_Some [OF "1.prems"(1) q] by auto
        have x: "queued_ok max_size x" using "1.prems"(2) pop(2) by simp
        obtain f n where f: "assign_reliable_index (outgoing x) next_index = Some (f, n)"
          "pack_outgoing bandwidth max_size q n (add_fragment max_size ?sz f pk)
             = Some (queue', next_index', pk')"
          using "1.prems"(5) more Some room q
          by (subst (asm) pack_outgoing.simps) (auto simp: Let_def split: option.splits prod.splits)
        note num = assign_reliable_index_spec [OF _ f(1)]
        have label: "labelled (outgoing x)" using x by (simp add: queued_ok_def)
        note num = num [OF label]
        let ?pk = "add_fragment max_size ?sz f pk"
        have add: "packing_ok max_size ?pk" "packed ?pk = packed pk @ [f]"
          "all_datagram_sizes ?pk = all_datagram_sizes pk + ?sz"
          using add_fragment_ok [OF "1.prems"(3), of f] x num by (auto simp: queued_ok_def)
        obtain fresh where fresh: "packs_fresh max_size q n queue' next_index' fresh"
          "packed pk' = packed ?pk @ fresh" "packing_ok max_size pk'" "all_datagram_sizes pk' \<le> bandwidth"
          using "1.IH" [OF more Some refl room q refl f(1) refl pop(1) _ add(1) _ f(2)] pop(2)
            "1.prems"(2) add room by auto
        obtain xs where xs: "front_of_queue xs q queue'" "map unnumbered fresh = map outgoing xs"
          using fresh(1) by (auto simp: packs_fresh_def)
        have "\<forall>y \<in> set q. weight x \<le> weight y"
          using heap.pop_least [OF "1.prems"(1) q] by simp
        then have "front_of_queue (x # xs) queue queue'"
          by (rule front_of_queue_Cons [OF xs(1) pop(2)])
        moreover have "map unnumbered (f # fresh) = map outgoing (x # xs)" using xs(2) num by simp
        ultimately have "\<exists>ys. front_of_queue ys queue queue' \<and>
            map unnumbered (f # fresh) = map outgoing ys" by blast
        then have "packs_fresh max_size queue next_index queue' next_index' (f # fresh)"
          using fresh(1) num pop(2)
          by (auto simp: packs_fresh_def upt_conv_Cons split: if_splits)
        then show ?thesis using fresh add(2) by (intro exI [of _ "f # fresh"]) simp
      qed
    qed
  qed
qed

section \<open>Packing the packets\<close>

text \<open>The layers whose queues and cache hold only fragments that fit a packet.\<close>

definition layer_inv :: "'c layer \<Rightarrow> bool" where
  "layer_inv l \<longleftrightarrow>
     sender_inv l \<and> length (histories (retransmit_cache l)) = 128 \<and>
     (\<forall>f \<in># held (retransmit_cache l).
        fields_match f \<and> is_reliable (reliability f) \<and> calc_full_size f \<le> max_size_of_packet l)"

lemma layer_inv_new: "layer_new cc now mtu = Some l \<Longrightarrow> layer_inv l"
proof -
  assume new: "layer_new cc now mtu = Some l"
  then have "retransmit_cache l = cache_new" by (auto simp: layer_new_def split: bind_splits)
  then show ?thesis
    using sender_inv_new [OF new]
    by (simp add: layer_inv_def held_def cache_new_def slots_held_def PACKET_HISTORY_SIZE_def)
qed

lemma held_queue:
  "held (c\<lparr>retransmit_fragments := q\<rparr>) = slots_held (histories c) + mset q"
  by (simp add: held_def)

lemma pack_packets_spec:
  assumes inv: "layer_inv l" and pack: "pack_packets cc now since cont l = Some (ps, l')"
  shows "\<exists>bandwidth c0 taken fresh rto cache.
    get_transmission_bandwidth cc now since cont (controller l) = Some (bandwidth, c0) \<and>
    get_rto cc c0 = Some rto \<and> get_retransmit_fragments now rto (retransmit_cache l) = Some cache \<and>
    retransmit_fragments cache = taken @ retransmit_fragments (retransmit_cache l') \<and>
    retransmit_cache l' = cache\<lparr>retransmit_fragments := retransmit_fragments (retransmit_cache l')\<rparr> \<and>
    (\<forall>(sz, fs) \<in> set ps. sz = total_size fs \<and> sz \<le> max_size_of_packet l) \<and>
    concat (map snd ps) = taken @ fresh \<and> total_size (taken @ fresh) \<le> bandwidth \<and>
    held (retransmit_cache l) = mset taken + held (retransmit_cache l') \<and>
    packs_fresh (max_size_of_packet l) (outgoing_queue l) (send_reliable_index l)
      (outgoing_queue l') (send_reliable_index l') fresh \<and>
    max_size_of_packet l' = max_size_of_packet l \<and> layer_inv l' \<and>
    (\<forall>(sz, fs) \<in> set ps. fs \<noteq> [])"
proof -
  let ?m = "max_size_of_packet l"
  obtain bandwidth c0 rto cache rest pk c queue next_index pk2 where steps:
    "get_transmission_bandwidth cc now since cont (controller l) = Some (bandwidth, c0)"
    "get_retransmit_fragments now rto (retransmit_cache l) = Some cache" "get_rto cc c0 = Some rto"
    "pack_retransmit cc now bandwidth ?m (retransmit_fragments cache) empty_packing c0 = (rest, pk, c)"
    "pack_outgoing bandwidth ?m (outgoing_queue l) (send_reliable_index l) pk = Some (queue, next_index, pk2)"
    "ps = packets (if current_packet pk2 \<noteq> [] then close_packet pk2 else pk2)"
    "l' = l\<lparr>controller := c, retransmit_cache := cache\<lparr>retransmit_fragments := rest\<rparr>,
           outgoing_queue := queue, send_reliable_index := next_index\<rparr>"
    using pack by (fastforce simp: pack_packets_def Let_def split: bind_splits prod.splits)
  have len: "length (histories (retransmit_cache l)) = 128" using inv by (simp add: layer_inv_def)
  have held: "held cache = held (retransmit_cache l)"
    using get_retransmit_fragments_same [OF len steps(2)] .
  have "set_mset (mset (retransmit_fragments cache)) \<subseteq> set_mset (held cache)"
    by (simp add: held_def)
  then have fit: "\<forall>f \<in> set (retransmit_fragments cache). calc_full_size f \<le> ?m"
    using inv unfolding held layer_inv_def by auto
  obtain taken where taken: "retransmit_fragments cache = taken @ rest" "packed pk = taken"
    "packing_ok ?m pk" "all_datagram_sizes pk \<le> bandwidth"
    using pack_retransmit_spec [OF packing_ok_empty(1) fit _ steps(4)] packing_ok_empty(2)
    by (auto simp: empty_packing_def)
  have send: "heap weight (outgoing_queue l)" "\<forall>x \<in># mset (outgoing_queue l). queued_ok ?m x"
    using inv by (simp_all add: layer_inv_def sender_inv_def)
  obtain fresh where fresh: "packs_fresh ?m (outgoing_queue l) (send_reliable_index l) queue next_index fresh"
    "packed pk2 = taken @ fresh" "packing_ok ?m pk2" "all_datagram_sizes pk2 \<le> bandwidth"
    using pack_outgoing_spec [OF send taken(3,4) steps(5)] taken(2) by auto
  have ps: "concat (map snd ps) = taken @ fresh"
    "\<forall>(sz, fs) \<in> set ps. sz = total_size fs \<and> sz \<le> ?m" "\<forall>(sz, fs) \<in> set ps. fs \<noteq> []"
    using fresh(2,3) close_packet_ok [OF fresh(3)] unfolding steps(6)
    by (auto simp: packing_ok_def packed_def close_packet_def)
  have size: "total_size (taken @ fresh) \<le> bandwidth"
    using fresh(2-4) by (simp add: packing_ok_def)
  have cache': "held (retransmit_cache l) = mset taken + held (retransmit_cache l')"
    by (simp add: steps(7) held_queue held [symmetric]) (simp add: held_def taken(1) ac_simps)
  have "queue \<noteq> [] \<Longrightarrow> outgoing_queue l \<noteq> []" using fresh(1) by (auto simp: packs_fresh_def)
  then have "sender_inv l'"
    using inv fresh(1) by (auto simp: steps(7) layer_inv_def sender_inv_def packs_fresh_def)
  moreover have "length (histories cache) = 128"
    using get_retransmit_length [OF len steps(2)] .
  ultimately have "layer_inv l'"
    using inv unfolding layer_inv_def cache' by (auto simp: steps(7))
  then show ?thesis
    using steps(1-3) ps size cache' fresh(1) taken(1) by (auto simp: steps(7))
qed

section \<open>Sending the packets\<close>

lemma send_datagram_layer:
  assumes "send_datagram w send_to addr d (l, net) = Some (r, (l', net'))"
  shows "l' = l"
  using assms by (auto simp: send_datagram_def Let_def split: bind_splits prod.splits)

context controller_laws
begin

lemma send_packets_spec:
  assumes "send_packets w send_to cc now addr needs ps (l, net) = Some (Inr (), (l', net'))"
    and "cache_inv n (retransmit_cache l)" "next_number (controller l) = n"
    and "n + length ps + 128 < 2 ^ 32"
  shows "cache_inv (n + length ps) (retransmit_cache l') \<and>
    next_number (controller l') = n + length ps \<and>
    held (retransmit_cache l') = held (retransmit_cache l) +
      mset (filter (\<lambda>f. is_reliable (reliability f)) (concat (map snd ps))) \<and>
    (\<forall>j < n. in_flight (retransmit_cache l') j = in_flight (retransmit_cache l) j) \<and>
    (\<forall>i < length ps. in_flight (retransmit_cache l') (n + i) =
       Some (Valid (filter (\<lambda>f. is_reliable (reliability f)) (snd (ps ! i))) now)) \<and>
    outgoing_queue l' = outgoing_queue l"
  using assms
proof (induction ps arbitrary: l net n)
  case Nil
  then show ?case by simp
next
  case (Cons p ps)
  obtain sz fs where p: "p = (sz, fs)" by force
  let ?rel = "\<lambda>f. is_reliable (reliability f)"
  obtain seq c0 c where seq: "get_seq_and_increment cc (controller l) = Some (seq, c0)"
    "on_send_packet cc sz c0 = Some c"
    using Cons.prems(1) p by (auto split: bind_splits)
  let ?l = "l\<lparr>controller := c\<rparr>"
  define rest where "rest = (\<lambda>(_ :: unit) (l, net).
     do {
       (r, cache) \<leftarrow> cache_insert seq (filter ?rel fs) now (retransmit_cache l);
       let l = l\<lparr>retransmit_cache := cache\<rparr>;
       case r of
         Inl e \<Rightarrow> Some (Inl (BufferOverflow e), (l, net))
       | Inr _ \<Rightarrow> send_packets w send_to cc now addr needs ps (l, net)
     })"
  have "and_then (send_datagram w send_to addr (Packet False True needs seq fs) (?l, net)) rest
      = Some (Inr (), (l', net'))"
    using Cons.prems(1) seq by (simp add: p Let_def rest_def)
  then obtain l1 net1 where sent1:
    "send_datagram w send_to addr (Packet False True needs seq fs) (?l, net) = Some (Inr (), (l1, net1))"
    "rest () (l1, net1) = Some (Inr (), (l', net'))"
    by (auto simp: and_then_Inr_iff)
  have l1: "l1 = ?l" using send_datagram_layer [OF sent1(1)] .
  obtain r cache where ins: "cache_insert seq (filter ?rel fs) now (retransmit_cache l) = Some (r, cache)"
    using sent1(2) by (auto simp: rest_def l1 split: bind_splits)
  have "r = Inr ()" using sent1(2) ins by (cases r) (auto simp: rest_def l1)
  then have sent: "cache_insert seq (filter ?rel fs) now (retransmit_cache l) = Some (Inr (), cache)"
    "send_packets w send_to cc now addr needs ps (?l\<lparr>retransmit_cache := cache\<rparr>, net1)
       = Some (Inr (), (l', net'))"
    using sent1(2) ins by (auto simp: rest_def l1)
  have num: "unat seq = n" "next_number c = Suc n" using get_seq [OF seq(1)] send_packet_number [OF seq(2)] Cons.prems(3) by auto
  note ins = cache_insert_held [OF Cons.prems(2) num(1) _ sent(1)]
  have ins: "cache_inv (Suc n) cache" "held cache = held (retransmit_cache l) + mset (filter ?rel fs)"
    using ins Cons.prems(4) by auto
  have "n \<noteq> unat (start_seq (retransmit_cache l)) + 128"
    using cache_insert_spec [OF Cons.prems(2) num(1), of "filter ?rel fs" now] sent(1) Cons.prems(2,4)
    by (auto simp: cache_inv_def)
  then have fly: "in_flight cache = (in_flight (retransmit_cache l))(n \<mapsto> Valid (filter ?rel fs) now)"
    using cache_insert_spec [OF Cons.prems(2) num(1), of "filter ?rel fs" now] sent(1) Cons.prems(2,4)
    by (auto simp: cache_inv_def)
  let ?l1 = "?l\<lparr>retransmit_cache := cache\<rparr>"
  have "next_number (controller ?l1) = Suc n" using num(2) by simp
  note IH = Cons.IH [OF sent(2), of "Suc n"]
  have IH: "cache_inv (Suc n + length ps) (retransmit_cache l')"
    "next_number (controller l') = Suc n + length ps"
    "held (retransmit_cache l') = held cache + mset (filter ?rel (concat (map snd ps)))"
    "\<forall>j < Suc n. in_flight (retransmit_cache l') j = in_flight cache j"
    "\<forall>i < length ps. in_flight (retransmit_cache l') (Suc n + i) =
       Some (Valid (filter ?rel (snd (ps ! i))) now)"
    "outgoing_queue l' = outgoing_queue l"
    using IH \<open>next_number (controller ?l1) = Suc n\<close> ins(1) Cons.prems(4) by simp_all
  have "in_flight (retransmit_cache l') (n + i) = Some (Valid (filter ?rel (snd ((p # ps) ! i))) now)"
    if "i < length (p # ps)" for i
    using that IH(4,5) fly p by (cases i) auto
  then show ?case using IH ins(2) fly p by (auto simp: ac_simps)
qed

end

text \<open>The datagrams of a list of packets, numbered from \<open>n\<close>, are what goes to the network.\<close>

fun encodes :: "wire \<Rightarrow> bool \<Rightarrow> nat \<Rightarrow> (usize \<times> fragment list) list \<Rightarrow> bytes list \<Rightarrow> bool" where
  "encodes w needs n [] ds \<longleftrightarrow> ds = []"
| "encodes w needs n ((sz, fs) # ps) ds \<longleftrightarrow>
     (\<exists>seq d rest. ds = d # rest \<and> unat seq = n \<and>
        put_datagram w (Packet False True needs seq fs) = Some d \<and> encodes w needs (Suc n) ps rest)"

lemma encodes_nth:
  assumes "encodes w needs n ps ds"
  shows "length ds = length ps"
    and "i < length ps \<Longrightarrow> \<exists>seq. unat seq = n + i \<and>
      put_datagram w (Packet False True needs seq (snd (ps ! i))) = Some (ds ! i)"
proof -
  have "length ds = length ps \<and> (\<forall>i < length ps. \<exists>seq. unat seq = n + i \<and>
      put_datagram w (Packet False True needs seq (snd (ps ! i))) = Some (ds ! i))"
    using assms
  proof (induction ps arbitrary: n ds)
    case (Cons p ps)
    obtain seq d rest where d: "ds = d # rest" "unat seq = n"
      "put_datagram w (Packet False True needs seq (snd p)) = Some d" "encodes w needs (Suc n) ps rest"
      using Cons.prems by (cases p) auto
    note IH = Cons.IH [OF d(4)]
    have "\<exists>seq. unat seq = n + i \<and>
        put_datagram w (Packet False True needs seq (snd ((p # ps) ! i))) = Some (ds ! i)"
      if "i < length (p # ps)" for i
      using that IH d(1-3) by (cases i) auto
    then show ?case using IH d(1) by simp
  qed simp
  then show "length ds = length ps"
    and "i < length ps \<Longrightarrow> \<exists>seq. unat seq = n + i \<and>
      put_datagram w (Packet False True needs seq (snd (ps ! i))) = Some (ds ! i)"
    by auto
qed

definition send_all :: "'net sender \<Rightarrow> socket_addr \<Rightarrow> bytes list \<Rightarrow> 'net \<Rightarrow> 'net" where
  "send_all send_to addr ds net = fold (\<lambda>d net. snd (send_to d addr net)) ds net"

context controller_laws
begin

lemma sent_datagrams:
  assumes "send_packets w send_to cc now addr needs ps (l, net) = Some (Inr (), (l', net'))"
    and "next_number (controller l) = n"
  shows "\<exists>ds. encodes w needs n ps ds \<and> net' = send_all send_to addr ds net \<and>
     next_number (controller l') = n + length ps \<and> outgoing_queue l' = outgoing_queue l"
  using assms
proof (induction ps arbitrary: l net n)
  case (Cons p ps)
  obtain sz fs where p: "p = (sz, fs)" by force
  obtain seq c0 c where seq: "get_seq_and_increment cc (controller l) = Some (seq, c0)"
    "on_send_packet cc sz c0 = Some c"
    using Cons.prems(1) p by (auto split: bind_splits)
  have num: "unat seq = n" "next_number c = Suc n"
    using get_seq [OF seq(1)] send_packet_number [OF seq(2)] Cons.prems(2) by auto
  obtain d where d: "put_datagram w (Packet False True needs seq fs) = Some d"
    using put_datagram_Packet by blast
  obtain ok n1 where n1: "send_to d addr net = (ok, n1)" by force
  have sent: "send_datagram w send_to addr (Packet False True needs seq fs) (l\<lparr>controller := c\<rparr>, net)
      = Some (if ok then Inr () else Inl LayerFailedToSend, (l\<lparr>controller := c\<rparr>, n1))"
    using d n1 by (simp add: send_datagram_def del: put_datagram.simps)
  have "ok" using Cons.prems(1) seq p sent by (cases ok) (auto simp: Let_def)
  then obtain cache where
    "send_packets w send_to cc now addr needs ps
       (l\<lparr>controller := c, retransmit_cache := cache\<rparr>, n1) = Some (Inr (), (l', net'))"
    using Cons.prems(1) seq p sent by (auto simp: Let_def split: bind_splits sum.splits)
  from Cons.IH [OF this, of "Suc n"] num(2) obtain ds where
    "encodes w needs (Suc n) ps ds" "net' = send_all send_to addr ds n1"
    "next_number (controller l') = Suc n + length ps" "outgoing_queue l' = outgoing_queue l"
    by auto
  then show ?case
    using d num(1) n1
    by (intro exI [of _ "d # ds"]) (auto simp: p send_all_def simp del: put_datagram.simps)
qed (simp add: send_all_def)

end

section \<open>A sample run\<close>

definition one_message_layer :: "sliding_window_state layer" where
  "one_message_layer = sample_layer
     \<lparr>outgoing_queue := [\<lparr>weight = 3, send_priority = High,
        outgoing = new_fragment Reliable 0 [1, 2, 3] sample_layer\<rparr>],
      outgoing_next_weight := [0, 3, 10, 27]\<rparr>"

definition one_message_sent :: fragment where
  "one_message_sent = (new_fragment Reliable 0 [1, 2, 3] sample_layer)\<lparr>reliable_index := Some 0\<rparr>"

lemma one_message_send: "send High Reliable 0 [1, 2, 3] sample_layer = Some one_message_layer"
  by (simp add: send_def label_fragment_def push_outgoing_def get_next_weight_def Let_def
      calc_full_size_def calc_header_size_def sample_layer_fields heap_peek_def init_next_weight_def
      heap_push_def sift_up.simps PRIORITY_COUNT_def one_message_layer_def new_fragment_def upt_rec)

lemma one_message_inv: "layer_inv one_message_layer"
proof -
  have "sender_inv one_message_layer"
    using send_spec [OF sample_layer_room(1) sample_layer_room(2) [of 0], of High Reliable "[1, 2, 3]"]
      one_message_send by simp
  moreover have "retransmit_cache one_message_layer = cache_new"
    "max_size_of_packet one_message_layer = max_size_of_packet sample_layer"
    by (simp_all add: one_message_layer_def sample_layer_fields)
  ultimately show ?thesis
    using layer_inv_new [OF sample_layer_new] by (simp add: layer_inv_def sample_layer_fields)
qed

lemma one_message_pack:
  "\<exists>l'. pack_packets sliding_window 50 10 False one_message_layer
     = Some ([(9, [one_message_sent])], l') \<and> send_reliable_index l' = 1"
proof -
  have empty: "get_retransmit_fragments now rto cache_new = Some cache_new" for now rto
    by (simp add: get_retransmit_fragments_def cache_is_empty_def cache_new_def cache_index_def
        PACKET_HISTORY_SIZE_def)
  have none: "retransmit_fragments cache_new = []" by (simp add: cache_new_def)
  show ?thesis
    by (simp add: pack_packets_def one_message_layer_def sample_layer_fields Let_def empty none
        sw_get_transmission_bandwidth_def sw_new_def pack_outgoing.simps empty_packing_def
        heap_peek_def heap_pop_def calc_full_size_def calc_header_size_def assign_reliable_index_def
        uadd_def add_fragment_def close_packet_def one_message_sent_def)
qed

section \<open>Properties\<close>

text \<open>C6: every packet \<open>update\<close> packs fits the MTU: encoded as a datagram it is at most the packet
  size of the layer and 4 bytes of datagram header long, so with the 28 bytes of the IP and UDP
  headers it is within the MTU the layer was made for.\<close>
theorem packets_fit_mtu:
  assumes "layer_inv l" and "pack_packets cc now since cont l = Some (ps, l')"
    and "(sz, fs) \<in> set ps" and "wire_format w" and "put_datagram w (Packet p c n seq fs) = Some bs"
  shows "length bs \<le> max_size_of_packet l + 4"
proof -
  obtain taken fresh where pk: "\<forall>(sz, fs) \<in> set ps. sz = total_size fs \<and> sz \<le> max_size_of_packet l"
    "concat (map snd ps) = taken @ fresh"
    "held (retransmit_cache l) = mset taken + held (retransmit_cache l')"
    "\<forall>f \<in> set fresh. fields_match f"
    using pack_packets_spec [OF assms(1,2)] by (auto simp: packs_fresh_def)
  have "set fs \<subseteq> set (taken @ fresh)"
    using assms(3) unfolding pk(2) [symmetric] by force
  moreover have "\<forall>f \<in> set taken. fields_match f"
    using assms(1) pk(3) by (auto simp: layer_inv_def)
  ultimately have "\<forall>f \<in> set fs. fields_match f" using pk(4) by auto
  moreover have "total_size fs \<le> max_size_of_packet l" using pk(1) assms(3) by auto
  ultimately show ?thesis
    using wire_format.length_put_datagram_Packet [OF assms(4) _ assms(5)]
    by (simp add: total_size_def HEADER_SIZE_def PACKET_HEADER_SIZE_def)
qed

theorem packets_fit_mtu_witness:
  "length (the (put_datagram network_wire (Packet False True True 0 [one_message_sent]))) \<le> 1464"
proof -
  obtain l' where pack: "pack_packets sliding_window 50 10 False one_message_layer
      = Some ([(9, [one_message_sent])], l')" using one_message_pack by blast
  obtain bs where bs: "put_datagram network_wire (Packet False True True 0 [one_message_sent]) = Some bs"
    using put_datagram_Packet by blast
  have "max_size_of_packet one_message_layer = 1460"
    by (simp add: one_message_layer_def sample_layer_fields)
  then show ?thesis
    using packets_fit_mtu [OF one_message_inv pack _ network_wire_format bs]
    by (simp add: bs del: put_datagram.simps)
qed

text \<open>C7: packing takes the fronts of the two queues, in their order, and loses nothing. The packets
  hold, one after the other, the front of the retransmission queue, as it is after
  \<open>get_retransmit_fragments\<close>, and the fragments of least weight of the outgoing queue, by
  increasing weight; what is not packed is still in the cache or in the queue, and only the
  numbers of reliable fragments are new.\<close>
theorem packing_loses_nothing:
  assumes "layer_inv l" and "pack_packets cc now since cont l = Some (ps, l')"
  shows "\<exists>bandwidth c rto cache taken fresh xs.
     get_transmission_bandwidth cc now since cont (controller l) = Some (bandwidth, c) \<and>
     get_rto cc c = Some rto \<and>
     get_retransmit_fragments now rto (retransmit_cache l) = Some cache \<and>
     concat (map snd ps) = taken @ fresh \<and>
     retransmit_fragments cache = taken @ retransmit_fragments (retransmit_cache l') \<and>
     retransmit_cache l' = cache\<lparr>retransmit_fragments := retransmit_fragments (retransmit_cache l')\<rparr> \<and>
     map unnumbered fresh = map outgoing xs \<and>
     mset (outgoing_queue l) = mset xs + mset (outgoing_queue l') \<and> sorted (map weight xs) \<and>
     (\<forall>x \<in> set xs. \<forall>y \<in> set (outgoing_queue l'). weight x \<le> weight y) \<and>
     image_mset unnumbered (held (retransmit_cache l)) + queued l =
       image_mset unnumbered (mset (concat (map snd ps)) + held (retransmit_cache l')) + queued l'"
proof -
  obtain bandwidth c rto cache taken fresh where pk:
    "get_transmission_bandwidth cc now since cont (controller l) = Some (bandwidth, c)"
    "get_rto cc c = Some rto" "get_retransmit_fragments now rto (retransmit_cache l) = Some cache"
    "retransmit_fragments cache = taken @ retransmit_fragments (retransmit_cache l')"
    "retransmit_cache l' = cache\<lparr>retransmit_fragments := retransmit_fragments (retransmit_cache l')\<rparr>"
    "concat (map snd ps) = taken @ fresh"
    "held (retransmit_cache l) = mset taken + held (retransmit_cache l')"
    "packs_fresh (max_size_of_packet l) (outgoing_queue l) (send_reliable_index l)
       (outgoing_queue l') (send_reliable_index l') fresh"
    using pack_packets_spec [OF assms] by blast
  obtain xs where xs: "front_of_queue xs (outgoing_queue l) (outgoing_queue l')"
    "map unnumbered fresh = map outgoing xs"
    using pk(8) unfolding packs_fresh_def by blast
  have "queued l = mset (map unnumbered fresh) + queued l'"
    using pk(8) by (simp add: packs_fresh_def queued_def)
  then have "image_mset unnumbered (held (retransmit_cache l)) + queued l =
      image_mset unnumbered (mset (concat (map snd ps)) + held (retransmit_cache l')) + queued l'"
    using pk(6,7) by (simp add: ac_simps)
  then show ?thesis using pk(1-6) xs unfolding front_of_queue_def by blast
qed

lemma packed_sample: "concat (map snd [(9 :: nat, [f])]) = [f]"
  by simp

theorem packing_loses_nothing_witness:
  "\<exists>(l' :: sliding_window_state layer) fresh taken xs. [one_message_sent] = taken @ fresh \<and>
     map unnumbered fresh = map outgoing xs \<and>
     mset (outgoing_queue one_message_layer) = mset xs + mset (outgoing_queue l') \<and>
     image_mset unnumbered (held (retransmit_cache one_message_layer)) + queued one_message_layer
     = {#unnumbered one_message_sent#} + image_mset unnumbered (held (retransmit_cache l')) + queued l'"
proof -
  obtain l' where "pack_packets sliding_window 50 10 False one_message_layer
      = Some ([(9, [one_message_sent])], l')" using one_message_pack by blast
  from packing_loses_nothing [OF one_message_inv this] obtain taken fresh xs where
    "[one_message_sent] = taken @ fresh" "map unnumbered fresh = map outgoing xs"
    "mset (outgoing_queue one_message_layer) = mset xs + mset (outgoing_queue l')"
    "image_mset unnumbered (held (retransmit_cache one_message_layer)) + queued one_message_layer
     = image_mset unnumbered (mset [one_message_sent] + held (retransmit_cache l')) + queued l'"
    unfolding packed_sample by blast
  then show ?thesis
    unfolding mset.simps image_mset_union image_mset_add_mset image_mset_empty by blast
qed

text \<open>C19: the packets of one update stay within the bandwidth the congestion controller granted.\<close>
theorem packing_within_bandwidth:
  assumes "layer_inv l" and "pack_packets cc now since cont l = Some (ps, l')"
    and "get_transmission_bandwidth cc now since cont (controller l) = Some (bandwidth, c)"
  shows "sum_list (map fst ps) \<le> bandwidth"
proof -
  obtain taken fresh where pk: "\<forall>(sz, fs) \<in> set ps. sz = total_size fs \<and> sz \<le> max_size_of_packet l"
    "concat (map snd ps) = taken @ fresh" "total_size (taken @ fresh) \<le> bandwidth"
    using pack_packets_spec [OF assms(1,2)] assms(3) by auto
  have "sum_list (map fst ps) = total_size (concat (map snd ps))"
    using pk(1) by (induction ps) auto
  then show ?thesis using pk(2,3) by simp
qed

theorem packing_within_bandwidth_witness:
  "sum_list (map fst [(9 :: nat, [one_message_sent])]) \<le> 1464"
proof -
  obtain l' where "pack_packets sliding_window 50 10 False one_message_layer
      = Some ([(9, [one_message_sent])], l')" using one_message_pack by blast
  moreover have "get_transmission_bandwidth sliding_window 50 10 False (controller one_message_layer)
      = Some (1464, (sw_new 1464)\<lparr>continuous_send := False\<rparr>)"
    by (simp add: one_message_layer_def sample_layer_fields sw_get_transmission_bandwidth_def sw_new_def)
  ultimately show ?thesis by (rule packing_within_bandwidth [OF one_message_inv])
qed

text \<open>C18: the fragments an update takes out of the outgoing queue (\<open>xs\<close>, all that is gone from it)
  are numbered when they are packed: the reliable ones get consecutive numbers from the layer's
  counter on, in the order in which they are packed, the others none, and the counter advances
  by as many numbers.\<close>
theorem reliable_numbers_consecutive:
  assumes "layer_inv l" and "pack_packets cc now since cont l = Some (ps, l')"
  shows "\<exists>taken fresh xs. concat (map snd ps) = taken @ fresh \<and>
     mset (outgoing_queue l) = mset xs + mset (outgoing_queue l') \<and>
     map unnumbered fresh = map outgoing xs \<and>
     (\<forall>f \<in> set fresh. (reliable_index f \<noteq> None) = is_reliable (reliability f)) \<and>
     map unat (reliable_numbers fresh) = [unat (send_reliable_index l)..<unat (send_reliable_index l')] \<and>
     unat (send_reliable_index l') = unat (send_reliable_index l) +
       length (filter (\<lambda>f. is_reliable (reliability f)) fresh)"
proof -
  obtain taken fresh where pk: "concat (map snd ps) = taken @ fresh"
    "packs_fresh (max_size_of_packet l) (outgoing_queue l) (send_reliable_index l)
       (outgoing_queue l') (send_reliable_index l') fresh"
    using pack_packets_spec [OF assms] by blast
  then obtain xs where xs: "front_of_queue xs (outgoing_queue l) (outgoing_queue l')"
    "map unnumbered fresh = map outgoing xs"
    by (auto simp: packs_fresh_def)
  have numbers: "map unat (reliable_numbers fresh)
      = [unat (send_reliable_index l)..<unat (send_reliable_index l')]"
    "unat (send_reliable_index l) \<le> unat (send_reliable_index l')" "\<forall>f \<in> set fresh. fields_match f"
    using pk(2) by (simp_all add: packs_fresh_def)
  moreover have "unat (send_reliable_index l') = unat (send_reliable_index l) +
      length (filter (\<lambda>f. is_reliable (reliability f)) fresh)"
    using arg_cong [OF numbers(1), of length] numbers(2) by (simp add: reliable_numbers_def)
  ultimately show ?thesis
    using pk(1) xs unfolding front_of_queue_def fields_match_def by blast
qed

theorem reliable_numbers_consecutive_witness:
  "\<exists>taken fresh (xs :: outgoing_fragment list). [one_message_sent] = taken @ fresh \<and>
     map unnumbered fresh = map outgoing xs \<and> map unat (reliable_numbers fresh) = [0]"
proof -
  obtain l' where pack: "pack_packets sliding_window 50 10 False one_message_layer
      = Some ([(9, [one_message_sent])], l')" "send_reliable_index l' = 1"
    using one_message_pack by blast
  have "send_reliable_index one_message_layer = 0"
    by (simp add: one_message_layer_def sample_layer_fields)
  then have numbers: "[unat (send_reliable_index one_message_layer)..<unat (send_reliable_index l')] = [0]"
    using pack(2) by simp
  obtain taken fresh and xs :: "outgoing_fragment list" where
    "concat (map snd [(9 :: nat, [one_message_sent])]) = taken @ fresh"
    "map unnumbered fresh = map outgoing xs"
    "map unat (reliable_numbers fresh) =
      [unat (send_reliable_index one_message_layer)..<unat (send_reliable_index l')]"
    using reliable_numbers_consecutive [OF one_message_inv pack(1)] by blast
  then show ?thesis unfolding packed_sample numbers by (intro exI conjI)
qed

text \<open>C17: when the packets of an update are sent without an error, the datagrams given to the
  network are the packets in their order, each encoded with the next sequence number, and the
  cache holds under that number the reliable fragments of the packet, with the time they were
  sent.\<close>
theorem sent_packets_in_flight:
  assumes "send_packets w send_to sliding_window now addr needs ps (l, net) = Some (Inr (), (l', net'))"
    and "cache_inv n (retransmit_cache l)" and "unat (next_seq (controller l)) = n"
    and "n + length ps + 128 < 2 ^ 32"
  shows "\<exists>ds. net' = fold (\<lambda>d net. snd (send_to d addr net)) ds net \<and> length ds = length ps \<and>
     (\<forall>i < length ps.
       (\<exists>seq. unat seq = n + i \<and>
          put_datagram w (Packet False True needs seq (snd (ps ! i))) = Some (ds ! i)) \<and>
       in_flight (retransmit_cache l') (n + i) =
         Some (Valid (filter (\<lambda>f. is_reliable (reliability f)) (snd (ps ! i))) now)) \<and>
     unat (next_seq (controller l')) = n + length ps"
proof -
  obtain ds where ds: "encodes w needs n ps ds" "net' = send_all send_to addr ds net"
    "unat (next_seq (controller l')) = n + length ps"
    using sliding.sent_datagrams [OF assms(1,3)] by blast
  have "\<forall>i < length ps. in_flight (retransmit_cache l') (n + i) =
      Some (Valid (filter (\<lambda>f. is_reliable (reliability f)) (snd (ps ! i))) now)"
    using sliding.send_packets_spec [OF assms] by blast
  then show ?thesis
    using ds(2,3) encodes_nth [OF ds(1)] unfolding send_all_def by (intro exI [of _ ds]) blast
qed

text \<open>A network that accepts everything and remembers it.\<close>

definition recording :: "(bytes \<times> socket_addr) list sender" where
  "recording bs addr sent = (True, sent @ [(bs, addr)])"

lemma recording_all: "send_all recording addr ds net = net @ map (\<lambda>d. (d, addr)) ds"
  by (induction ds arbitrary: net) (simp_all add: send_all_def recording_def)

theorem sent_packets_in_flight_witness:
  "\<exists>(l' :: sliding_window_state layer) d. in_flight (retransmit_cache l') 0 = Some (Valid [one_message_sent] 50) \<and>
     put_datagram network_wire (Packet False True True 0 [one_message_sent]) = Some d"
proof -
  obtain l' net' where run: "send_packets network_wire recording sliding_window 50 (V4 [127, 0, 0, 1] 9) True
      [(9, [one_message_sent])] (sample_layer, []) = Some (Inr (), (l', net'))"
    by (simp add: sample_layer_fields sw_get_seq_and_increment_def sw_new_def uadd_def Let_def
        send_datagram_def put_datagram_Packet recording_def cache_insert_def cache_new_def
        cache_index_def PACKET_HISTORY_SIZE_def one_message_sent_def new_fragment_def
        sw_on_send_packet_def)
  have start: "cache_inv 0 (retransmit_cache sample_layer)" "unat (next_seq (controller sample_layer)) = 0"
    using cache_inv_new by (simp_all add: sample_layer_fields sw_new_def)
  have rel: "is_reliable (reliability one_message_sent)"
    by (simp add: one_message_sent_def new_fragment_def)
  obtain ds where ds: "\<forall>i < length [(9 :: nat, [one_message_sent])].
      (\<exists>seq. unat seq = 0 + i \<and> put_datagram network_wire
         (Packet False True True seq (snd ([(9 :: nat, [one_message_sent])] ! i))) = Some (ds ! i)) \<and>
      in_flight (retransmit_cache l') (0 + i) =
        Some (Valid (filter (\<lambda>f. is_reliable (reliability f)) (snd ([(9 :: nat, [one_message_sent])] ! i))) 50)"
    using sent_packets_in_flight [OF run start] by auto
  then obtain seq where "unat seq = 0"
    "put_datagram network_wire (Packet False True True seq [one_message_sent]) = Some (ds ! 0)"
    "in_flight (retransmit_cache l') 0 = Some (Valid [one_message_sent] 50)"
    by (auto simp: rel simp del: put_datagram.simps)
  moreover from this have "seq = 0" by (simp add: unat_eq_zero)
  ultimately show ?thesis by blast
qed

text \<open>C34: a full retransmission cache loses a packet. When 128 packets are in flight, the next one
  goes to the network, encoded with its sequence number, but is not recorded: \<open>update\<close> returns an
  overflow error with the cache as it was, and the packet's reliable fragments, with those of
  the packets behind it, are neither in the cache nor in the queue.\<close>
theorem full_cache_loses_packet:
  assumes "cache_inv n (retransmit_cache l)" and "unat (next_seq (controller l)) = n"
    and "n = unat (start_seq (retransmit_cache l)) + 128" and "n + 1 < 2 ^ 32"
    and "\<forall>bs net. fst (send_to bs addr net)"
  shows "\<exists>bs l'. put_datagram w (Packet False True needs (next_seq (controller l)) fs) = Some bs \<and>
     send_packets w send_to sliding_window now addr needs ((sz, fs) # ps) (l, net)
       = Some (Inl (BufferOverflow BufferOverflowError), (l', snd (send_to bs addr net))) \<and>
     retransmit_cache l' = retransmit_cache l \<and> outgoing_queue l' = outgoing_queue l"
proof -
  obtain c where c: "sw_get_seq_and_increment (controller l) = Some (next_seq (controller l), c)"
    using assms(2,4) by (simp add: sw_get_seq_and_increment_def uadd_def)
  let ?l = "l\<lparr>controller := c\<rparr>"
  let ?d = "Packet False True needs (next_seq (controller l)) fs"
  obtain bs where bs: "put_datagram w ?d = Some bs" using put_datagram_Packet by blast
  obtain net' where net': "send_to bs addr net = (True, net')"
    using assms(5) by (metis prod.collapse)
  have "send_datagram w send_to addr ?d (?l, net) = Some (Inr (), (?l, net'))"
    by (simp only: send_datagram_def bs bind.simps Let_def snd_conv fst_conv net' split if_True)
  moreover have "cache_insert (next_seq (controller l)) (filter (\<lambda>f. is_reliable (reliability f)) fs) now
      (retransmit_cache l) = Some (Inl BufferOverflowError, retransmit_cache l)"
    using cache_insert_spec [OF assms(1,2)] assms(3,4) by auto
  ultimately have "send_packets w send_to sliding_window now addr needs ((sz, fs) # ps) (l, net)
      = Some (Inl (BufferOverflow BufferOverflowError), (?l, net'))"
    using c by (simp add: Let_def sw_on_send_packet_def)
  then show ?thesis using bs net' by (intro exI [of _ bs] exI [of _ ?l]) (simp del: put_datagram.simps)
qed

text \<open>A cache with 128 empty packets in flight.\<close>

definition full_layer :: "sliding_window_state layer" where
  "full_layer = sample_layer
     \<lparr>retransmit_cache := \<lparr>histories = replicate 128 (Valid [] 0), start_seq = 0,
        retransmit_fragments = []\<rparr>,
      controller := (sw_new 1464)\<lparr>next_seq := 128\<rparr>\<rparr>"

theorem full_cache_loses_packet_witness:
  "\<exists>l' net'. send_packets network_wire recording sliding_window 50 (V4 [127, 0, 0, 1] 9) True
       [(9, [one_message_sent])] (full_layer, [])
       = Some (Inl (BufferOverflow BufferOverflowError), (l', net')) \<and>
     retransmit_cache l' = retransmit_cache full_layer \<and> length net' = 1"
proof -
  have "in_flight (retransmit_cache full_layer) = (\<lambda>i. if i < 128 then Some (Valid [] 0) else None)"
    by (simp add: in_flight_def full_layer_def pending_def fun_eq_iff)
  then have "cache_inv 128 (retransmit_cache full_layer)"
    by (auto simp: cache_inv_def full_layer_def split: if_splits)
  then show ?thesis
    using full_cache_loses_packet [of 128 full_layer recording "V4 [127, 0, 0, 1] 9" network_wire True
        "[one_message_sent]" 50 9 "[]" "[]"]
    by (fastforce simp: full_layer_def recording_def)
qed

text \<open>A layer with an empty cache and nothing to acknowledge, whose next fragment is larger than
  the congestion window.\<close>

definition stalled :: "sliding_window_state layer \<Rightarrow> bool" where
  "stalled l \<longleftrightarrow>
     cache_is_empty (retransmit_cache l) \<and> acks l = [] \<and> naks l = [] \<and>
     (\<exists>x. heap_peek (outgoing_queue l) = Some x \<and> calc_full_size (outgoing x) > cwnd (controller l))"

lemma cache_is_empty_retransmit:
  assumes "cache_is_empty c"
  shows "get_retransmit_fragments now rto c = Some c" "retransmit_fragments c = []"
  using assms by (simp_all add: get_retransmit_fragments_def cache_is_empty_def)

lemma stalled_pack:
  assumes "stalled l"
  shows "\<exists>c. pack_packets sliding_window now since cont l = Some ([], l\<lparr>controller := c\<rparr>) \<and>
     cwnd c = cwnd (controller l) \<and> oldest_unsent_ack c = oldest_unsent_ack (controller l)"
proof -
  obtain x where x: "heap_peek (outgoing_queue l) = Some x" "calc_full_size (outgoing x) > cwnd (controller l)"
    using assms by (auto simp: stalled_def)
  let ?c = "(controller l)\<lparr>continuous_send := cont\<rparr>"
  have empty: "cache_is_empty (retransmit_cache l)" using assms by (simp add: stalled_def)
  have cache: "retransmit_cache l\<lparr>retransmit_fragments := []\<rparr> = retransmit_cache l"
    using cache_is_empty_retransmit(2) [OF empty] by simp
  have "pack_outgoing (cwnd (controller l)) m (outgoing_queue l) i empty_packing
      = Some (outgoing_queue l, i, empty_packing)" for m i
    using x by (simp add: pack_outgoing.simps empty_packing_def)
  then have "pack_packets sliding_window now since cont l = Some ([], l\<lparr>controller := ?c\<rparr>)"
    using cache_is_empty_retransmit [OF empty] cache
    by (simp add: pack_packets_def sw_get_transmission_bandwidth_def Let_def)
      (simp add: empty_packing_def)
  then show ?thesis by (intro exI [of _ ?c]) simp
qed

text \<open>C35: a window smaller than the next fragment stops the connection for good. \<open>update\<close> returns
  without an error, sends nothing, keeps the queue, and leaves the layer in the same condition,
  at whatever times it is called: without packets in flight no acknowledgement can reopen the
  window.\<close>
theorem small_window_stalls:
  assumes "stalled l" and "last_update l \<le> now" and "oldest_unsent_ack (controller l) \<le> now"
  shows "\<exists>l'. update w send_to sliding_window now addr (l, net) = Some (Inr (), (l', net)) \<and>
     stalled l' \<and> outgoing_queue l' = outgoing_queue l \<and> last_update l' = now \<and>
     oldest_unsent_ack (controller l') = oldest_unsent_ack (controller l)"
proof -
  have u: "usub now (last_update l) = Some (now - last_update l)"
    "usub now (oldest_unsent_ack (controller l)) = Some (now - oldest_unsent_ack (controller l))"
    using assms(2,3) by (simp_all add: usub_def)
  let ?l0 = "l\<lparr>last_update := now\<rparr>"
  let ?l1 = "?l0\<lparr>bandwidth_exceeded := True\<rparr>"
  have l: "cache_is_empty (retransmit_cache l)" "acks l = []" "naks l = []" "outgoing_queue l \<noteq> []"
    using assms(1) by (auto simp: stalled_def heap_peek_def)
  have alive: "check_alive now ?l0 = Some ?l0" using l(1) by (simp add: check_alive_def)
  have "stalled ?l1" using assms(1) by (simp add: stalled_def)
  then obtain c where c: "pack_packets sliding_window now (now - last_update l) (bandwidth_exceeded l) ?l1
      = Some ([], ?l1\<lparr>controller := c\<rparr>)"
    "cwnd c = cwnd (controller l)" "oldest_unsent_ack c = oldest_unsent_ack (controller l)"
    using stalled_pack [of ?l1 now "now - last_update l" "bandwidth_exceeded l"] by auto
  let ?l2 = "?l1\<lparr>controller := c\<rparr>"
  have "send_queued w send_to sliding_window now (now - last_update l) addr (?l0, net)
      = Some (Inr (), (?l2, net))"
    using l(4) c(1) by (simp add: send_queued_def Let_def)
  then have "update w send_to sliding_window now addr (l, net) = Some (Inr (), (?l2, net))"
    using u alive l(2,3)
    by (simp add: update_def send_acks_def send_naks_def sw_should_send_ack_def)
  moreover have "stalled ?l2" using assms(1) c(2) by (simp add: stalled_def)
  ultimately show ?thesis using c(3) by (intro exI [of _ ?l2]) simp
qed

definition stalled_layer :: "sliding_window_state layer" where
  "stalled_layer = one_message_layer\<lparr>controller := (sw_new 1464)\<lparr>cwnd := 8\<rparr>\<rparr>"

theorem small_window_stalls_witness:
  "\<exists>l'. update network_wire recording sliding_window 50 (V4 [127, 0, 0, 1] 9) (stalled_layer, [])
     = Some (Inr (), (l', [])) \<and> stalled l'"
proof -
  have last: "last_update stalled_layer = 0" "oldest_unsent_ack (controller stalled_layer) = 0"
    by (simp_all add: stalled_layer_def one_message_layer_def sample_layer_def layer_new_def
        size_sub_def HEADER_SIZE_def PACKET_HEADER_SIZE_def IP_UDP_HEADER_SIZE_def sw_new_def)
  have "stalled stalled_layer"
    by (simp add: stalled_def stalled_layer_def one_message_layer_def sample_layer_fields
        cache_is_empty_def cache_new_def cache_index_def PACKET_HISTORY_SIZE_def heap_peek_def
        calc_full_size_def calc_header_size_def)
  then show ?thesis
    using small_window_stalls [of stalled_layer 50] last by force
qed

end
