(* ===== verification/Layer_Order.thy ===== *)
theory Layer_Order
  imports Layer_Receive
begin

text \<open>
  Ordering channels of the receiving side: what a channel delivers for ordered and for sequenced
  messages, and the two ways in which it fails, a gap that wedges the channel and a channel
  number out of range.
\<close>

section \<open>Deliveries on one channel\<close>

fun deliver_all :: "fragment list \<Rightarrow> 'c layer \<Rightarrow> 'c layer option" where
  "deliver_all [] l = Some l"
| "deliver_all (f # fs) l =
     do {
       l \<leftarrow> deliver f l;
       deliver_all fs l
     }"

lemma deliver_all_append:
  "deliver_all (fs @ gs) l = do { l \<leftarrow> deliver_all fs l; deliver_all gs l }"
  by (induction fs arbitrary: l) (simp_all split: bind_split)

definition ordered_on :: "u8 \<Rightarrow> u32 \<Rightarrow> fragment \<Rightarrow> bool" where
  "ordered_on ch index f \<longleftrightarrow>
     ordering_info f = Some \<lparr>ordering_index = index, channel = ch\<rparr> \<and> sequence_index f = None"

definition channels_ok :: "'c layer \<Rightarrow> bool" where
  "channels_ok l \<longleftrightarrow>
     length (recv_ordering_index l) = ORDERING_CHANNEL_SIZE \<and>
     length (recv_sequence_index l) = ORDERING_CHANNEL_SIZE \<and>
     length (ordered_fragments l) = ORDERING_CHANNEL_SIZE"

lemma deliver_later:
  assumes "ordered_on ch index f" "unat ch < ORDERING_CHANNEL_SIZE" "channels_ok l"
    and "unat index = unat (recv_ordering_index l ! unat ch) + Suc j"
  shows "deliver f l = Some (l\<lparr>ordered_fragments := (ordered_fragments l)
    [unat ch := enqueue_ordered j (data f) (ordered_fragments l ! unat ch)]\<rparr>)"
proof -
  let ?k = "recv_ordering_index l ! unat ch"
  have less: "?k < index" using assms(4) by (simp add: word_less_nat_alt)
  have "unat (index - ?k) = Suc j"
    using assms(4) less by (simp add: unat_sub word_less_nat_alt word_le_nat_alt)
  then have "unat (index - ?k - 1) = j"
    using unat_minus_one [of "index - ?k"] by (cases "index - ?k = 0") auto
  then show ?thesis
    using assms(1-3) less
    by (auto simp: deliver_def ordered_on_def handle_ordered_def channels_ok_def array_get_def Let_def)
qed

lemma deliver_current:
  assumes "ordered_on ch (recv_ordering_index l ! unat ch) f" "unat ch < ORDERING_CHANNEL_SIZE"
    "channels_ok l" "uadd (recv_ordering_index l ! unat ch) 1 = Some next'"
  shows "deliver f l =
     map_option (\<lambda>(queue, index, out).
       l\<lparr>recv_ordering_index := (recv_ordering_index l)[unat ch := index],
         recv_sequence_index := (recv_sequence_index l)[unat ch := 0],
         ordered_fragments := (ordered_fragments l)[unat ch := queue], output_queue := out\<rparr>)
       (release_ordered (ordered_fragments l ! unat ch) next' (output_queue l @ [data f]))"
  using assms
  by (auto simp: deliver_def ordered_on_def handle_ordered_def channels_ok_def array_get_def Let_def
      split: bind_split)

section \<open>Stashed messages\<close>

text \<open>The queue of a channel that waits for index \<open>k\<close> and holds the messages \<open>k + i\<close> for \<open>i\<close>
  in \<open>arrived\<close>: slot \<open>i\<close> is for \<open>k + Suc i\<close>, and the last slot is filled.\<close>

definition stashed :: "(nat \<Rightarrow> bytes) \<Rightarrow> nat set \<Rightarrow> bytes option list \<Rightarrow> bool" where
  "stashed d arrived queue \<longleftrightarrow>
     (\<forall>i < length queue. queue ! i = (if Suc i \<in> arrived then Some (d (Suc i)) else None)) \<and>
     arrived \<subseteq> {1..length queue} \<and> (queue \<noteq> [] \<longrightarrow> length queue \<in> arrived)"

lemma stashed_empty: "stashed d {} []"
  by (simp add: stashed_def)

lemma stashed_insert:
  assumes "stashed d arrived queue"
  shows "stashed d (insert (Suc j) arrived) (enqueue_ordered j (d (Suc j)) queue)"
proof (cases "j < length queue")
  case True
  then have "enqueue_ordered j (d (Suc j)) queue = queue[j := Some (d (Suc j))]"
    by (simp add: enqueue_ordered_def)
  then show ?thesis using assms True by (auto simp: stashed_def nth_list_update)
next
  case False
  define q where "q = enqueue_ordered j (d (Suc j)) queue"
  have len: "length q = Suc j" using False by (simp add: q_def enqueue_ordered_def)
  have nth: "q ! i = (if i = j then Some (d (Suc j)) else if i < length queue then queue ! i else None)"
    if "i \<le> j" for i
    using that False by (auto simp: q_def enqueue_ordered_def nth_list_update nth_append)
  have "Suc i \<notin> arrived" if "\<not> i < length queue" for i
    using assms that by (auto simp: stashed_def)
  then show ?thesis
    using assms len nth False by (auto simp: stashed_def q_def [symmetric] less_Suc_eq_le)
qed

lemma stashed_full: "stashed d {1..m} queue \<Longrightarrow> queue = map (\<lambda>i. Some (d (Suc i))) [0..<m]"
proof -
  assume s: "stashed d {1..m} queue"
  then have "{1..m} \<subseteq> {1..length queue}" "queue \<noteq> [] \<longrightarrow> length queue \<in> {1..m}"
    by (auto simp: stashed_def)
  then have "length queue = m" by (cases "m = 0"; cases "queue = []") auto
  then show ?thesis using s by (intro nth_equalityI) (auto simp: stashed_def)
qed

lemma release_ordered_map:
  assumes "unat index + length ds < 2 ^ 32" "rest = [] \<or> hd rest = None"
  shows "\<exists>index'. release_ordered (map Some ds @ rest) index out = Some (rest, index', out @ ds) \<and>
     unat index' = unat index + length ds"
  using assms(1)
proof (induction ds arbitrary: index out)
  case Nil
  have "release_ordered rest index out = Some (rest, index, out)"
    using assms(2) by (cases rest; cases "hd rest") auto
  then show ?case by simp
next
  case (Cons b ds)
  obtain n where n: "uadd index 1 = Some n" "unat n = unat index + 1"
    using uadd_of_nat [of index 1] Cons.prems by auto
  obtain index' where "release_ordered (map Some ds @ rest) n (out @ [b]) = Some (rest, index', (out @ [b]) @ ds)"
    "unat index' = unat n + length ds"
    using Cons.IH [of n "out @ [b]"] Cons.prems n(2) by auto
  then show ?case using n by simp
qed

text \<open>The messages \<open>k + i\<close> for \<open>i\<close> in \<open>is\<close>, all later than the one the channel waits for, are kept.\<close>

lemma deliver_all_later:
  assumes "unat ch < ORDERING_CHANNEL_SIZE" "channels_ok l"
    and "stashed (\<lambda>i. data (F i)) arrived (ordered_fragments l ! unat ch)"
    and "\<forall>i \<in> set is. 0 < i \<and> (\<exists>index. ordered_on ch index (F i) \<and>
          unat index = unat (recv_ordering_index l ! unat ch) + i)"
  shows "\<exists>queue. deliver_all (map F is) l =
       Some (l\<lparr>ordered_fragments := (ordered_fragments l)[unat ch := queue]\<rparr>) \<and>
     stashed (\<lambda>i. data (F i)) (arrived \<union> set is) queue"
  using assms(2-4)
proof (induction "is" arbitrary: l arrived)
  case Nil
  then show ?case by (intro exI [of _ "ordered_fragments l ! unat ch"]) simp
next
  case (Cons i "is")
  obtain j where j: "i = Suc j" using Cons.prems(3) by (cases i) auto
  obtain index where index: "ordered_on ch index (F i)"
    "unat index = unat (recv_ordering_index l ! unat ch) + Suc j"
    using Cons.prems(3) j by auto
  let ?q = "enqueue_ordered j (data (F i)) (ordered_fragments l ! unat ch)"
  let ?l = "l\<lparr>ordered_fragments := (ordered_fragments l)[unat ch := ?q]\<rparr>"
  have "deliver (F i) l = Some ?l"
    by (rule deliver_later [OF index(1) assms(1) Cons.prems(1) index(2)])
  moreover have "stashed (\<lambda>i. data (F i)) (insert i arrived) (ordered_fragments ?l ! unat ch)"
    using stashed_insert [OF Cons.prems(2), of j] assms(1) Cons.prems(1)
    by (simp add: channels_ok_def j)
  moreover have "channels_ok ?l" using Cons.prems(1) by (simp add: channels_ok_def)
  ultimately show ?case
    using Cons.IH [of ?l "insert i arrived"] Cons.prems(3) by auto
qed

lemma ordered_batch:
  assumes ch: "unat ch < ORDERING_CHANNEL_SIZE" "channels_ok l" "ordered_fragments l ! unat ch = []"
    and k: "unat (recv_ordering_index l ! unat ch) = k" "k + Suc m < 2 ^ 32"
    and F: "\<forall>i \<le> m. ordered_on ch (word_of_nat (k + i)) (F i)"
    and later: "set is = {1..m}"
  shows "\<exists>l'. deliver_all (map F (is @ [0])) l = Some l' \<and> channels_ok l' \<and>
     output_queue l' = output_queue l @ map (\<lambda>i. data (F i)) [0..<Suc m] \<and>
     unat (recv_ordering_index l' ! unat ch) = k + Suc m \<and> ordered_fragments l' ! unat ch = []"
proof -
  have "\<forall>i \<in> set is. 0 < i \<and> (\<exists>index. ordered_on ch index (F i) \<and>
      unat index = unat (recv_ordering_index l ! unat ch) + i)"
  proof
    fix i assume "i \<in> set is"
    then have i: "0 < i" "i \<le> m" using later by auto
    then have "k + i < 2 ^ LENGTH(32)" using k(2) by simp
    then have "unat (word_of_nat (k + i) :: u32) = k + i" by (rule unat_word_of_nat)
    with i F k(1) show "0 < i \<and> (\<exists>index. ordered_on ch index (F i) \<and>
        unat index = unat (recv_ordering_index l ! unat ch) + i)"
      by auto
  qed
  then obtain queue where queue: "deliver_all (map F is) l =
      Some (l\<lparr>ordered_fragments := (ordered_fragments l)[unat ch := queue]\<rparr>)"
    "stashed (\<lambda>i. data (F i)) (set is) queue"
    using deliver_all_later [OF ch(1,2), of F "{}" "is"] ch(3) stashed_empty by auto
  let ?l = "l\<lparr>ordered_fragments := (ordered_fragments l)[unat ch := queue]\<rparr>"
  let ?ds = "map (\<lambda>i. data (F (Suc i))) [0..<m]"
  have q: "queue = map Some ?ds @ []"
    using stashed_full queue(2) later by (simp add: comp_def)
  have ok: "channels_ok ?l" using ch(2) by (simp add: channels_ok_def)
  have nth: "ordered_fragments ?l ! unat ch = queue" using ch(1,2) by (simp add: channels_ok_def)
  have "recv_ordering_index l ! unat ch = word_of_nat k" using k(1) by auto
  then have f0: "ordered_on ch (recv_ordering_index ?l ! unat ch) (F 0)" using F by force
  obtain n where n: "uadd (recv_ordering_index ?l ! unat ch) 1 = Some n" "unat n = Suc k"
    using uadd_of_nat [of "recv_ordering_index l ! unat ch" 1] k by auto
  obtain index where index: "release_ordered queue n (output_queue ?l @ [data (F 0)]) =
      Some ([], index, (output_queue ?l @ [data (F 0)]) @ ?ds)" "unat index = unat n + length ?ds"
    using release_ordered_map [of n ?ds "[]" "output_queue ?l @ [data (F 0)]"] n(2) k(2)
    unfolding q by auto
  have map: "map (\<lambda>i. data (F i)) [0..<Suc m] = data (F 0) # ?ds"
    by (simp only: upt_conv_Cons zero_less_Suc list.map map_Suc_upt [symmetric] map_map comp_def)
  show ?thesis
    using queue(1) deliver_current [OF f0 ch(1) ok n(1)] index n(2) nth ch(1) ok
    by (auto simp: deliver_all_append map channels_ok_def simp del: upt_Suc)
qed

section \<open>A gap\<close>

definition misses_index :: "u8 \<Rightarrow> u32 \<Rightarrow> fragment \<Rightarrow> bool" where
  "misses_index ch index f \<longleftrightarrow>
     (\<forall>oi. ordering_info f = Some oi \<and> channel oi = ch \<longrightarrow> ordering_index oi \<noteq> index)"

text \<open>A channel moves on only when the index it waits for arrives.\<close>

lemma deliver_waits:
  assumes "deliver f l = Some l'" "misses_index ch (recv_ordering_index l ! unat ch) f"
  shows "recv_ordering_index l' ! unat ch = recv_ordering_index l ! unat ch"
proof (cases "ordering_info f")
  case None
  then show ?thesis using assms(1) by (auto simp: deliver_def)
next
  case (Some oi)
  show ?thesis
  proof (cases "channel oi = ch")
    case True
    then show ?thesis
      using assms Some
      by (auto simp: deliver_def handle_ordered_def misses_index_def array_get_def Let_def
          split: bind_splits if_splits option.splits)
  next
    case False
    then have "unat (channel oi) \<noteq> unat ch" by (simp add: word_unat_eq_iff)
    then show ?thesis
      using assms Some
      by (auto simp: deliver_def handle_ordered_def array_get_def Let_def
          split: bind_splits if_splits option.splits)
  qed
qed

lemma deliver_all_waits:
  "deliver_all fs l = Some l' \<Longrightarrow>
     \<forall>f \<in> set fs. misses_index ch (recv_ordering_index l ! unat ch) f \<Longrightarrow>
     recv_ordering_index l' ! unat ch = recv_ordering_index l ! unat ch"
proof (induction fs arbitrary: l)
  case (Cons f fs)
  then obtain l1 where "deliver f l = Some l1" "deliver_all fs l1 = Some l'"
    by (auto split: bind_splits)
  with Cons deliver_waits [of f l l1 ch] show ?case by simp
qed simp

lemma deliver_gap:
  assumes ch: "unat ch < ORDERING_CHANNEL_SIZE" "channels_ok l" "ordered_fragments l ! unat ch = []"
    and k: "recv_ordering_index l ! unat ch = k" "unat k + 3 < 2 ^ 32"
    and F: "ordered_on ch k f0" "ordered_on ch (k + 1) f1" "ordered_on ch (k + 2) f2"
  shows "\<exists>l'. deliver_all [f2, f0, f1] l = Some l' \<and>
     output_queue l' = output_queue l @ [data f0, data f1] \<and>
     recv_ordering_index l' ! unat ch = k + 2 \<and>
     ordered_fragments l' ! unat ch = [None, Some (data f2)] \<and> channels_ok l'"
proof -
  have u: "uadd k 1 = Some (k + 1)" "uadd (k + 1) 1 = Some (k + 2)"
    "unat (k + 2) = unat k + Suc 1" "unat (k + 1) = unat k + 1"
    using k(2) by (auto simp: uadd_def unat_word_ariths)
  let ?q = "[None, Some (data f2)]"
  let ?l1 = "l\<lparr>ordered_fragments := (ordered_fragments l)[unat ch := ?q]\<rparr>"
  have q: "enqueue_ordered 1 (data f2) [] = ?q" by (simp add: enqueue_ordered_def numeral_eq_Suc)
  have l1: "deliver f2 l = Some ?l1"
    using deliver_later [OF F(3) ch(1,2), of 1] u(3) k(1) ch(3) q by simp
  have ok1: "channels_ok ?l1" using ch(2) by (simp add: channels_ok_def)
  have nth: "ordered_fragments ?l1 ! unat ch = ?q" using ch(1,2) by (simp add: channels_ok_def)
  let ?l2 = "?l1\<lparr>recv_ordering_index := (recv_ordering_index ?l1)[unat ch := k + 1],
      recv_sequence_index := (recv_sequence_index ?l1)[unat ch := 0],
      ordered_fragments := (ordered_fragments ?l1)[unat ch := ?q],
      output_queue := output_queue ?l1 @ [data f0]\<rparr>"
  have l2: "deliver f0 ?l1 = Some ?l2"
    using deliver_current [of ch ?l1 f0 "k + 1"] F(1) ch(1) ok1 k(1) u(1) nth by simp
  have ok2: "channels_ok ?l2" using ch(2) by (simp add: channels_ok_def)
  have cur: "recv_ordering_index ?l2 ! unat ch = k + 1" "ordered_fragments ?l2 ! unat ch = ?q"
    using ch(1,2) by (simp_all add: channels_ok_def)
  have l3: "deliver f1 ?l2 = Some (?l2\<lparr>recv_ordering_index := (recv_ordering_index ?l2)[unat ch := k + 2],
      recv_sequence_index := (recv_sequence_index ?l2)[unat ch := 0],
      ordered_fragments := (ordered_fragments ?l2)[unat ch := ?q],
      output_queue := output_queue ?l2 @ [data f1]\<rparr>)"
    using deliver_current [of ch ?l2 f1 "k + 2"] F(2) ch(1) ok2 cur u(2) by simp
  show ?thesis
    using l1 l2 l3 ch(1,2) by (simp add: channels_ok_def)
qed

section \<open>Sequenced messages\<close>

definition sequenced_on :: "u8 \<Rightarrow> u32 \<Rightarrow> fragment \<Rightarrow> bool" where
  "sequenced_on ch index f \<longleftrightarrow>
     ordering_info f = Some \<lparr>ordering_index = index, channel = ch\<rparr> \<and>
     (\<exists>s. sequence_index f = Some s \<and> unat s + 1 < 2 ^ 32)"

definition seq_number :: "fragment \<Rightarrow> nat" where
  "seq_number f = unat (the (sequence_index f))"

text \<open>The arrivals that are newer than everything before them, starting from number \<open>from\<close>.\<close>

definition newest :: "nat \<Rightarrow> fragment list \<Rightarrow> fragment list" where
  "newest from fs =
     map (nth fs) (filter (\<lambda>i. from \<le> seq_number (fs ! i) \<and>
       (\<forall>j < i. seq_number (fs ! j) < seq_number (fs ! i))) [0..<length fs])"

lemma newest_Nil [simp]: "newest from [] = []"
  by (simp add: newest_def)

lemma newest_Cons:
  "newest from (f # fs) =
     (if from \<le> seq_number f then f # newest (Suc (seq_number f)) fs else newest from fs)"
proof -
  have upt: "[0..<Suc (length fs)] = 0 # map Suc [0..<length fs]"
    using upt_conv_Cons [of 0 "Suc (length fs)"] by (simp add: map_Suc_upt del: upt_Suc)
  have all: "(\<forall>j < Suc i. seq_number ((f # fs) ! j) < n) \<longleftrightarrow>
      seq_number f < n \<and> (\<forall>j < i. seq_number (fs ! j) < n)" for i n
    by (auto simp: less_Suc_eq_0_disj)
  show ?thesis
  proof (cases "from \<le> seq_number f")
    case True
    then show ?thesis
      by (auto simp: newest_def upt filter_map comp_def all Suc_le_eq intro!: filter_cong
          arg_cong [where f = "map (nth fs)"] simp del: upt_Suc)
  next
    case False
    then show ?thesis
      by (auto simp: newest_def upt filter_map comp_def all intro!: filter_cong
          arg_cong [where f = "map (nth fs)"] simp del: upt_Suc)
  qed
qed

lemma deliver_sequenced:
  assumes "unat ch < ORDERING_CHANNEL_SIZE" "channels_ok l"
    and "sequenced_on ch (recv_ordering_index l ! unat ch) f"
  shows "\<exists>next'. deliver f l =
     (if unat (recv_sequence_index l ! unat ch) \<le> seq_number f then
        Some (l\<lparr>recv_sequence_index := (recv_sequence_index l)[unat ch := next'],
                output_queue := output_queue l @ [data f]\<rparr>)
      else Some l) \<and> unat next' = Suc (seq_number f)"
proof -
  obtain s where s: "sequence_index f = Some s" "unat s + 1 < 2 ^ 32"
    using assms(3) by (auto simp: sequenced_on_def)
  then obtain n where n: "uadd s 1 = Some n" "unat n = unat s + 1"
    using uadd_of_nat [of s 1] by auto
  with s assms show ?thesis
    by (auto simp: deliver_def handle_ordered_def sequenced_on_def seq_number_def channels_ok_def
        array_get_def Let_def word_le_nat_alt)
qed

lemma sequenced_run:
  assumes "unat ch < ORDERING_CHANNEL_SIZE" "channels_ok l"
    and "\<forall>f \<in> set fs. sequenced_on ch (recv_ordering_index l ! unat ch) f"
  shows "\<exists>l'. deliver_all fs l = Some l' \<and> output_queue l' =
     output_queue l @ map data (newest (unat (recv_sequence_index l ! unat ch)) fs)"
  using assms(2,3)
proof (induction fs arbitrary: l)
  case (Cons f fs)
  obtain n where n: "deliver f l =
     (if unat (recv_sequence_index l ! unat ch) \<le> seq_number f then
        Some (l\<lparr>recv_sequence_index := (recv_sequence_index l)[unat ch := n],
                output_queue := output_queue l @ [data f]\<rparr>)
      else Some l)" "unat n = Suc (seq_number f)"
    using deliver_sequenced [OF assms(1) Cons.prems(1)] Cons.prems(2) by force
  show ?case
  proof (cases "unat (recv_sequence_index l ! unat ch) \<le> seq_number f")
    case True
    let ?l = "l\<lparr>recv_sequence_index := (recv_sequence_index l)[unat ch := n],
        output_queue := output_queue l @ [data f]\<rparr>"
    have "channels_ok ?l" "recv_sequence_index ?l ! unat ch = n"
      using Cons.prems(1) assms(1) by (simp_all add: channels_ok_def)
    then show ?thesis
      using Cons.IH [of ?l] Cons.prems(2) n True by (simp add: newest_Cons)
  next
    case False
    then show ?thesis using Cons.IH [of l] Cons.prems n by (simp add: newest_Cons)
  qed
qed simp

section \<open>Properties\<close>

text \<open>C3: a message of a reliable, unordered class arrives intact and once. Its pieces, delivered
  in any order with numbers the receiver has not seen, put exactly the message into the output
  queue, when the last of them arrives.\<close>
theorem reliable_message_delivered:
  assumes "fresh_pieces max_size id' f limit fs l"
    and "split_info f = None" and "ordering_info f = None"
    and "calc_header_size f + SPLIT_INFO_SIZE < max_size" and "piece_count max_size f < 2 ^ 32"
  shows "\<exists>l'. handle_fragments fs l = Some (Inr (), l') \<and> output_queue l' = output_queue l @ [data f]"
  by (rule message_delivered [OF assms])

definition big_message :: fragment where
  "big_message = new_fragment Reliable 0 [1, 2, 3, 4, 5, 6, 7, 8, 9, 10, 11, 12, 13, 14, 15] sample_layer"

definition big_pieces :: "fragment list" where
  "big_pieces =
     [(piece 20 0 big_message 2)\<lparr>reliable_index := Some 0\<rparr>,
      (piece 20 0 big_message 0)\<lparr>reliable_index := Some 1\<rparr>,
      (piece 20 0 big_message 3)\<lparr>reliable_index := Some 2\<rparr>,
      (piece 20 0 big_message 1)\<lparr>reliable_index := Some 3\<rparr>]"

lemma big_message_count: "piece_count 20 big_message = 4" "calc_header_size big_message = 6"
  by (simp_all add: calc_header_size_def big_message_def piece_count_def piece_size_def
      SPLIT_INFO_SIZE_def)

lemma big_message_pieces: "message_pieces 20 0 big_message = map (piece 20 0 big_message) [0, 1, 2, 3]"
proof -
  have "calc_full_size big_message = 21"
    by (simp add: calc_full_size_def big_message_count) (simp add: big_message_def)
  moreover have "[0..<4] = [0, 1, 2, 3 :: nat]" by (simp add: upt_rec)
  ultimately show ?thesis by (simp add: message_pieces_def big_message_count)
qed

lemma empty_window_room: "room_for 512 512 (window_new 512 :: unit window)"
  "seen 512 (window_new 512 :: unit window) = {}"
proof -
  have "settled (2 ^ 9) (window_new (2 ^ 9) :: unit window)" by (rule settled_new)
  then show "room_for 512 512 (window_new 512 :: unit window)"
    by (simp add: room_for_def window_new_def)
  show "seen 512 (window_new 512 :: unit window) = {}"
    by (auto simp: seen_def window_new_def window_map_def pending_def split: if_splits)
qed

theorem reliable_message_delivered_witness:
  "\<exists>l'. handle_fragments big_pieces sample_layer = Some (Inr (), l') \<and>
     output_queue l' = [[1, 2, 3, 4, 5, 6, 7, 8, 9, 10, 11, 12, 13, 14, 15]]"
proof -
  have "unnumbered ((piece 20 0 big_message i)\<lparr>reliable_index := Some k\<rparr>) = piece 20 0 big_message i" for i k
    by (simp add: unnumbered_def piece_def big_message_def new_fragment_def)
  then have "mset (map unnumbered big_pieces) = mset (message_pieces 20 0 big_message)"
    by (simp add: big_pieces_def big_message_pieces add_mset_commute)
  then have fresh: "fresh_pieces 20 0 big_message 512 big_pieces sample_layer"
    unfolding fresh_pieces_def sample_layer_fields
    using empty_window_room by (simp add: big_pieces_def)
  show ?thesis
    using reliable_message_delivered [OF fresh]
    by (simp add: big_message_count SPLIT_INFO_SIZE_def sample_layer_fields)
      (simp add: big_message_def new_fragment_def)
qed

text \<open>C16: a reliable fragment that arrives again while its number is still in the window is
  dropped: nothing in the layer changes, in particular it is not delivered a second time.\<close>
theorem duplicate_in_window_dropped:
  assumes "settled 512 (reliable_window l)"
    and "unat (start_index (reliable_window l)) + 512 < 2 ^ 32"
    and "reliable_index f = Some index" and "start_index (reliable_window l) \<le> index"
    and "unat index \<in> seen 512 (reliable_window l)"
  shows "handle_fragment f l = Some (Inr (), l)"
  by (rule handle_fragment_duplicate [OF assms])

theorem duplicate_in_window_dropped_witness:
  "\<exists>l :: sliding_window_state layer. handle_fragment ((hd big_pieces)\<lparr>reliable_index := Some 3\<rparr>) l = Some (Inr (), l) \<and>
     reliable_window l \<noteq> window_new 512"
proof -
  obtain w where w: "insert_and_shift 512 3 () (window_new 512) = Some (Inr True, w)"
    "settled 512 w" "seen 512 w = {3}" "(0 :: u32) \<le> start_index w"
    using insert_and_shift_spec [of 512 "window_new 512" 3 "()"] empty_window_room
    by (auto simp: room_for_def window_new_def)
  have "unat (start_index w) \<notin> seen 512 w"
    using w(2) by (auto simp: settled_def seen_def)
  moreover have "{..<unat (start_index w)} \<subseteq> {3}"
    using w(3) by (auto simp: seen_def)
  ultimately have start: "unat (start_index w) = 0"
    by (metis gr0I insertI1 lessThan_iff singletonD subsetD zero_neq_numeral)
  define l where "l = set_window w sample_layer"
  have win: "reliable_window l = w" by (simp add: l_def)
  have "start_index w \<le> 3" using start by (simp add: word_le_nat_alt)
  then have "handle_fragment ((hd big_pieces)\<lparr>reliable_index := Some 3\<rparr>) l = Some (Inr (), l)"
    using w start win by (intro duplicate_in_window_dropped [where index = 3]) auto
  moreover have "w \<noteq> window_new 512" using w(3) empty_window_room(2) by auto
  ultimately show ?thesis using win by blast
qed

text \<open>C9: ordered messages are delivered in the order of their numbers when the message the channel
  waits for arrives last: the later messages may arrive in any order before it, and with it the
  whole batch is put out in order and the channel moves past it.\<close>
theorem ordered_batch_in_order:
  assumes "unat ch < ORDERING_CHANNEL_SIZE" and "channels_ok l"
    and "ordered_fragments l ! unat ch = []"
    and "unat (recv_ordering_index l ! unat ch) = k" and "k + Suc m < 2 ^ 32"
    and "\<forall>i \<le> m. ordered_on ch (word_of_nat (k + i)) (F i)" and "set is = {1..m}"
  shows "\<exists>l'. deliver_all (map F (is @ [0])) l = Some l' \<and>
     output_queue l' = output_queue l @ map (\<lambda>i. data (F i)) [0..<Suc m] \<and>
     unat (recv_ordering_index l' ! unat ch) = k + Suc m \<and> ordered_fragments l' ! unat ch = []"
  using ordered_batch [OF assms] by blast

definition ordered_sample :: "u8 \<Rightarrow> nat \<Rightarrow> fragment" where
  "ordered_sample ch i =
     \<lparr>reliability = ReliableOrdered, reliable_index = Some (word_of_nat i), sequence_index = None,
      ordering_info = Some \<lparr>ordering_index = word_of_nat i, channel = ch\<rparr>, split_info = None,
      data = [word_of_nat i]\<rparr>"

lemma ordered_sample_on: "ordered_on ch (word_of_nat i) (ordered_sample ch i)"
  by (simp add: ordered_on_def ordered_sample_def)

lemma sample_channels_ok: "channels_ok sample_layer"
  by (simp add: channels_ok_def sample_layer_fields ORDERING_CHANNEL_SIZE_def)

theorem ordered_batch_in_order_witness:
  "\<exists>l'. deliver_all (map (ordered_sample 5) [2, 3, 1, 0]) sample_layer = Some l' \<and>
     output_queue l' = [[0], [1], [2], [3]]"
proof -
  have "set [2, 3, 1] = {1..3 :: nat}" by auto
  then show ?thesis
    using ordered_batch_in_order [of 5 sample_layer 0 3 "ordered_sample 5" "[2, 3, 1]"]
      sample_channels_ok ordered_sample_on [of 5]
    by (auto simp: sample_layer_fields ORDERING_CHANNEL_SIZE_def ordered_sample_def upt_rec)
qed

text \<open>C31: a gap wedges an ordering channel. When message \<open>k + 2\<close> arrives before \<open>k\<close> and \<open>k + 1\<close>,
  all three have arrived, but the channel waits for \<open>k + 2\<close> for ever: as long as no further
  fragment with that number arrives (a reliable one is not sent again), it never moves on.\<close>
theorem ordered_gap_wedges:
  assumes "unat ch < ORDERING_CHANNEL_SIZE" and "channels_ok l"
    and "ordered_fragments l ! unat ch = []"
    and "recv_ordering_index l ! unat ch = k" and "unat k + 3 < 2 ^ 32"
    and "ordered_on ch k f0" and "ordered_on ch (k + 1) f1" and "ordered_on ch (k + 2) f2"
    and "\<forall>g \<in> set gs. misses_index ch (k + 2) g"
    and "deliver_all ([f2, f0, f1] @ gs) l = Some l'"
  shows "recv_ordering_index l' ! unat ch = k + 2"
proof -
  obtain l1 where l1: "deliver_all [f2, f0, f1] l = Some l1"
    "recv_ordering_index l1 ! unat ch = k + 2"
    using deliver_gap [OF assms(1-8)] by blast
  then have "deliver_all gs l1 = Some l'"
    using assms(10) by (simp only: deliver_all_append) simp
  then show ?thesis using deliver_all_waits [of gs l1 l' ch] l1(2) assms(9) by simp
qed

theorem ordered_gap_wedges_witness:
  "\<exists>l'. deliver_all (map (ordered_sample 5) [2, 0, 1, 3]) sample_layer = Some l' \<and>
     recv_ordering_index l' ! 5 = 2"
proof -
  note on = ordered_sample_on [of 5 0] ordered_sample_on [of 5 1] ordered_sample_on [of 5 2]
  obtain l1 where l1: "deliver_all [ordered_sample 5 2, ordered_sample 5 0, ordered_sample 5 1]
      sample_layer = Some l1" "recv_ordering_index l1 ! 5 = 2" "channels_ok l1"
    using deliver_gap [OF _ sample_channels_ok, of 5 0 "ordered_sample 5 0" "ordered_sample 5 1"
        "ordered_sample 5 2"] on
    by (auto simp: sample_layer_fields ORDERING_CHANNEL_SIZE_def)
  obtain l' where l': "deliver (ordered_sample 5 3) l1 = Some l'"
    using deliver_later [of 5 3 "ordered_sample 5 3" l1 0] l1(2,3)
    by (auto simp: ordered_on_def ordered_sample_def ORDERING_CHANNEL_SIZE_def)
  have run: "deliver_all ([ordered_sample 5 2, ordered_sample 5 0, ordered_sample 5 1]
      @ [ordered_sample 5 3]) sample_layer = Some l'"
    using l1(1) l' by (simp only: deliver_all_append) simp
  have "misses_index 5 (0 + 2) (ordered_sample 5 3)"
    by (simp add: misses_index_def ordered_sample_def)
  then have "recv_ordering_index l' ! unat (5 :: u8) = 0 + 2"
    using ordered_gap_wedges [OF _ sample_channels_ok _ _ _ _ _ _ _ run, of 5 0] on
    by (simp add: sample_layer_fields ORDERING_CHANNEL_SIZE_def)
  then show ?thesis using run by auto
qed

text \<open>C15: of sequenced messages at the ordering index the channel is at, exactly those are put out
  that are newer than every one before them and not below the expected number; older arrivals
  are dropped.\<close>
theorem sequenced_delivers_newest:
  assumes "unat ch < ORDERING_CHANNEL_SIZE" and "channels_ok l"
    and "\<forall>f \<in> set fs. sequenced_on ch (recv_ordering_index l ! unat ch) f"
  shows "\<exists>l'. deliver_all fs l = Some l' \<and> output_queue l' =
     output_queue l @ map data (newest (unat (recv_sequence_index l ! unat ch)) fs)"
  by (rule sequenced_run [OF assms])

definition sequenced_sample :: "u8 \<Rightarrow> nat \<Rightarrow> fragment" where
  "sequenced_sample ch i =
     \<lparr>reliability = UnreliableSequenced, reliable_index = None, sequence_index = Some (word_of_nat i),
      ordering_info = Some \<lparr>ordering_index = 0, channel = ch\<rparr>, split_info = None,
      data = [word_of_nat i]\<rparr>"

theorem sequenced_delivers_newest_witness:
  "\<exists>l'. deliver_all (map (sequenced_sample 5) [1, 0, 4, 2]) sample_layer = Some l' \<and>
     output_queue l' = [[1], [4]]"
proof -
  have "\<forall>f \<in> set (map (sequenced_sample 5) [1, 0, 4, 2]).
      sequenced_on 5 (recv_ordering_index sample_layer ! unat (5 :: u8)) f"
    by (simp add: sequenced_on_def sequenced_sample_def sample_layer_fields)
  then show ?thesis
    using sequenced_delivers_newest [of 5 sample_layer "map (sequenced_sample 5) [1, 0, 4, 2]"]
      sample_channels_ok
    by (auto simp: ORDERING_CHANNEL_SIZE_def sample_layer_fields newest_Cons sequenced_sample_def
        seq_number_def)
qed

section \<open>Fragments that stop the handler\<close>

text \<open>The channel number of a fragment is used as an array index without a check.\<close>

lemma bad_channel_panics:
  assumes "ordering_info f = Some oi" and "ORDERING_CHANNEL_SIZE \<le> unat (channel oi)"
    and "channels_ok l"
  shows "deliver f l = None"
  using assms by (simp add: deliver_def handle_ordered_def array_get_def channels_ok_def Let_def)

text \<open>The size of a split message is taken from its first piece, and a later piece is only checked
  against its own size.\<close>

lemma split_size_mismatch_panics:
  assumes "split_info f = Some si" and "split_index si < split_size si"
    and "split_fragments l (split_id si) = Some pieces"
    and "length pieces \<le> unat (split_index si)"
  shows "build_split_fragment f l = None"
  using assms by (simp add: build_split_fragment_def array_set_def)

end
