(* ===== verification/Peer_Correct.thy ===== *)
theory Peer_Correct
  imports Peer_Invariant Layer_Transmit Layer_Order
begin

text \<open>
  Properties of the peer: the connection count is exact through a whole update cycle, the
  handshake and the message handlers behave as the protocol asks, and the situations in which a
  packet from the network, or an ordinary use of the interface, stops the task.
\<close>

section \<open>The online handshake\<close>

lemma ptimes_try_get_addr:
  assumes "wire_format w" "valid_addr a"
  shows "ptimes n (try_get_addr w) (concat (replicate n (put_addr w a)) @ r)
    = Inr (replicate n (addr_on_wire a), r)"
  by (induction n) (simp_all add: try_get_addr_on_wire [OF assms])

lemma valid_unspecified: "valid_addr unspecified_addr"
  by (simp add: unspecified_addr_def)

lemma try_get_connection_request_put:
  assumes "wire_format w"
  shows "try_get_connection_request w (put_u64 w g @ put_u64 w t @ [b]) = Inr (t, [])"
  using wire_format.try_get_u64_put [OF assms] by (simp add: try_get_connection_request_def)

lemma try_get_request_accepted_put:
  assumes "wire_format w" "valid_addr a"
  shows "try_get_request_accepted w (put_addr w a @ put_u16 w i
      @ concat (replicate 10 (put_addr w unspecified_addr)) @ put_u64 w t @ put_u64 w u)
    = Inr ((addr_on_wire a, t, u), [])"
  using wire_format.try_get_u64_put [OF assms(1)] wire_format.try_get_u64_put [OF assms(1), of u "[]"]
    wire_format.try_get_u16_put [OF assms(1)]
  by (simp add: try_get_request_accepted_def try_get_addr_on_wire [OF assms]
      ptimes_try_get_addr [OF assms(1) valid_unspecified])

lemma try_get_new_incoming_put:
  assumes "wire_format w" "valid_addr a"
  shows "try_get_new_incoming w (put_addr w a
      @ concat (replicate 20 (put_addr w unspecified_addr)) @ put_u64 w t @ put_u64 w u) = Inr (t, [])"
  using wire_format.try_get_u64_put [OF assms(1)] wire_format.try_get_u64_put [OF assms(1), of u "[]"]
  by (simp add: try_get_new_incoming_def try_get_addr_on_wire [OF assms]
      ptimes_try_get_addr [OF assms(1) valid_unspecified])

lemma send_to_conn_ready:
  assumes "sender_ready (Suc k) (conn_layer c)" "unat ch < ORDERING_CHANNEL_SIZE"
  shows "\<exists>c'. send_to_conn now p r ch bs c = Some c' \<and> sender_ready k (conn_layer c') \<and>
     connect_mode c' = connect_mode c \<and> guid c' = guid c \<and>
     max_size_of_packet (conn_layer c') = max_size_of_packet (conn_layer c) \<and>
     queued (conn_layer c') = queued (conn_layer c) +
       mset (message_pieces (max_size_of_packet (conn_layer c)) (send_split_id (conn_layer c))
         (new_fragment r ch bs (conn_layer c)))"
  using send_ready [OF assms, of p r bs] by (auto simp: send_to_conn_def Let_def)

text \<open>The layer of the connection has a message of its own in its queue, unsplit.\<close>

definition queues_message :: "bytes \<Rightarrow> conn \<Rightarrow> bool" where
  "queues_message bs c \<longleftrightarrow> (\<exists>f \<in># queued (conn_layer c). data f = bs \<and> split_info f = None)"

lemma send_to_conn_queues:
  assumes "sender_ready (Suc k) (conn_layer c)" "unat ch < ORDERING_CHANNEL_SIZE"
    "length bs + 13 \<le> max_size_of_packet (conn_layer c)"
  shows "\<exists>c'. send_to_conn now p r ch bs c = Some c' \<and> sender_ready k (conn_layer c') \<and>
     connect_mode c' = connect_mode c \<and> guid c' = guid c \<and>
     max_size_of_packet (conn_layer c') = max_size_of_packet (conn_layer c) \<and>
     queues_message bs c' \<and> (\<forall>m. queues_message m c \<longrightarrow> queues_message m c')"
proof -
  let ?f = "new_fragment r ch bs (conn_layer c)"
  have "calc_full_size ?f \<le> max_size_of_packet (conn_layer c)"
    using assms(3) header_new_fragment [of r ch bs "conn_layer c"] by (simp add: calc_full_size_def)
  then have "message_pieces (max_size_of_packet (conn_layer c)) (send_split_id (conn_layer c)) ?f = [?f]"
    by (simp add: message_pieces_def)
  then show ?thesis
    using send_to_conn_ready [OF assms(1,2), of now p r bs] by (auto simp: queues_message_def)
qed

lemma length_put_addr:
  assumes "wire_format w" "valid_addr a"
  shows "length (put_addr w a) \<le> 29"
  using assms(2)
  by (cases a) (simp_all add: wire_format.length_put_u16 [OF assms(1)]
      wire_format.length_put_u32 [OF assms(1)])

lemma length_replies:
  assumes "wire_format w" "valid_addr a"
  shows "length (request_accepted_reply w now a t) \<le> 118" "length (new_incoming_reply w now a t) \<le> 186"
proof -
  have "length (put_addr w unspecified_addr) = 7"
    by (simp add: unspecified_addr_def wire_format.length_put_u16 [OF assms(1)])
  then have "length (concat (replicate n (put_addr w unspecified_addr))) = n * 7" for n
    by (induction n) simp_all
  then show "length (request_accepted_reply w now a t) \<le> 118" "length (new_incoming_reply w now a t) \<le> 186"
    using length_put_addr [OF assms] wire_format.length_put_u16 [OF assms(1)]
      wire_format.length_put_u64 [OF assms(1)]
    by (simp_all add: request_accepted_reply_def new_incoming_reply_def)
qed

text \<open>A connection ready for the handshake: room for its messages, in packets of the smallest MTU.\<close>

definition fresh_conn :: "connect_mode \<Rightarrow> conn \<Rightarrow> bool" where
  "fresh_conn mode c \<longleftrightarrow>
     connect_mode c = mode \<and> sender_ready 3 (conn_layer c) \<and>
     MIN_MTU_SIZE \<le> max_size_of_packet (conn_layer c) + 32"

lemma server_accepts_request:
  assumes w: "wire_format (env_wire e)" "valid_addr a"
    and c: "connect_mode c \<in> {UnverfiedSender, HandlingConnectionRequest, Connected, RequestedConnection}"
      "sender_ready (Suc k) (conn_layer c)" "MIN_MTU_SIZE \<le> max_size_of_packet (conn_layer c) + 32"
  shows "\<exists>c'. process_message e now a ([online_to_u8 ConnectionRequest] @ put_u64 (env_wire e) g
        @ put_u64 (env_wire e) t @ [0]) (c, p) = Some (Inr (), (c', p)) \<and>
     connect_mode c' = HandlingConnectionRequest \<and> sender_ready k (conn_layer c') \<and>
     guid c' = guid c \<and> max_size_of_packet (conn_layer c') = max_size_of_packet (conn_layer c) \<and>
     queues_message (request_accepted_reply (env_wire e) now a t) c'"
proof -
  let ?c = "c\<lparr>connect_mode := HandlingConnectionRequest\<rparr>"
  have "sender_ready (Suc k) (conn_layer ?c)" using c(2) by simp
  moreover have "length (request_accepted_reply (env_wire e) now a t) + 13
      \<le> max_size_of_packet (conn_layer ?c)"
    using length_replies(1) [OF w, of now t] c(3) by (simp add: MIN_MTU_SIZE_def)
  ultimately obtain c' where
    "send_to_conn now Immediate ReliableOrdered 0 (request_accepted_reply (env_wire e) now a t) ?c = Some c'"
    "sender_ready k (conn_layer c')" "connect_mode c' = HandlingConnectionRequest" "guid c' = guid c"
    "max_size_of_packet (conn_layer c') = max_size_of_packet (conn_layer c)"
    "queues_message (request_accepted_reply (env_wire e) now a t) c'"
    using send_to_conn_queues [of k ?c 0 "request_accepted_reply (env_wire e) now a t" now Immediate
        ReliableOrdered]
    by (auto simp: ORDERING_CHANNEL_SIZE_def)
  moreover have "online_from_u8 (online_to_u8 ConnectionRequest) = Some ConnectionRequest"
    by (rule online_from_to_u8)
  ultimately show ?thesis
    using try_get_connection_request_put [OF w(1), of g t 0]
    by (auto simp: process_message_def process_online_def Let_def simp del: online_to_u8.simps)
qed

lemma client_is_accepted:
  assumes w: "wire_format (env_wire e)" "valid_addr a'"
    and c: "connect_mode c = RequestedConnection" "sender_ready (Suc (Suc k)) (conn_layer c)"
      "MIN_MTU_SIZE \<le> max_size_of_packet (conn_layer c) + 32"
    and queue: "length (message_queue p) < MESSAGE_QUEUE_SIZE"
  shows "\<exists>c' p'. process_message e now a (request_accepted_reply (env_wire e) t1 a' t0) (c, p)
       = Some (Inr (), (c', p')) \<and>
     connect_mode c' = Connected \<and>
     message_queue p' = message_queue p
       @ [\<lparr>msg_addr = a, msg_guid = guid c, msg_context = MsgConnectionRequestAccepted\<rparr>] \<and>
     queues_message (new_incoming_reply (env_wire e) now (addr_on_wire a') t1) c'"
proof -
  let ?w = "env_wire e"
  let ?c = "c\<lparr>ping := saturating_sub now t0, connect_mode := Connected\<rparr>"
  let ?bs = "new_incoming_reply ?w now (addr_on_wire a') t1"
  have valid: "valid_addr (addr_on_wire a')" using w(2) by (cases a') simp_all
  have "sender_ready (Suc (Suc k)) (conn_layer ?c)" using c(2) by simp
  moreover have "length ?bs + 13 \<le> max_size_of_packet (conn_layer ?c)"
    using length_replies(2) [OF w(1) valid, of now t1] c(3) by (simp add: MIN_MTU_SIZE_def)
  ultimately obtain c1 where c1: "send_to_conn now Immediate ReliableOrdered 0 ?bs ?c = Some c1"
    "sender_ready (Suc k) (conn_layer c1)" "connect_mode c1 = Connected" "guid c1 = guid c"
    "max_size_of_packet (conn_layer c1) = max_size_of_packet (conn_layer c)" "queues_message ?bs c1"
    using send_to_conn_queues [of "Suc k" ?c 0 ?bs now Immediate ReliableOrdered]
    by (auto simp: ORDERING_CHANNEL_SIZE_def)
  let ?png = "online_to_u8 ConnectedPing # put_u64 ?w now"
  have "length ?png + 13 \<le> max_size_of_packet (conn_layer c1)"
    using c(3) c1(5) wire_format.length_put_u64 [OF w(1)] by (simp add: MIN_MTU_SIZE_def)
  then obtain c2 where c2: "send_ping_to_conn ?w now Unreliable c1 = Some c2"
    "connect_mode c2 = Connected" "queues_message ?bs c2"
    using send_to_conn_queues [OF c1(2), of 0 ?png now Immediate Unreliable] c1(3,6)
    by (auto simp: ORDERING_CHANNEL_SIZE_def send_ping_to_conn_def)
  have "online_from_u8 (online_to_u8 ConnectionRequestAccepted) = Some ConnectionRequestAccepted"
    by (rule online_from_to_u8)
  then show ?thesis
    using c(1) c1(1) c2 queue try_get_request_accepted_put [OF w, of 0 t0 t1]
    by (auto simp: process_message_def process_online_def request_accepted_reply_def Let_def
        send_message_def simp del: online_to_u8.simps)
qed

lemma server_is_connected:
  assumes w: "wire_format (env_wire e)" "valid_addr a'"
    and c: "connect_mode c = HandlingConnectionRequest" "sender_ready (Suc k) (conn_layer c)"
    and queue: "length (message_queue p) < MESSAGE_QUEUE_SIZE"
  shows "\<exists>c' p'. process_message e now a (new_incoming_reply (env_wire e) t2 a' t1) (c, p)
       = Some (Inr (), (c', p')) \<and>
     connect_mode c' = Connected \<and>
     message_queue p' = message_queue p
       @ [\<lparr>msg_addr = a, msg_guid = guid c, msg_context = MsgNewIncomingConnection\<rparr>]"
proof -
  let ?c = "c\<lparr>connect_mode := Connected\<rparr>"
  obtain c1 where c1: "send_ping_to_conn (env_wire e) now Unreliable ?c = Some c1"
    "connect_mode c1 = Connected" "guid c1 = guid c"
    using send_to_conn_ready [of k ?c 0] c(2)
    by (fastforce simp: ORDERING_CHANNEL_SIZE_def send_ping_to_conn_def)
  have "online_from_u8 (online_to_u8 NewIncomingConnection) = Some NewIncomingConnection"
    by (rule online_from_to_u8)
  then show ?thesis
    using c(1) c1 queue try_get_new_incoming_put [OF w, of t1 t2]
    by (auto simp: process_message_def process_online_def new_incoming_reply_def Let_def
        send_message_def simp del: online_to_u8.simps)
qed


section \<open>Connection modes\<close>

text \<open>How one message moves the mode of a connection.\<close>

inductive mode_step :: "bytes \<Rightarrow> connect_mode \<Rightarrow> connect_mode \<Rightarrow> bool" where
  request: "mode_step (0x09 # bs) m HandlingConnectionRequest"
| accepted: "mode_step (0x10 # bs) RequestedConnection Connected"
| incoming: "mode_step (0x13 # bs) HandlingConnectionRequest Connected"
| stays: "mode_step msg m m"

inductive_cases mode_stepE: "mode_step msg m m'"

inductive mode_run :: "bytes list \<Rightarrow> connect_mode \<Rightarrow> connect_mode \<Rightarrow> bool" where
  run_refl: "mode_run [] m m"
| run_step: "mode_step msg m m' \<Longrightarrow> mode_run msgs m' m'' \<Longrightarrow> mode_run (msg # msgs) m m''"

inductive_cases mode_run_ConsE: "mode_run (msg # msgs) m m'"
inductive_cases mode_run_NilE: "mode_run [] m m'"

lemma send_to_conn_mode: "send_to_conn now prio r ch bs c = Some c' \<Longrightarrow> connect_mode c' = connect_mode c"
  by (auto simp: send_to_conn_def Let_def split: bind_splits if_splits)

lemma send_ping_to_conn_mode:
  "send_ping_to_conn w now r c = Some c' \<Longrightarrow> connect_mode c' = connect_mode c"
  by (auto simp: send_ping_to_conn_def dest: send_to_conn_mode)

lemma process_online_mode:
  assumes "process_online e now a i bs (c, p) = Some (r, (c', q))"
  shows "mode_step (online_to_u8 i # bs) (connect_mode c) (connect_mode c')"
  using assms
  by (cases i)
    (auto simp: process_online_def Let_def mode_step.intros
      dest!: send_to_conn_mode send_ping_to_conn_mode
      split: sum.splits if_splits bind_splits)

lemma process_message_mode:
  assumes "process_message e now a msg (c, p) = Some (r, (c', q))"
  shows "mode_step msg (connect_mode c) (connect_mode c')"
  using assms
  by (auto simp: process_message_def online_from_u8_Some_iff intro: mode_step.stays process_online_mode
      split: list.splits if_splits option.splits)


text \<open>The messages of one datagram move the mode by a run over the ones that were processed.\<close>

lemma process_messages_mode:
  assumes "process_messages e now a msgs (c, p) = Some (c', q)"
  shows "\<exists>done rest. msgs = done @ rest \<and> mode_run done (connect_mode c) (connect_mode c')"
  using assms
proof (induction msgs arbitrary: c p)
  case Nil
  then show ?case using run_refl by auto
next
  case (Cons msg msgs)
  obtain r c1 p1 where step: "process_message e now a msg (c, p) = Some (r, (c1, p1))"
    using Cons.prems by (auto split: bind_splits)
  note moves = process_message_mode [OF step]
  show ?case
  proof (cases r)
    case (Inl err)
    then have "c' = c1" using Cons.prems step by (auto split: bind_splits)
    then have "mode_run [msg] (connect_mode c) (connect_mode c')"
      using moves run_step run_refl by blast
    moreover have "msg # msgs = [msg] @ msgs" by simp
    ultimately show ?thesis by blast
  next
    case (Inr u)
    then have "process_messages e now a msgs (c1, p1) = Some (c', q)" using Cons.prems step by simp
    from Cons.IH [OF this] obtain xs rest where
      xs: "msgs = xs @ rest" "mode_run xs (connect_mode c1) (connect_mode c')" by blast
    then have "mode_run (msg # xs) (connect_mode c) (connect_mode c')"
      using moves run_step by blast
    moreover have "msg # msgs = (msg # xs) @ rest" using xs(1) by simp
    ultimately show ?thesis by blast
  qed
qed

text \<open>Between two modes of the accepting side lies the message that leads from one to the other.\<close>

lemma handling_to_connected:
  assumes "mode_run msgs m Connected" "m = HandlingConnectionRequest"
  shows "\<exists>xs bs ys. msgs = xs @ (0x13 # bs) # ys"
  using assms
proof (induction msgs m "Connected" rule: mode_run.induct)
  case (run_step msg m m' msgs)
  show ?case
  proof (cases "m' = HandlingConnectionRequest")
    case True
    then obtain xs bs ys where "msgs = xs @ (0x13 # bs) # ys" using run_step by blast
    then have "msg # msgs = (msg # xs) @ (0x13 # bs) # ys" by simp
    then show ?thesis by blast
  next
    case False
    then obtain bs where "msg = 0x13 # bs" using run_step.hyps(1) run_step.prems by (auto elim: mode_stepE)
    then have "msg # msgs = [] @ (0x13 # bs) # msgs" by simp
    then show ?thesis by blast
  qed
qed simp

lemma unverified_to_connected:
  assumes "mode_run msgs m Connected" "m = UnverfiedSender"
  shows "\<exists>xs bs ys bs' zs. msgs = xs @ (0x09 # bs) # ys @ (0x13 # bs') # zs"
  using assms
proof (induction msgs m "Connected" rule: mode_run.induct)
  case (run_step msg m m' msgs)
  show ?case
  proof (cases "m' = UnverfiedSender")
    case True
    then obtain xs bs ys bs' zs where "msgs = xs @ (0x09 # bs) # ys @ (0x13 # bs') # zs"
      using run_step by blast
    then have "msg # msgs = (msg # xs) @ (0x09 # bs) # ys @ (0x13 # bs') # zs" by simp
    then show ?thesis by blast
  next
    case False
    then obtain bs where msg: "msg = 0x09 # bs" "m' = HandlingConnectionRequest"
      using run_step.hyps(1) run_step.prems by (auto elim: mode_stepE)
    then obtain ys bs' zs where "msgs = ys @ (0x13 # bs') # zs"
      using handling_to_connected [OF run_step.hyps(2)] by blast
    then have "msg # msgs = [] @ (0x09 # bs) # ys @ (0x13 # bs') # zs" using msg(1) by simp
    then show ?thesis by blast
  qed
qed simp


section \<open>Admission\<close>

lemma after_magic_put:
  "after_magic parser (OFFLINE_MESSAGE_DATA_ID @ bs) = parser bs"
  by (simp add: after_magic_def try_advance_def parser_defs try_take_def)

text \<open>A well-formed second request to open a connection.\<close>

definition open_request_2 :: "wire \<Rightarrow> socket_addr \<Rightarrow> u16 \<Rightarrow> u64 \<Rightarrow> bytes" where
  "open_request_2 w b mtu g =
     offline_to_u8 OpenConnectionRequest2 # OFFLINE_MESSAGE_DATA_ID @ put_addr w b @ put_u16 w mtu
       @ put_u64 w g"

lemma put_addr_nonempty: "wire_format w \<Longrightarrow> valid_addr a \<Longrightarrow> 0 < length (put_addr w a)"
  by (cases a) simp_all

lemma open_request_2_parsed:
  assumes "wire_format w" "valid_addr b"
  shows "after_magic
      (pbind (try_get_addr w) (\<lambda>binding_addr.
       pbind (try_get_u16 w) (\<lambda>mtu_size.
       pbind (try_get_u64 w) (\<lambda>g. preturn (mtu_size, g)))))
      (OFFLINE_MESSAGE_DATA_ID @ put_addr w b @ put_u16 w mtu @ put_u64 w g) = Inr ((mtu, g), [])"
  using wire_format.try_get_u64_put [OF assms(1), of g "[]"]
  by (simp add: after_magic_put try_get_addr_on_wire [OF assms] wire_format.try_get_u16_put [OF assms(1)])

lemma open_request_2_processed:
  assumes "wire_format (env_wire e)" "valid_addr b"
  shows "process_offline_packet e now a (open_request_2 (env_wire e) b mtu g) p =
     (if conn_count p \<ge> max_conn_count e then
        send_offline e a (id_magic_guid e NoFreeIncomingConnections) p
      else
        do {
          c \<leftarrow> conn_new now g UnverfiedSender (unat mtu);
          send_offline e a
            (id_magic_guid e OpenConnectionReply2 @ put_addr (env_wire e) a
             @ put_u16 (env_wire e) mtu @ [0])
            (insert_conn a c p)
        })"
proof -
  let ?w = "env_wire e"
  have size: "MIN_OFFLINE_PACKET_SIZE \<le> length (open_request_2 ?w b mtu g)"
    using wire_format.length_put_u16 [OF assms(1)] wire_format.length_put_u64 [OF assms(1)]
    by (simp add: open_request_2_def MIN_OFFLINE_PACKET_SIZE_def)
  have "offline_from_u8 (hd (open_request_2 ?w b mtu g)) = Some OpenConnectionRequest2"
    using offline_from_to_u8 [of OpenConnectionRequest2]
    by (simp add: open_request_2_def del: offline_to_u8.simps)
  moreover have "tl (open_request_2 ?w b mtu g) =
      OFFLINE_MESSAGE_DATA_ID @ put_addr ?w b @ put_u16 ?w mtu @ put_u64 ?w g"
    by (simp add: open_request_2_def)
  ultimately have "process_offline_packet e now a (open_request_2 ?w b mtu g) p =
      on_open_connection_request_2 e now a
        (OFFLINE_MESSAGE_DATA_ID @ put_addr ?w b @ put_u16 ?w mtu @ put_u64 ?w g) p"
    using size by (simp add: process_offline_packet_def)
  then show ?thesis
    by (simp add: on_open_connection_request_2_def Let_def register_conn_def with_parsed_def
        open_request_2_parsed [OF assms] split: bind_split)
qed

lemma process_packet_unknown:
  assumes "conns p a = None" "ban_list p a = None"
  shows "process_packet e now a packet p =
     do {
       (r, p) \<leftarrow> process_offline_packet e now a packet p;
       Some (case r of Inl _ \<Rightarrow> ban_addr_internal a DEFAULT_TIMEOUT p | Inr _ \<Rightarrow> p)
     }"
  using assms by (simp add: process_packet_def process_unbanned_def)

text \<open>The peer that a request leaves: it is refused at the limit, and registered below it.\<close>

definition admitted :: "'net env \<Rightarrow> u64 \<Rightarrow> socket_addr \<Rightarrow> u16 \<Rightarrow> u64 \<Rightarrow> 'net peer \<Rightarrow> 'net peer" where
  "admitted e now a mtu g p =
     (if conn_count p \<ge> max_conn_count e then p
      else insert_conn a (the (conn_new now g UnverfiedSender (unat mtu))) p)"

definition admission_reply :: "'net env \<Rightarrow> socket_addr \<Rightarrow> u16 \<Rightarrow> 'net peer \<Rightarrow> bytes" where
  "admission_reply e a mtu p =
     (if conn_count p \<ge> max_conn_count e then id_magic_guid e NoFreeIncomingConnections
      else id_magic_guid e OpenConnectionReply2 @ put_addr (env_wire e) a
        @ put_u16 (env_wire e) mtu @ [0])"

lemma conn_new_Some:
  assumes "32 \<le> mtu"
  shows "\<exists>c. conn_new now g mode mtu = Some c \<and> connect_mode c = mode"
  using assms
  by (auto simp: conn_new_def layer_new_def size_sub_def IP_UDP_HEADER_SIZE_def HEADER_SIZE_def
      PACKET_HEADER_SIZE_def)

lemma conn_new_None: "mtu < 32 \<Longrightarrow> conn_new now g mode mtu = None"
  by (simp add: conn_new_def layer_new_def size_sub_def IP_UDP_HEADER_SIZE_def HEADER_SIZE_def
      PACKET_HEADER_SIZE_def split: bind_split)

section \<open>Crafted datagrams\<close>

lemma channels_ok_updates [simp]:
  "channels_ok (l\<lparr>seq_window := w\<rparr>) = channels_ok l" "channels_ok (l\<lparr>naks := n\<rparr>) = channels_ok l"
  "channels_ok (l\<lparr>controller := c\<rparr>) = channels_ok l"
  "channels_ok (l\<lparr>needs_arrival_rate := b\<rparr>) = channels_ok l"
  "channels_ok (l\<lparr>acks := as\<rparr>) = channels_ok l"
  "channels_ok (l\<lparr>time_last_datagram_recved := t\<rparr>) = channels_ok l"
  by (simp_all add: channels_ok_def)

lemma crafted_handle_packet:
  fixes l :: "'c layer"
  assumes "channels_ok l" and "reliable_index f = None" and "split_info f = None"
    and "ordering_info f = Some oi" and "ORDERING_CHANNEL_SIZE \<le> unat (channel oi)"
    and "unat seq < unat (start_index (seq_window l)) + SEQ_WINDOW_SIZE"
  shows "handle_packet cc now sz co ne seq (f # fs) l = None"
proof -
  have "handle_fragments (f # fs) l' = None" if "channels_ok l'" for l' :: "'c layer"
    using bad_channel_panics [OF assms(4,5) that] assms(2,3)
    by (simp add: handle_fragment_def handle_unique_fragment_def and_then_def)
  then show ?thesis
    using assms(1,6)
    by (auto simp: handle_packet_def window_insert_def simp del: handle_fragments.simps split: bind_split)
qed

section \<open>A sample peer\<close>

definition sample_env :: "bool \<Rightarrow> ((bytes \<times> socket_addr) list) env" where
  "sample_env returns =
     \<lparr>env_wire = network_wire, env_send_to = recording, app_receives = (\<lambda>_. []),
      remove_while_held = returns, own_guid = 42, max_conn_count = 1, env_ping_res = [0x6F, 0x6B]\<rparr>"

definition sample_addr :: socket_addr where
  "sample_addr = V4 [127, 0, 0, 1] 9"

definition sample_conn :: "connect_mode \<Rightarrow> conn" where
  "sample_conn mode =
     \<lparr>guid = 7, create_time = 0, next_ping_time = 0, ping = 0, connect_mode = mode,
      conn_layer = sample_layer, last_reliable_send = 0\<rparr>"

definition sample_peer :: "connect_mode \<Rightarrow> ((bytes \<times> socket_addr) list) peer" where
  "sample_peer mode = insert_conn sample_addr (sample_conn mode) (peer_new [])"

lemma sample_conn_new: "conn_new 0 7 mode 1492 = Some (sample_conn mode)"
  by (simp add: conn_new_def sample_layer_new sample_conn_def)

lemma sample_layer_ready: "k < 2 ^ 16 \<Longrightarrow> sender_ready k sample_layer"
  by (simp add: sender_ready_def sample_layer_room sample_layer_fields ORDERING_CHANNEL_SIZE_def)

lemma sample_conn_fresh: "fresh_conn mode (sample_conn mode)"
  by (simp add: fresh_conn_def sample_conn_def sample_layer_ready sample_layer_fields MIN_MTU_SIZE_def)

lemma sample_env_fields:
  "env_wire (sample_env b) = network_wire" "env_send_to (sample_env b) = recording"
  "remove_while_held (sample_env b) = b" "own_guid (sample_env b) = 42"
  "max_conn_count (sample_env b) = 1"
  by (simp_all add: sample_env_def)

lemma sample_peer_fields:
  "conns (sample_peer mode) = [sample_addr \<mapsto> sample_conn mode]" "conn_count (sample_peer mode) = 1"
  "packet_queue (sample_peer mode) = []" "command_queue (sample_peer mode) = []"
  "message_queue (sample_peer mode) = []" "ban_list (sample_peer mode) = Map.empty"
  "req_conns (sample_peer mode) = Map.empty" "net (sample_peer mode) = []"
  by (simp_all add: sample_peer_def insert_conn_def peer_new_def)

lemma sample_peer_counted: "counted (sample_peer mode)"
  by (simp add: counted_def sample_peer_fields)

lemma sample_addr_valid: "valid_addr sample_addr"
  by (simp add: sample_addr_def)

section \<open>Properties\<close>

text \<open>The count of connections that admits new ones is exact. If it is the number of
  connections before an update cycle, it is after it, whatever packets, commands, requests and
  connections the cycle processes: no path closes a connection twice or forgets to count one.\<close>
theorem conn_count_exact:
  assumes "counted p" and "update_cycle e now req_order conn_order p = Some q"
  shows "counted q"
  by (rule counting.update_cycle_inv [OF assms(2,1)])

theorem conn_count_exact_witness:
  "\<exists>q. update_cycle (sample_env True) 5 [] []
       (sample_peer Connected\<lparr>command_queue := [Close sample_addr, Close sample_addr]\<rparr>) = Some q \<and>
     conn_count q = 0 \<and> counted q"
proof -
  let ?p = "sample_peer Connected\<lparr>command_queue := [Close sample_addr, Close sample_addr]\<rparr>"
  obtain q where q: "update_cycle (sample_env True) 5 [] [] ?p = Some q" "conn_count q = 0"
    by (simp add: update_cycle_def sample_peer_fields size_sub_def)
  have "counted ?p" using sample_peer_counted by (simp add: counted_def)
  from conn_count_exact [OF this q(1)] q show ?thesis by blast
qed

text \<open>C22: a well-formed second request to open a connection, from an address that is neither
  connected nor banned, is answered: below the limit of connections the peer registers the
  sender, as unverified, and tells it so; at the limit it is refused and nothing is
  registered. Nothing else of the peer changes.\<close>
theorem open_request_admission:
  assumes "wire_format (env_wire e)" and "valid_addr b" and "32 \<le> unat mtu"
    and "conns p a = None" and "ban_list p a = None"
    and "env_send_to e (admission_reply e a mtu p) a (net p) = (True, n)"
  shows "process_packet e now a (open_request_2 (env_wire e) b mtu g) p =
     Some ((admitted e now a mtu g p)\<lparr>net := n\<rparr>)"
proof -
  obtain c where c: "conn_new now g UnverfiedSender (unat mtu) = Some c"
    using conn_new_Some [OF assms(3)] by blast
  show ?thesis
    using assms(6)
    by (cases "max_conn_count e \<le> conn_count p")
      (simp_all add: process_packet_unknown [OF assms(4,5)] open_request_2_processed [OF assms(1,2)]
        c send_offline_eq admitted_def admission_reply_def insert_conn_def)
qed

theorem open_request_admission_witness:
  "process_packet (sample_env True) 0 (V4 [10, 0, 0, 1] 7)
       (open_request_2 network_wire sample_addr 1492 7) (sample_peer Connected)
     = Some (sample_peer Connected
         \<lparr>net := [(0x14 # OFFLINE_MESSAGE_DATA_ID @ put_u64 network_wire 42, V4 [10, 0, 0, 1] 7)]\<rparr>)"
  using open_request_admission [of "sample_env True" sample_addr 1492 "sample_peer Connected"
      "V4 [10, 0, 0, 1] 7"]
  by (simp add: sample_env_fields sample_peer_fields network_wire_format sample_addr_valid
      recording_def admitted_def admission_reply_def id_magic_guid_def)
    (simp add: sample_addr_def)

text \<open>The size a sender asks for is not checked. A second request to open a connection with
  an MTU below 32 bytes, from any address that is neither connected nor banned, stops the task
  while the peer has room.\<close>
theorem small_mtu_panics:
  assumes "wire_format (env_wire e)" and "valid_addr b" and "unat mtu < 32"
    and "conns p a = None" and "ban_list p a = None" and "conn_count p < max_conn_count e"
  shows "process_packet e now a (open_request_2 (env_wire e) b mtu g) p = None"
  using assms(3-6)
  by (simp add: process_packet_unknown open_request_2_processed [OF assms(1,2)] conn_new_None
      split: bind_split)

theorem small_mtu_panics_witness:
  "process_packet (sample_env True) 0 sample_addr (open_request_2 network_wire sample_addr 31 7)
     (peer_new []) = None"
  using small_mtu_panics [of "sample_env True" sample_addr 31 "peer_new []" sample_addr]
  by (simp add: sample_env_fields peer_new_def network_wire_format sample_addr_valid)

text \<open>C11: the three online steps of the handshake fit together. The accepting side answers the
  request with a message that the requesting side takes as its acceptance, the requesting side
  answers with a message that the accepting side takes as the new connection, and then both are
  connected, both applications have been told, and both answers are queued to be sent.\<close>
theorem handshake_completes:
  assumes "wire_format w" and "env_wire server = w" and "env_wire client = w"
    and "valid_addr client_addr"
    and "fresh_conn UnverfiedSender cs" and "fresh_conn RequestedConnection cc"
    and "length (message_queue ps) < MESSAGE_QUEUE_SIZE"
    and "length (message_queue pc) < MESSAGE_QUEUE_SIZE"
  shows "\<exists>reply answer cs1 cc1 pc1 cs2 ps2.
     process_message server t1 client_addr (connection_request client t0) (cs, ps)
       = Some (Inr (), (cs1, ps)) \<and> queues_message reply cs1 \<and>
     process_message client t2 server_addr reply (cc, pc) = Some (Inr (), (cc1, pc1)) \<and>
     queues_message answer cc1 \<and>
     process_message server t3 client_addr answer (cs1, ps) = Some (Inr (), (cs2, ps2)) \<and>
     connect_mode cc1 = Connected \<and> connect_mode cs2 = Connected \<and>
     message_queue pc1 = message_queue pc
       @ [\<lparr>msg_addr = server_addr, msg_guid = guid cc, msg_context = MsgConnectionRequestAccepted\<rparr>] \<and>
     message_queue ps2 = message_queue ps
       @ [\<lparr>msg_addr = client_addr, msg_guid = guid cs, msg_context = MsgNewIncomingConnection\<rparr>]"
proof -
  have addr: "valid_addr (addr_on_wire client_addr)" using assms(4) by (cases client_addr) simp_all
  have "sender_ready (Suc 2) (conn_layer cs)" "sender_ready (Suc (Suc 1)) (conn_layer cc)"
    using assms(5,6) by (simp_all add: fresh_conn_def numeral_3_eq_3 sender_ready_def)
  note ready = this
  obtain cs1 where cs1: "process_message server t1 client_addr (connection_request client t0) (cs, ps)
      = Some (Inr (), (cs1, ps))"
    "connect_mode cs1 = HandlingConnectionRequest" "sender_ready 2 (conn_layer cs1)"
    "guid cs1 = guid cs" "queues_message (request_accepted_reply w t1 client_addr t0) cs1"
    using server_accepts_request [of server client_addr cs 2 t1 "own_guid client" t0 ps] assms ready(1)
    by (auto simp: fresh_conn_def connection_request_def simp del: online_to_u8.simps)
  obtain cc1 pc1 where cc1: "process_message client t2 server_addr
      (request_accepted_reply w t1 client_addr t0) (cc, pc) = Some (Inr (), (cc1, pc1))"
    "connect_mode cc1 = Connected" "queues_message (new_incoming_reply w t2 (addr_on_wire client_addr) t1) cc1"
    "message_queue pc1 = message_queue pc
       @ [\<lparr>msg_addr = server_addr, msg_guid = guid cc, msg_context = MsgConnectionRequestAccepted\<rparr>]"
    using client_is_accepted [of client client_addr cc 1 pc t2 server_addr t1 t0] assms ready(2)
    by (auto simp: fresh_conn_def)
  obtain cs2 ps2 where "process_message server t3 client_addr
      (new_incoming_reply w t2 (addr_on_wire client_addr) t1) (cs1, ps) = Some (Inr (), (cs2, ps2))"
    "connect_mode cs2 = Connected" "message_queue ps2 = message_queue ps
       @ [\<lparr>msg_addr = client_addr, msg_guid = guid cs, msg_context = MsgNewIncomingConnection\<rparr>]"
    using server_is_connected [of server "addr_on_wire client_addr" cs1 1 ps t3 client_addr t2 t1]
      assms addr cs1 by (auto simp: numeral_2_eq_2)
  then show ?thesis using cs1 cc1 by blast
qed

theorem handshake_completes_witness:
  "\<exists>reply cs1. process_message (sample_env True) 1 sample_addr (connection_request (sample_env True) 0)
       (sample_conn UnverfiedSender, sample_peer UnverfiedSender)
       = Some (Inr (), (cs1, sample_peer UnverfiedSender)) \<and> queues_message reply cs1 \<and>
     (\<exists>cc1 pc1. process_message (sample_env True) 2 sample_addr reply
        (sample_conn RequestedConnection, sample_peer RequestedConnection)
        = Some (Inr (), (cc1, pc1)) \<and> connect_mode cc1 = Connected)"
  using handshake_completes [OF network_wire_format, of "sample_env True" "sample_env True" sample_addr
      "sample_conn UnverfiedSender" "sample_conn RequestedConnection" "sample_peer UnverfiedSender"
      "sample_peer RequestedConnection" 1 0 2 sample_addr 3]
  by (simp add: sample_env_fields sample_addr_valid sample_conn_fresh sample_peer_fields
      MESSAGE_QUEUE_SIZE_def) blast

text \<open>A connection whose two closing commands are in the queue when a cycle takes them is removed
  without a word to the other side. The notification is only handed to the layer,
  and the layer is dropped by the command behind it before it has sent anything.\<close>
theorem close_sends_nothing:
  assumes "counted p" and "conns p a = Some c" and "sender_ready 1 (conn_layer c)"
    and "unat ch < ORDERING_CHANNEL_SIZE" and "command_queue p = []"
  shows "\<exists>q q'. close_conn_internal a prio ch p = Some q \<and>
     process_commands now (command_queue q) (q\<lparr>command_queue := []\<rparr>) = Some q' \<and>
     conns q' = (conns p)(a := None) \<and> conn_count q' = conn_count p - 1 \<and> net q' = net p \<and>
     command_queue q' = []"
proof -
  obtain c' where c': "send_to_conn now prio ReliableOrdered ch
      [online_to_u8 DisconnectionNotification] c = Some c'"
    using send_to_conn_ready [of 0 c ch now prio ReliableOrdered] assms(3,4) by (auto simp: One_nat_def)
  have "conn_count p \<noteq> 0"
    using assms(1,2) by (auto simp: counted_def)
  then show ?thesis
    using assms(2,5) c'
    by (simp add: close_conn_internal_def push_command_def COMMAND_QUEUE_SIZE_def size_sub_def
        del: online_to_u8.simps)
qed

theorem close_sends_nothing_witness:
  "\<exists>q q'. close_conn_internal sample_addr Immediate 0 (sample_peer Connected) = Some q \<and>
     process_commands 5 (command_queue q) (q\<lparr>command_queue := []\<rparr>) = Some q' \<and>
     conns q' = Map.empty \<and> net q' = []"
  using close_sends_nothing [OF sample_peer_counted, of Connected sample_addr "sample_conn Connected" 0
      Immediate 5]
  by (auto simp: sample_peer_fields sample_conn_def sample_layer_ready ORDERING_CHANNEL_SIZE_def)

text \<open>C29: two bad packets from one address stop the task. The first bans the address, until a time
  that is not later than the clock when the peer has run for more than ten seconds; the ban is
  then lifted while the entry is still held, and where \<open>DashMap::remove\<close> waits for references
  to the map to be released, it waits for the task that called it.\<close>
theorem second_packet_hangs:
  assumes "\<not> remove_while_held e" and "conns p a = None" and "ban_list p a = None"
    and "process_offline_packet e now a packet p = Some (Inl err, p')" and "conns p' a = None"
    and "DEFAULT_TIMEOUT < later"
  shows "\<exists>q. process_packet e now a packet p = Some q \<and> process_packet e later a packet' q = None"
proof -
  have "process_packet e now a packet p = Some (ban_addr_internal a DEFAULT_TIMEOUT p')"
    using assms(4) by (simp add: process_packet_unknown [OF assms(2,3)])
  then show ?thesis
    using assms(1,5,6) by (simp add: process_packet_def ban_addr_internal_def)
qed

theorem second_packet_hangs_witness:
  "\<exists>q. process_packet (sample_env False) 20000 sample_addr [0, 0, 0, 0, 0, 0] (peer_new []) = Some q \<and>
     process_packet (sample_env False) 20030 sample_addr [0, 0, 0, 0, 0, 0] q = None"
  by (rule second_packet_hangs [where p' = "peer_new []"])
    (simp_all add: sample_env_fields peer_new_def process_offline_packet_def MIN_OFFLINE_PACKET_SIZE_def
      DEFAULT_TIMEOUT_def)

text \<open>A request for a connection that allows one or two attempts stops the task at the first of
  them: the attempts per MTU size are computed by an integer division that gives zero, and the
  next line divides by it.\<close>
theorem few_attempts_panic:
  assumes "req_conns p a = Some (req_conn_new start a interval n t)" and "n \<in> {1, 2}" and "start < now"
  shows "update_req_conns e now (a # keys) p = None"
proof -
  have "update_req_conn e now a (req_conn_new start a interval n t) p = None"
    using assms(2,3) by (auto simp: update_req_conn_def req_conn_new_def size_div_def MTU_SIZES_def)
  then show ?thesis using assms(1) by simp
qed

theorem few_attempts_panic_witness:
  "update_req_conns (sample_env True) 6 [sample_addr]
     (snd (peer_connect 5 (Some sample_addr) 2 100 None (peer_new []))) = None"
  by (rule few_attempts_panic [where n = 2 and interval = 100 and t = None and start = 5])
    (simp_all add: peer_connect_def peer_new_def)

text \<open>C2: a datagram of a connected sender reaches the application. The next packet of the sequence,
  with all pieces of one reliable message in any order, puts exactly that message at the end of
  the queue the application reads, unless its first byte is the identifier of a protocol
  message.\<close>
theorem datagram_reaches_app:
  assumes "wire_format (env_wire e)" and "conns p a = Some c"
    and "connect_mode c \<noteq> UnverfiedSender" and "output_queue (conn_layer c) = []"
    and "settled SEQ_WINDOW_SIZE (seq_window (conn_layer c))"
    and "seq = start_index (seq_window (conn_layer c))"
    and "unat seq + SEQ_WINDOW_SIZE < 2 ^ 32"
    and "fresh_pieces max_size id' f limit fs (conn_layer c)"
    and "split_info f = None" and "ordering_info f = None"
    and "calc_header_size f + SPLIT_INFO_SIZE < max_size" and "piece_count max_size f < 2 ^ 32"
    and "data f = b # body" and "online_from_u8 b = None"
    and "wire_datagram (Packet pr co ne seq fs)"
    and "put_datagram (env_wire e) (Packet pr co ne seq fs) = Some bs"
    and "length (message_queue p) < MESSAGE_QUEUE_SIZE"
  shows "\<exists>q. process_packet e now a bs p = Some q \<and>
     message_queue q = message_queue p
       @ [\<lparr>msg_addr = a, msg_guid = guid c, msg_context = MsgApp (data f)\<rparr>]"
proof -
  let ?l = "(conn_layer c)\<lparr>time_last_datagram_recved := now\<rparr>"
  have parse: "try_get_datagram (env_wire e) bs = Inr (Packet pr co ne seq fs, [])"
    using wire_format.try_get_datagram_put_Packet [OF assms(1,15)] assms(16)
    by (simp add: put_datagram_Packet del: put_datagram.simps)
  obtain l1 where l1: "handle_packet sliding_window now (length bs) co ne seq fs ?l = handle_fragments fs l1"
    "reliable_window l1 = reliable_window (conn_layer c)"
    "split_fragments l1 = split_fragments (conn_layer c)" "output_queue l1 = []"
    using handle_next_packet [of ?l seq sliding_window now "length bs" co ne fs] assms(4-7) by auto
  have "fresh_pieces max_size id' f limit fs l1"
    using assms(8) l1(2,3) by (simp add: fresh_pieces_def)
  from message_delivered [OF this assms(9-12)] obtain l2 where
    l2: "handle_fragments fs l1 = Some (Inr (), l2)" "output_queue l2 = [data f]"
    using l1(4) by auto
  have "handle_datagram (env_wire e) sliding_window now bs (conn_layer c) = Some (Inr (), l2)"
    using parse l1(1) l2(1) by (simp add: handle_datagram_def)
  then show ?thesis
    using assms(2,3,13,14,17) l2(2)
    by (simp add: process_packet_def process_online_packet_def recv_def process_message_def
        send_message_def put_conn_def)
qed

definition app_fragment :: fragment where
  "app_fragment =
     \<lparr>reliability = Reliable, reliable_index = Some 0, sequence_index = None, ordering_info = None,
      split_info = None, data = [0xFE, 1, 2]\<rparr>"

theorem datagram_reaches_app_witness:
  "\<exists>q. process_packet (sample_env True) 5 sample_addr
       (the (put_datagram network_wire (Packet False False False 0 [app_fragment])))
       (sample_peer Connected) = Some q \<and>
     message_queue q = [\<lparr>msg_addr = sample_addr, msg_guid = 7, msg_context = MsgApp [0xFE, 1, 2]\<rparr>]"
proof -
  have "settled (2 ^ 7) (window_new (2 ^ 7) :: u64 window)" by (rule settled_new)
  then have seqs: "settled SEQ_WINDOW_SIZE (window_new 128 :: u64 window)"
    by (simp add: SEQ_WINDOW_SIZE_def)
  have fresh: "fresh_pieces 1460 0 (unnumbered app_fragment) 512 [app_fragment]
      (conn_layer (sample_conn Connected))"
    using empty_window_room
    by (simp add: fresh_pieces_def sample_conn_def sample_layer_fields message_pieces_def
        calc_full_size_def calc_header_size_def app_fragment_def unnumbered_def)
  have frag: "wire_fragment app_fragment"
    by (simp add: app_fragment_def wire_fragment_def fields_match_def fits_u24_def)
  obtain bs where bs: "put_datagram network_wire (Packet False False False 0 [app_fragment]) = Some bs"
    by (simp add: put_datagram_Packet)
  have conn: "output_queue (conn_layer (sample_conn Connected)) = []"
    "seq_window (conn_layer (sample_conn Connected)) = window_new 128"
    "connect_mode (sample_conn Connected) = Connected" "guid (sample_conn Connected) = 7"
    by (simp_all add: sample_conn_def sample_layer_fields)
  show ?thesis
    using datagram_reaches_app [of "sample_env True" "sample_peer Connected" sample_addr
        "sample_conn Connected" 0 1460 0 "unnumbered app_fragment" 512 "[app_fragment]" "0xFE" "[1, 2]"
        False False False bs 5] seqs frag fresh bs conn
    by (simp add: sample_env_fields sample_peer_fields network_wire_format fits_u24_def
        MESSAGE_QUEUE_SIZE_def SEQ_WINDOW_SIZE_def del: put_datagram.simps)
      (simp add: window_new_def app_fragment_def unnumbered_def calc_header_size_def
        SPLIT_INFO_SIZE_def piece_count_def piece_size_def online_from_u8_def)
qed

text \<open>C30: any connection can stop the task with one datagram: a fragment whose ordering channel is
  32 or more is used as an index into arrays of 32 channels. It needs no handshake: the
  connection may be as unverified as the second request left it.\<close>
theorem bad_channel_crashes:
  assumes "wire_format (env_wire e)" and "conns p a = Some c" and "channels_ok (conn_layer c)"
    and "wire_datagram (Packet pr co ne seq (f # fs))"
    and "put_datagram (env_wire e) (Packet pr co ne seq (f # fs)) = Some bs"
    and "reliable_index f = None" and "split_info f = None" and "ordering_info f = Some oi"
    and "ORDERING_CHANNEL_SIZE \<le> unat (channel oi)"
    and "unat seq < unat (start_index (seq_window (conn_layer c))) + SEQ_WINDOW_SIZE"
  shows "process_packet e now a bs p = None"
proof -
  let ?l = "(conn_layer c)\<lparr>time_last_datagram_recved := now\<rparr>"
  have parse: "try_get_datagram (env_wire e) bs = Inr (Packet pr co ne seq (f # fs), [])"
    using wire_format.try_get_datagram_put_Packet [OF assms(1,4)] assms(5)
    by (simp add: put_datagram_Packet del: put_datagram.simps)
  have "handle_packet sliding_window now (length bs) co ne seq (f # fs) ?l = None"
    by (rule crafted_handle_packet) (use assms(3,6-10) in simp_all)
  then have "handle_datagram (env_wire e) sliding_window now bs (conn_layer c) = None"
    using parse by (simp add: handle_datagram_def)
  then show ?thesis
    using assms(2) by (simp add: process_packet_def process_online_packet_def)
qed

definition channel_32_fragment :: fragment where
  "channel_32_fragment =
     \<lparr>reliability = UnreliableSequenced, reliable_index = None, sequence_index = Some 0,
      ordering_info = Some \<lparr>ordering_index = 0, channel = 32\<rparr>, split_info = None, data = [1]\<rparr>"

theorem bad_channel_crashes_witness:
  "process_packet (sample_env True) 5 sample_addr
     (the (put_datagram network_wire (Packet False False False 0 [channel_32_fragment])))
     (sample_peer UnverfiedSender) = None"
proof -
  have "wire_fragment channel_32_fragment"
    by (simp add: channel_32_fragment_def wire_fragment_def fields_match_def fits_u24_def)
  then show ?thesis
    using bad_channel_crashes [of "sample_env True" "sample_peer UnverfiedSender" sample_addr
        "sample_conn UnverfiedSender" False False False 0 channel_32_fragment "[]" _
        "\<lparr>ordering_index = 0, channel = 32\<rparr>" 5] sample_channels_ok
    by (simp add: sample_env_fields sample_peer_fields network_wire_format fits_u24_def)
      (simp add: sample_conn_def sample_layer_fields channel_32_fragment_def SEQ_WINDOW_SIZE_def
        ORDERING_CHANNEL_SIZE_def)
qed

end
