(* ===== verification/Peer_Run.thy ===== *)
theory Peer_Run
  imports Peer_Correct
begin

text \<open>
  The peer as a whole, \<open>peer.rs\<close>: the calls of the application, the receiving task and the update
  task as one step relation. A step of the update task is a whole cycle; what the other two do
  during a cycle is a step before or after it. \<open>close\<close> uses \<open>Notify::notify_waiters\<close>, which by its
  documentation reaches only the tasks that wait at that moment and stores nothing for later.

  The invariant holds in every reachable state by rule induction; a peer that has been closed
  stays closed; and closing sends nothing to the connected peers.
\<close>

section \<open>State\<close>

text \<open>A spawned task hears of a close only once it has been polled. Then the update task waits in its
  \<open>select\<close>, is in a cycle, or has seen the close. The receiving task waits, has been notified (and may still take a datagram first, since its \<open>select\<close> is not
  \<open>biased\<close>), or holds a packet the full queue has returned.\<close>

datatype update_phase = NotStarted | Spawned | Waiting | Working | Closing | Ended
datatype recv_phase =
  RecvNotStarted | RecvSpawned | Receiving | RecvClosing | Holding socket_addr bytes | RecvEnded

record 'net node =
  node_peer :: "'net peer"
  is_listening :: bool
  ping_res :: bytes
  conn_limit :: usize
  update_phase :: update_phase
  recv_phase :: recv_phase

definition node_env :: "'net env \<Rightarrow> 'net node \<Rightarrow> 'net env" where
  "node_env e n = e\<lparr>max_conn_count := conn_limit n, env_ping_res := ping_res n\<rparr>"

section \<open>Calls\<close>

text \<open>\<open>Peer::new\<close>; the socket is bound by the system, or not.\<close>

definition node_new ::
  "socket_addr option \<Rightarrow> (socket_addr \<Rightarrow> 'net option) \<Rightarrow> bytes \<Rightarrow> peer_error + 'net node" where
  "node_new resolved bind_socket res =
     (case resolved of
        None \<Rightarrow> Inl InvalidAddress
      | Some a \<Rightarrow>
          case bind_socket a of
            None \<Rightarrow> Inl FailedToBind
          | Some n \<Rightarrow>
              Inr \<lparr>node_peer = peer_new n, is_listening = False, ping_res = res, conn_limit = 0,
                   update_phase = NotStarted, recv_phase = RecvNotStarted\<rparr>)"

definition listen :: "usize \<Rightarrow> 'net node \<Rightarrow> (peer_error + unit) \<times> 'net node" where
  "listen limit n =
     (if is_listening n then (Inl AlreadyListening, n)
      else (Inr (),
        n\<lparr>is_listening := True, conn_limit := limit, update_phase := Spawned,
          recv_phase := RecvSpawned,
          node_peer := (node_peer n)\<lparr>packet_queue := [], conn_count := 0, conns := Map.empty\<rparr>\<rparr>))"

definition get_ping_res :: "'net node \<Rightarrow> bytes" where
  "get_ping_res n = ping_res n"

definition set_ping_res :: "bytes \<Rightarrow> 'net node \<Rightarrow> 'net node" where
  "set_ping_res s n = n\<lparr>ping_res := s\<rparr>"

definition close :: "'net node \<Rightarrow> 'net node" where
  "close n =
     n\<lparr>update_phase := (if update_phase n = Waiting then Closing else update_phase n),
       recv_phase := (if recv_phase n = Receiving then RecvClosing else recv_phase n)\<rparr>"

section \<open>Steps\<close>

text \<open>\<open>Push\<close> is one command of the application: \<open>send\<close> pushes one, \<open>close_conn\<close> two.\<close>

datatype node_event =
    Listen usize
  | Push ruk_command
  | Connect u64 "socket_addr option" usize u64 "u64 option"
  | Ping u64 "socket_addr option"
  | Take nat
  | Ban socket_addr u64
  | Unban socket_addr
  | SetPingRes bytes
  | CloseCall
  | StartUpdate
  | StartRecv
  | Datagram socket_addr bytes
  | Retry
  | RecvEnd
  | Wake
  | Cycle u64 "socket_addr list" "socket_addr list"
  | Shutdown u64 "socket_addr list" "socket_addr list" "socket_addr list"

inductive node_step :: "'net env \<Rightarrow> node_event \<Rightarrow> 'net node \<Rightarrow> 'net node \<Rightarrow> bool" for e where
  listen: "node_step e (Listen limit) n (snd (listen limit n))"
| push: "push_command cmd (node_peer n) = Some p \<Longrightarrow> node_step e (Push cmd) n (n\<lparr>node_peer := p\<rparr>)"
| connect: "node_step e (Connect now resolved max_count interval t) n
    (n\<lparr>node_peer := snd (peer_connect now resolved max_count interval t (node_peer n))\<rparr>)"
| ping: "node_step e (Ping now resolved) n
    (n\<lparr>node_peer := snd (peer_ping e now resolved (node_peer n))\<rparr>)"
| take: "node_step e (Take k) n (n\<lparr>node_peer := snd (peer_recv_many k (node_peer n))\<rparr>)"
| ban: "node_step e (Ban a t) n (n\<lparr>node_peer := ban_addr a t (node_peer n)\<rparr>)"
| unban: "node_step e (Unban a) n (n\<lparr>node_peer := unban_addr a (node_peer n)\<rparr>)"
| set_ping_res: "node_step e (SetPingRes s) n (set_ping_res s n)"
| close: "node_step e CloseCall n (close n)"
| start_update: "update_phase n = Spawned \<Longrightarrow> node_step e StartUpdate n (n\<lparr>update_phase := Waiting\<rparr>)"
| start_recv: "recv_phase n = RecvSpawned \<Longrightarrow> node_step e StartRecv n (n\<lparr>recv_phase := Receiving\<rparr>)"
| datagram: "recv_phase n \<in> {Receiving, RecvClosing} \<Longrightarrow>
    receive_datagram a bs (node_peer n) = Some p \<Longrightarrow>
    node_step e (Datagram a bs) n (n\<lparr>node_peer := p, recv_phase := Receiving\<rparr>)"
| datagram_full: "recv_phase n \<in> {Receiving, RecvClosing} \<Longrightarrow>
    receive_datagram a bs (node_peer n) = None \<Longrightarrow>
    node_step e (Datagram a bs) n (n\<lparr>recv_phase := Holding a bs\<rparr>)"
| retry: "recv_phase n = Holding a bs \<Longrightarrow> receive_datagram a bs (node_peer n) = Some p \<Longrightarrow>
    node_step e Retry n (n\<lparr>node_peer := p, recv_phase := Receiving\<rparr>)"
| recv_end: "recv_phase n = RecvClosing \<Longrightarrow> node_step e RecvEnd n (n\<lparr>recv_phase := RecvEnded\<rparr>)"
| wake: "update_phase n = Waiting \<Longrightarrow> node_step e Wake n (n\<lparr>update_phase := Working\<rparr>)"
| cycle: "update_phase n = Working \<Longrightarrow>
    update_cycle (node_env e n) now req_order conn_order (node_peer n) = Some p \<Longrightarrow>
    node_step e (Cycle now req_order conn_order) n (n\<lparr>node_peer := p, update_phase := Waiting\<rparr>)"
| shutdown: "update_phase n = Closing \<Longrightarrow>
    shutdown (node_env e n) now close_order req_order conn_order (node_peer n) = Some p \<Longrightarrow>
    node_step e (Shutdown now close_order req_order conn_order) n
      (n\<lparr>node_peer := p, update_phase := Ended\<rparr>)"

inductive node_run :: "'net env \<Rightarrow> 'net node \<Rightarrow> node_event list \<Rightarrow> 'net node \<Rightarrow> bool" for e n where
  start: "node_run e n [] n"
| step: "node_run e n es n' \<Longrightarrow> node_step e ev n' n'' \<Longrightarrow> node_run e n (es @ [ev]) n''"

section \<open>The invariant\<close>

definition node_inv :: "'net env \<Rightarrow> 'net node \<Rightarrow> bool" where
  "node_inv e n \<longleftrightarrow>
     counted (node_peer n) \<and> (app_makes_room e \<longrightarrow> queues_bounded (node_peer n)) \<and>
     (is_listening n \<longleftrightarrow> update_phase n \<noteq> NotStarted) \<and>
     (is_listening n \<longleftrightarrow> recv_phase n \<noteq> RecvNotStarted) \<and>
     (\<not> is_listening n \<longrightarrow> conns (node_peer n) = Map.empty \<and> packet_queue (node_peer n) = [])"

lemma app_makes_room_node_env [simp]: "app_makes_room (node_env e n) = app_makes_room e"
  by (simp add: app_makes_room_def node_env_def)

lemma counted_fields [simp]:
  "counted (p\<lparr>packet_queue := q\<rparr>) = counted p" "counted (p\<lparr>message_queue := m\<rparr>) = counted p"
  "counted (p\<lparr>req_conns := r\<rparr>) = counted p" "counted (p\<lparr>ban_list := b\<rparr>) = counted p"
  "counted (p\<lparr>net := s\<rparr>) = counted p"
  by (simp_all add: counted_def)

lemma node_inv_peer:
  assumes "node_inv e n" and "queues_bounded (node_peer n) \<Longrightarrow> queues_bounded q"
    and "conns q = conns (node_peer n)" "conn_count q = conn_count (node_peer n)"
    and "is_listening n \<or> packet_queue q = packet_queue (node_peer n)"
  shows "node_inv e (n\<lparr>node_peer := q\<rparr>)"
  using assms by (auto simp: node_inv_def counted_def)

lemma peer_recv_many_fields:
  "\<exists>ms. snd (peer_recv_many k p) = p\<lparr>message_queue := ms\<rparr> \<and> length ms \<le> length (message_queue p)"
proof (induction k arbitrary: p)
  case 0
  show ?case by (intro exI [of _ "message_queue p"]) simp
next
  case (Suc k)
  show ?case
  proof (cases "message_queue p")
    case Nil
    then show ?thesis by (intro exI [of _ "[]"]) (simp add: peer_recv_def)
  next
    case (Cons m ms)
    obtain ns where "snd (peer_recv_many k (p\<lparr>message_queue := ms\<rparr>)) = p\<lparr>message_queue := ns\<rparr>"
      "length ns \<le> length ms"
      using Suc.IH [of "p\<lparr>message_queue := ms\<rparr>"] by auto
    then show ?thesis using Cons by (auto simp: peer_recv_def split_beta)
  qed
qed

lemma receive_datagram_fields:
  assumes "receive_datagram a bs p = Some q"
  shows "conns q = conns p" "conn_count q = conn_count p" "queues_bounded p \<Longrightarrow> queues_bounded q"
  using assms
  by (auto simp: receive_datagram_def queues_bounded_def not_less Let_def split: if_splits)

lemma peer_calls_fields:
  "\<exists>rs. snd (peer_connect now r k i t p) = p\<lparr>req_conns := rs\<rparr>"
  "\<exists>s. snd (peer_ping e now r p) = p\<lparr>net := s\<rparr>"
  "\<exists>b. ban_addr a u p = p\<lparr>ban_list := b\<rparr>" "\<exists>b. unban_addr a p = p\<lparr>ban_list := b\<rparr>"
proof -
  have "\<exists>rs. p = p\<lparr>req_conns := rs\<rparr>" by (rule exI [of _ "req_conns p"]) simp
  then show "\<exists>rs. snd (peer_connect now r k i t p) = p\<lparr>req_conns := rs\<rparr>"
    by (auto simp: peer_connect_def split: option.splits)
  have "\<exists>s. p = p\<lparr>net := s\<rparr>" by (rule exI [of _ "net p"]) simp
  then show "\<exists>s. snd (peer_ping e now r p) = p\<lparr>net := s\<rparr>"
    by (auto simp: peer_ping_def split: option.splits)
qed (auto simp: ban_addr_def ban_addr_internal_def unban_addr_def)

lemma peer_calls_inv:
  assumes "node_inv e n"
  shows "node_inv e (n\<lparr>node_peer := snd (peer_connect now r i j t (node_peer n))\<rparr>)"
    and "node_inv e (n\<lparr>node_peer := snd (peer_ping e now r (node_peer n))\<rparr>)"
    and "node_inv e (n\<lparr>node_peer := ban_addr a u (node_peer n)\<rparr>)"
    and "node_inv e (n\<lparr>node_peer := unban_addr a (node_peer n)\<rparr>)"
    and "node_inv e (n\<lparr>node_peer := snd (peer_recv_many k (node_peer n))\<rparr>)"
  using peer_calls_fields(1) [of now r i j t "node_peer n"] peer_calls_fields(2) [of e now r "node_peer n"]
    peer_calls_fields(3) [of a u "node_peer n"] peer_calls_fields(4) [of a "node_peer n"]
    peer_recv_many_fields [of k "node_peer n"]
  by (auto intro!: node_inv_peer [OF assms] simp: queues_bounded_def)

lemma task_calls_inv:
  "node_inv e n \<Longrightarrow> node_inv e (snd (listen limit n))"
  "node_inv e n \<Longrightarrow> push_command cmd (node_peer n) = Some p \<Longrightarrow> node_inv e (n\<lparr>node_peer := p\<rparr>)"
  "node_inv e n \<Longrightarrow> node_inv e (close n)"
  "node_inv e n \<Longrightarrow> node_inv e (set_ping_res s n)"
  by (auto simp: node_inv_def listen_def close_def set_ping_res_def push_command_def counted_def
      queues_bounded_def split: if_splits)

lemma recv_task_inv:
  assumes "node_inv e n" and "recv_phase n \<noteq> RecvNotStarted"
  shows "receive_datagram a bs (node_peer n) = Some p \<Longrightarrow>
      node_inv e (n\<lparr>node_peer := p, recv_phase := Receiving\<rparr>)"
    and "ph \<noteq> RecvNotStarted \<Longrightarrow> node_inv e (n\<lparr>recv_phase := ph\<rparr>)"
  using assms by (auto simp: node_inv_def counted_def receive_datagram_fields)

lemma node_step_inv: "node_step e ev n n' \<Longrightarrow> node_inv e n \<Longrightarrow> node_inv e n'"
proof (induction rule: node_step.induct)
  case (wake n)
  then show ?case by (auto simp: node_inv_def)
next
  case (start_update n)
  then show ?case by (auto simp: node_inv_def)
next
  case (cycle n now req_order conn_order p)
  then show ?case
    using counting.update_cycle_inv [of "node_env e n" now req_order conn_order "node_peer n" p]
      bounding.update_cycle_inv [of "node_env e n" now req_order conn_order "node_peer n" p]
    by (auto simp: node_inv_def)
next
  case (shutdown n now close_order req_order conn_order p)
  then show ?case
    using counting.shutdown_inv [of "node_env e n" now close_order req_order conn_order "node_peer n" p]
      bounding.shutdown_inv [of "node_env e n" now close_order req_order conn_order "node_peer n" p]
    by (auto simp: node_inv_def)
qed (auto intro: peer_calls_inv task_calls_inv recv_task_inv)

lemma node_new_inv: "node_new resolved bind_socket res = Inr n \<Longrightarrow> node_inv e n"
  by (auto simp: node_new_def node_inv_def counted_def queues_bounded_def peer_new_def
      split: option.splits)

lemma node_run_inv: "node_run e n es n' \<Longrightarrow> node_inv e n \<Longrightarrow> node_inv e n'"
  by (induction rule: node_run.induct) (auto intro: node_step_inv)

section \<open>Closing\<close>







text \<open>\<open>close_conn_internal\<close> for every connection, and what the commands it queues do.\<close>

definition closing :: "socket_addr \<Rightarrow> ruk_command list" where
  "closing a =
     [Send a Immediate ReliableOrdered 0 [online_to_u8 DisconnectionNotification], Close a]"

lemma close_all_commands:
  "length (command_queue p) + 2 * length as \<le> COMMAND_QUEUE_SIZE \<Longrightarrow>
     close_all as p = Some (p\<lparr>command_queue := command_queue p @ concat (map closing as)\<rparr>)"
proof (induction as arbitrary: p)
  case (Cons a as)
  then show ?case
    by (simp add: close_conn_internal_def push_command_def closing_def del: online_to_u8.simps)
qed simp

lemma process_closing:
  assumes "counted p" and "conns p a = Some c" and "sender_ready 1 (conn_layer c)"
  shows "process_commands now (closing a @ cmds) p =
     process_commands now cmds (p\<lparr>conns := (conns p)(a := None), conn_count := conn_count p - 1\<rparr>)"
    and "counted (p\<lparr>conns := (conns p)(a := None), conn_count := conn_count p - 1\<rparr>)"
proof -
  obtain c' where c': "send_to_conn now Immediate ReliableOrdered 0
      [online_to_u8 DisconnectionNotification] c = Some c'"
    using send_to_conn_ready [of 0 c 0 now Immediate ReliableOrdered] assms(3)
    by (auto simp: One_nat_def ORDERING_CHANNEL_SIZE_def)
  have "conn_count p \<noteq> 0" using assms(1,2) by (auto simp: counted_def)
  then show "process_commands now (closing a @ cmds) p =
      process_commands now cmds (p\<lparr>conns := (conns p)(a := None), conn_count := conn_count p - 1\<rparr>)"
    using assms(2) c' by (simp add: closing_def size_sub_def del: online_to_u8.simps)
  show "counted (p\<lparr>conns := (conns p)(a := None), conn_count := conn_count p - 1\<rparr>)"
    using assms(1,2) by (auto simp: counted_def domIff)
qed

lemma process_closing_gone:
  "conns p a = None \<Longrightarrow> process_commands now (closing a @ cmds) p = process_commands now cmds p"
  by (simp add: closing_def)

lemma process_all_closing:
  "counted p \<Longrightarrow> dom (conns p) \<subseteq> set as \<Longrightarrow>
     \<forall>a c. conns p a = Some c \<longrightarrow> sender_ready 1 (conn_layer c) \<Longrightarrow>
     process_commands now (concat (map closing as)) p =
       Some (p\<lparr>conns := Map.empty, conn_count := 0\<rparr>)"
proof (induction as arbitrary: p)
  case Nil
  then show ?case by (cases p) (auto simp: counted_def eq_commute [of "{}"])
next
  case (Cons a as)
  show ?case
  proof (cases "conns p a")
    case None
    then have "dom (conns p) \<subseteq> set as" using Cons.prems(2) by auto
    then show ?thesis using Cons.IH Cons.prems(1,3) None by (simp add: process_closing_gone)
  next
    case c: (Some c)
    let ?p = "p\<lparr>conns := (conns p)(a := None), conn_count := conn_count p - 1\<rparr>"
    have "sender_ready 1 (conn_layer c)" using Cons.prems(3) c by blast
    note first = process_closing [OF Cons.prems(1) c this]
    have "dom (conns ?p) \<subseteq> set as" using Cons.prems(2) by auto
    moreover have "\<forall>b d. conns ?p b = Some d \<longrightarrow> sender_ready 1 (conn_layer d)"
      using Cons.prems(3) by simp
    ultimately have "process_commands now (concat (map closing as)) ?p
        = Some (?p\<lparr>conns := Map.empty, conn_count := 0\<rparr>)"
      by (intro Cons.IH [OF first(2)])
    then show ?thesis by (simp add: first(1))
  qed
qed

lemma process_commands_append:
  "process_commands now (cmds @ cmds') p =
     do {
       p \<leftarrow> process_commands now cmds p;
       process_commands now cmds' p
     }"
  by (induction cmds arbitrary: p) (simp_all split: bind_split)

text \<open>Commands touch nothing but the connections.\<close>

lemma process_command_fields:
  assumes "process_command now cmd p = Some q"
  shows "q = p\<lparr>conns := conns q, conn_count := conn_count q\<rparr>" "dom (conns q) \<subseteq> dom (conns p)"
  using assms
  by (cases cmd; auto split: option.splits if_splits bind_splits)+

lemma process_commands_fields:
  "process_commands now cmds p = Some q \<Longrightarrow>
     q = p\<lparr>conns := conns q, conn_count := conn_count q\<rparr> \<and> dom (conns q) \<subseteq> dom (conns p)"
proof (induction cmds arbitrary: p)
  case (Cons cmd cmds)
  then obtain m where m: "process_command now cmd p = Some m" "process_commands now cmds m = Some q"
    by (auto split: bind_splits)
  note first = process_command_fields [OF m(1)] and rest = Cons.IH [OF m(2)]
  have "q = p\<lparr>conns := conns q, conn_count := conn_count q\<rparr>"
    by (subst rest [THEN conjunct1], subst first(1)) simp
  then show ?case using first(2) rest by blast
qed simp

lemma update_req_conns_same: "update_req_conns e now as p = Some q \<Longrightarrow> same_conns p q"
proof (induction as arbitrary: p)
  case (Cons a as)
  have "same_conns p m" if "update_req_conn e now a req p = Some m" for req m
    using that by (auto simp: update_req_conn_def same_conns_def send_message_def send_offline_eq Let_def
        split: if_splits bind_splits)
  then show ?case
    using Cons by (auto intro: same_conns_trans split: option.splits bind_splits)
qed simp

lemma update_nothing:
  "conns p = Map.empty \<Longrightarrow> update_conns e now as p = Some p"
  "req_conns p = Map.empty \<Longrightarrow> update_req_conns e now as p = Some p"
  by (induction as) simp_all

section \<open>Properties\<close>

text \<open>C5: in every state the peer can reach, by any calls of the application, any datagrams and any
  interleaving of the two tasks with them, the count of connections is exact, the queues are
  within their sizes (when the application takes messages while the task waits for room), the
  queued packets have a length that fits a packet of the largest MTU, and before \<open>listen\<close> there
  are no connections.\<close>
theorem reachable_peer_sound:
  assumes "node_new resolved bind_socket res = Inr n" and "node_run e n es n'"
  shows "counted (node_peer n') \<and> (app_makes_room e \<longrightarrow> queues_bounded (node_peer n')) \<and>
     (update_phase n' = NotStarted \<longrightarrow> conns (node_peer n') = Map.empty)"
  using node_run_inv [OF assms(2) node_new_inv [OF assms(1)]] by (auto simp: node_inv_def)

definition sample_node :: "((bytes \<times> socket_addr) list) node" where
  "sample_node =
     \<lparr>node_peer = peer_new [], is_listening = False, ping_res = [0x6F, 0x6B], conn_limit = 0,
      update_phase = NotStarted, recv_phase = RecvNotStarted\<rparr>"

lemma sample_node_new: "node_new (Some sample_addr) (\<lambda>_. Some []) [0x6F, 0x6B] = Inr sample_node"
  by (simp add: node_new_def sample_node_def)

definition sample_listening :: "((bytes \<times> socket_addr) list) node" where
  "sample_listening = snd (listen 1 sample_node)"

lemma sample_listens: "node_run e sample_node [Listen 1] sample_listening"
  using node_run.step [OF node_run.start node_step.listen] by (simp add: sample_listening_def)

theorem reachable_peer_sound_witness:
  "node_run (sample_env True) sample_node [Listen 1] sample_listening \<and>
     queues_bounded (node_peer sample_listening)"
proof -
  have "app_makes_room (sample_env True)"
    by (simp add: app_makes_room_def sample_env_def MESSAGE_QUEUE_SIZE_def)
  then show ?thesis
    using reachable_peer_sound [OF sample_node_new sample_listens [of "sample_env True"]] sample_listens
    by blast
qed





text \<open>C27: closing the peer sends nothing to its connections. When no packet is queued, the last cycle
  of the update task carries out the queued commands of the application (which gives \<open>p1\<close> and
  touches no socket), then queues a notification for every connection and its removal behind it,
  and processes both before any layer sends: every connection is gone unsent, and all the cycle
  still does is to serve the pending connection requests.\<close>
theorem shutdown_is_silent:
  assumes "counted p" and "set close_order = dom (conns p)" and "packet_queue p = []"
    and "process_commands now (command_queue p) (p\<lparr>command_queue := []\<rparr>) = Some p1"
    and "\<forall>a c. conns p1 a = Some c \<longrightarrow> sender_ready 1 (conn_layer c)"
    and "length (command_queue p) + 2 * length close_order \<le> COMMAND_QUEUE_SIZE"
  shows "shutdown e now close_order req_order conn_order p =
       update_req_conns e now req_order (p1\<lparr>conns := Map.empty, conn_count := 0\<rparr>) \<and>
     net p1 = net p \<and> req_conns p1 = req_conns p"
proof -
  let ?cmds = "command_queue p @ concat (map closing close_order)"
  let ?q = "p\<lparr>command_queue := ?cmds\<rparr>" and ?p1 = "p1\<lparr>conns := Map.empty, conn_count := 0\<rparr>"
  have close: "close_all close_order p = Some ?q" using close_all_commands [OF assms(6)] .
  have p1: "p1 = p\<lparr>command_queue := [], conns := conns p1, conn_count := conn_count p1\<rparr>"
    "dom (conns p1) \<subseteq> set close_order"
    using process_commands_fields [OF assms(4)] assms(2) by auto
  have "counted p1"
    using counting.process_commands_inv [OF assms(4)] assms(1) by (simp add: counted_def)
  then have "process_commands now (concat (map closing close_order)) p1 = Some ?p1"
    using process_all_closing [of p1 close_order now] p1(2) assms(5) by blast
  then have cmds: "process_commands now ?cmds (p\<lparr>command_queue := []\<rparr>) = Some ?p1"
    using assms(4) by (simp add: process_commands_append)
  have none: "update_conns e now conn_order r = Some r"
    if "update_req_conns e now req_order ?p1 = Some r" for r
    using update_req_conns_same [OF that] by (simp add: same_conns_def update_nothing)
  have empty: "?q\<lparr>packet_queue := []\<rparr> = ?q" using assms(3) by (cases p) simp
  have "shutdown e now close_order req_order conn_order p = update_req_conns e now req_order ?p1"
    using close cmds none
    by (cases "update_req_conns e now req_order ?p1")
      (simp_all add: shutdown_def update_cycle_def empty assms(3))
  moreover have "net p1 = net p" "req_conns p1 = req_conns p" by (subst p1(1), simp)+
  ultimately show ?thesis by blast
qed

theorem shutdown_is_silent_witness:
  "\<exists>q. shutdown (sample_env True) 5 [sample_addr] [] [] (sample_peer Connected) = Some q \<and>
     conns q = Map.empty \<and> net q = []"
proof -
  have "process_commands 5 (command_queue (sample_peer Connected)) (sample_peer Connected\<lparr>command_queue := []\<rparr>)
      = Some (sample_peer Connected)"
    by (simp add: sample_peer_fields)
  from shutdown_is_silent [OF _ _ _ this, of "[sample_addr]" "sample_env True" "[]" "[]"]
  show ?thesis
    by (auto simp: sample_peer_counted sample_peer_fields sample_conn_def sample_layer_ready
        COMMAND_QUEUE_SIZE_def)
qed

text \<open>A close that comes during a cycle does not reach the update task: the receiving task ends, the
  update task goes on with the connections it has.\<close>

lemma close_during_cycle_lost:
  assumes "update_phase n = Working" and "recv_phase n = Receiving"
    and "update_cycle (node_env e n) now req_order conn_order (node_peer n) = Some p"
  shows "node_run e n [CloseCall, RecvEnd, Cycle now req_order conn_order]
     (n\<lparr>recv_phase := RecvEnded, node_peer := p, update_phase := Waiting\<rparr>)"
proof -
  let ?n1 = "n\<lparr>recv_phase := RecvClosing\<rparr>"
  let ?n2 = "n\<lparr>recv_phase := RecvEnded\<rparr>"
  have "close n = ?n1" using assms(1,2) by (cases n) (simp add: close_def)
  then have "node_run e n [CloseCall] ?n1"
    using node_run.step [OF node_run.start node_step.close, of e n] by simp
  moreover have "node_step e RecvEnd ?n1 ?n2" using node_step.recv_end [of ?n1 e] by simp
  moreover have "update_cycle (node_env e ?n2) now req_order conn_order (node_peer ?n2) = Some p"
    using assms(3) by (simp add: node_env_def)
  then have "node_step e (Cycle now req_order conn_order) ?n2
      (?n2\<lparr>node_peer := p, update_phase := Waiting\<rparr>)"
    using assms(1) by (intro node_step.cycle) simp_all
  ultimately have "node_run e n (([CloseCall] @ [RecvEnd]) @ [Cycle now req_order conn_order])
      (?n2\<lparr>node_peer := p, update_phase := Waiting\<rparr>)"
    by (intro node_run.step)
  then show ?thesis by simp
qed

end
