(* ===== verification/Peer_Life.thy ===== *)
theory Peer_Life
  imports Peer_Run
begin

text \<open>
  The life of one connection in a running peer, from update cycle to update cycle: which messages
  the peer hands to it (\<open>heard_packets\<close> for the datagrams of a cycle, \<open>heard_conns\<close> for what its
  layer still holds when the cycle comes to it), and how they move its mode. A connection that
  another peer opened becomes connected only through the handshake.
\<close>

section \<open>The messages a connection is given\<close>

definition packet_messages :: "'net env \<Rightarrow> u64 \<Rightarrow> bytes \<Rightarrow> conn \<Rightarrow> bytes list" where
  "packet_messages e now packet c =
     (case handle_datagram (env_wire e) sliding_window now packet (conn_layer c) of
        Some (Inr _, l) \<Rightarrow> output_queue l
      | _ \<Rightarrow> [])"

fun heard_packets ::
  "'net env \<Rightarrow> u64 \<Rightarrow> socket_addr \<Rightarrow> (socket_addr \<times> bytes) list \<Rightarrow> 'net peer \<Rightarrow> bytes list" where
  "heard_packets e now a [] p = []"
| "heard_packets e now a ((b, packet) # rest) p =
     (case conns p a of
        Some c \<Rightarrow> if b = a then packet_messages e now packet c else []
      | None \<Rightarrow> []) @
     (case process_packet e now b packet p of
        Some p \<Rightarrow> heard_packets e now a rest p
      | None \<Rightarrow> [])"

text \<open>The messages of \<open>update_conn\<close>: none when the connection is given up.\<close>

definition held_messages :: "'net env \<Rightarrow> u64 \<Rightarrow> socket_addr \<Rightarrow> conn \<Rightarrow> 'net peer \<Rightarrow> bytes list" where
  "held_messages e now a c p =
     (case do {
         c \<leftarrow> keep_alive e now c;
         (r, (l, n)) \<leftarrow> update (env_wire e) (env_send_to e) sliding_window now a (conn_layer c, net p);
         let c = c\<lparr>conn_layer := l\<rparr>;
         dead \<leftarrow> (case r of Inl _ \<Rightarrow> Some True | Inr _ \<Rightarrow> gave_up now c);
         if dead then None else map_option (\<lambda>c. output_queue (conn_layer c)) (periodic_ping e now c)
       } of
        Some msgs \<Rightarrow> msgs
      | None \<Rightarrow> [])"

fun heard_conns ::
  "'net env \<Rightarrow> u64 \<Rightarrow> socket_addr \<Rightarrow> socket_addr list \<Rightarrow> 'net peer \<Rightarrow> bytes list" where
  "heard_conns e now a [] p = []"
| "heard_conns e now a (b # bs) p =
     (case conns p a of
        Some c \<Rightarrow> if b = a then held_messages e now a c p else []
      | None \<Rightarrow> []) @
     (case (case conns p b of Some c \<Rightarrow> update_conn e now b c p | None \<Rightarrow> Some p) of
        Some p \<Rightarrow> heard_conns e now a bs p
      | None \<Rightarrow> [])"

definition heard_cycle ::
  "'net env \<Rightarrow> u64 \<Rightarrow> socket_addr list \<Rightarrow> socket_addr list \<Rightarrow> socket_addr \<Rightarrow> 'net peer \<Rightarrow> bytes list" where
  "heard_cycle e now req_order conn_order a p =
     heard_packets e now a (packet_queue p) (p\<lparr>packet_queue := []\<rparr>) @
     (case do {
         p \<leftarrow> process_packets e now (packet_queue p) (p\<lparr>packet_queue := []\<rparr>);
         p \<leftarrow> process_commands now (command_queue p) (p\<lparr>command_queue := []\<rparr>);
         update_req_conns e now req_order p
       } of
        Some p \<Rightarrow> heard_conns e now a conn_order p
      | None \<Rightarrow> [])"

text \<open>What a step of the peer hands to the connection of \<open>a\<close>.\<close>

fun heard :: "'net env \<Rightarrow> socket_addr \<Rightarrow> node_event \<Rightarrow> 'net node \<Rightarrow> bytes list" where
  "heard e a (Cycle now req_order conn_order) n =
     heard_cycle (node_env e n) now req_order conn_order a (node_peer n)"
| "heard e a (Shutdown now close_order req_order conn_order) n =
     (case close_all close_order (node_peer n) of
        Some p \<Rightarrow> heard_cycle (node_env e n) now req_order conn_order a p
      | None \<Rightarrow> [])"
| "heard e a _ n = []"

text \<open>A run during which the address keeps its connection, and all that is handed to it.\<close>

inductive conn_life :: "'net env \<Rightarrow> socket_addr \<Rightarrow> 'net node \<Rightarrow> bytes list \<Rightarrow> 'net node \<Rightarrow> bool"
  for e a n where
  begins: "conns (node_peer n) a \<noteq> None \<Longrightarrow> conn_life e a n [] n"
| continues: "conn_life e a n msgs n' \<Longrightarrow> node_step e ev n' n'' \<Longrightarrow>
    conns (node_peer n'') a \<noteq> None \<Longrightarrow> conn_life e a n (msgs @ heard e a ev n') n''"

section \<open>Runs of modes\<close>

lemma mode_run_append: "mode_run xs m m' \<Longrightarrow> mode_run ys m' m'' \<Longrightarrow> mode_run (xs @ ys) m m''"
  by (induction rule: mode_run.induct) (auto intro: mode_run.intros)

lemma mode_run_stays: "mode_run msgs m m"
  by (induction msgs) (auto intro: mode_run.intros mode_step.stays)

lemma process_messages_mode_all:
  "process_messages e now a msgs (c, p) = Some (c', q) \<Longrightarrow>
     mode_run msgs (connect_mode c) (connect_mode c')"
  using process_messages_mode mode_run_append mode_run_stays by metis

lemma process_queued_messages_mode:
  "process_queued_messages e now a msgs (c, p) = Some (c', q) \<Longrightarrow>
     mode_run msgs (connect_mode c) (connect_mode c')"
proof (induction msgs arbitrary: c p)
  case (Cons msg msgs)
  obtain r c1 p1 where step: "process_message e now a msg (c, p) = Some (r, (c1, p1))"
    using Cons.prems by (auto split: bind_splits)
  obtain p2 where "process_queued_messages e now a msgs (c1, p2) = Some (c', q)"
    using Cons.prems step by (cases r) (auto split: bind_splits)
  then show ?case using run_step [OF process_message_mode [OF step]] Cons.IH by blast
qed (simp add: run_refl)

section \<open>The steps of a cycle\<close>

text \<open>The connection of \<open>a\<close> is kept from \<open>p\<close> to \<open>q\<close>, and \<open>msgs\<close> account for its mode.\<close>

definition moved :: "socket_addr \<Rightarrow> bytes list \<Rightarrow> 'net peer \<Rightarrow> 'net peer \<Rightarrow> bool" where
  "moved a msgs p q \<longleftrightarrow>
     (\<exists>c c'. conns p a = Some c \<and> conns q a = Some c' \<and>
       mode_run msgs (connect_mode c) (connect_mode c'))"

lemma moved_same: "conns p a \<noteq> None \<Longrightarrow> conns q a = conns p a \<Longrightarrow> moved a msgs p q"
  by (auto simp: moved_def intro: mode_run_stays)

lemma moved_trans: "moved a xs p q \<Longrightarrow> moved a ys q r \<Longrightarrow> moved a (xs @ ys) p r"
  by (auto simp: moved_def intro: mode_run_append)

lemma moved_conns: "moved a msgs p q \<Longrightarrow> conns q a \<noteq> None"
  by (auto simp: moved_def)

lemma other_handlers_conns:
  "on_open_connection_request_2 e now b bs p = Some (r, q) \<Longrightarrow> a \<noteq> b \<Longrightarrow> conns q a = conns p a"
  "on_open_connection_reply_2 e now b bs p = Some (r, q) \<Longrightarrow> a \<noteq> b \<Longrightarrow> conns q a = conns p a"
  by (auto simp: on_open_connection_request_2_def on_open_connection_reply_2_def with_parsed_def
      register_conn_def insert_conn_def send_offline_eq Let_def
      split: sum.splits option.splits if_splits bind_splits)

lemma offline_handlers_conns:
  "on_unconnected_ping e b bs p = Some (r, q) \<Longrightarrow> conns q a = conns p a"
  "on_unconnected_pong e now b bs p = Some (r, q) \<Longrightarrow> conns q a = conns p a"
  "on_open_connection_request_1 e b bs p = Some (r, q) \<Longrightarrow> conns q a = conns p a"
  "on_open_connection_reply_1 e b bs p = Some (r, q) \<Longrightarrow> conns q a = conns p a"
  "on_incompatible_version e b bs p = Some (r, q) \<Longrightarrow> conns q a = conns p a"
  "on_refusal e b ctx bs p = Some (r, q) \<Longrightarrow> conns q a = conns p a"
  by (auto simp: offline_handlers with_parsed_def and_then_def send_offline_eq send_message_def Let_def
      split: sum.splits option.splits if_splits)

lemma process_unbanned_conns:
  assumes "process_unbanned e now b packet p = Some q" "a \<noteq> b"
  shows "conns q a = conns p a"
proof -
  obtain r p1 where p1: "process_offline_packet e now b packet p = Some (r, p1)"
    "q = p1 \<or> q = ban_addr_internal b DEFAULT_TIMEOUT p1"
    using assms(1) by (auto simp: process_unbanned_def split: bind_splits sum.splits)
  have "conns p1 a = conns p a"
    using p1(1) assms(2)
    by (auto simp: process_offline_packet_def Let_def
        dest: offline_handlers_conns other_handlers_conns
        split: if_splits option.splits offline_id.splits)
  then show ?thesis using p1(2) by (auto simp: ban_addr_internal_def)
qed

lemma close_conn_internal_conns: "close_conn_internal a prio ch p = Some q \<Longrightarrow> conns q = conns p"
  using same_conns_close [of a prio ch p q] by (simp add: same_conns_def)

lemma process_online_packet_moved:
  assumes "process_online_packet e now a packet c p = Some q" "conns p a = Some c"
  shows "moved a (packet_messages e now packet c) p q"
    and "b \<noteq> a \<Longrightarrow> conns q b = conns p b"
proof -
  obtain r l where l: "handle_datagram (env_wire e) sliding_window now packet (conn_layer c) = Some (r, l)"
    using assms(1) by (auto simp: process_online_packet_def split: bind_splits)
  have "moved a (packet_messages e now packet c) p q \<and> (b \<noteq> a \<longrightarrow> conns q b = conns p b)" for b
  proof (cases r)
    case (Inl err)
    then have "close_conn_internal a Low 0 (put_conn a (c\<lparr>conn_layer := l\<rparr>) p) = Some q"
      using assms(1) l by (simp add: process_online_packet_def)
    then have "conns q = (conns p)(a \<mapsto> c\<lparr>conn_layer := l\<rparr>)"
      using close_conn_internal_conns by (fastforce simp: put_conn_def)
    then show ?thesis using assms(2) mode_run_stays by (auto simp: moved_def)
  next
    case (Inr u)
    then obtain c1 p1 where p1:
      "process_messages e now a (output_queue l) (c\<lparr>conn_layer := l\<lparr>output_queue := []\<rparr>\<rparr>, p) = Some (c1, p1)"
      "q = put_conn a c1 p1"
      using assms(1) l
      by (auto simp: process_online_packet_def recv_def Let_def split: bind_splits prod.splits)
    have "mode_run (output_queue l) (connect_mode c) (connect_mode c1)"
      using process_messages_mode_all [OF p1(1)] by simp
    moreover have "packet_messages e now packet c = output_queue l"
      using l Inr by (simp add: packet_messages_def)
    moreover have "conns p1 = conns p" using process_messages_conns [OF p1(1)] by (simp add: same_conns_def)
    ultimately show ?thesis using p1(2) assms(2) by (auto simp: moved_def put_conn_def)
  qed
  then show "moved a (packet_messages e now packet c) p q"
    and "b \<noteq> a \<Longrightarrow> conns q b = conns p b"
    by blast+
qed

lemma process_packet_moved:
  assumes "process_packet e now b packet p = Some q" "conns p a = Some c"
  shows "moved a (if b = a then packet_messages e now packet c else []) p q"
proof (cases "b = a")
  case True
  then show ?thesis
    using assms process_online_packet_moved(1) by (simp add: process_packet_def)
next
  case False
  have "conns q a = conns p a"
  proof (cases "conns p b")
    case (Some d)
    then show ?thesis
      using assms(1) False process_online_packet_moved(2) [of e now b packet d p q a]
      by (simp add: process_packet_def)
  next
    case None
    then show ?thesis
      using assms(1) False process_unbanned_conns [of e now b packet _ q a]
      by (auto simp: process_packet_def send_offline_eq split: option.splits if_splits)
  qed
  then show ?thesis using assms(2) False by (intro moved_same) simp_all
qed

lemma process_packets_moved:
  "process_packets e now pkts p = Some q \<Longrightarrow> conns p a \<noteq> None \<Longrightarrow>
     moved a (heard_packets e now a pkts p) p q"
proof (induction pkts arbitrary: p)
  case Nil
  then show ?case by (simp add: moved_same)
next
  case (Cons x rest)
  obtain b packet where x: "x = (b, packet)" by force
  obtain c where c: "conns p a = Some c" using Cons.prems(2) by blast
  obtain m where m: "process_packet e now b packet p = Some m" "process_packets e now rest m = Some q"
    using Cons.prems(1) by (auto simp: x split: bind_splits)
  note first = process_packet_moved [OF m(1) c]
  show ?case
    using moved_trans [OF first Cons.IH [OF m(2) moved_conns [OF first]]] m(1) c by (simp add: x)
qed

text \<open>A connection that is still there after the commands was there before, in the same mode.\<close>

lemma process_commands_moved:
  "process_commands now cmds p = Some q \<Longrightarrow> conns q a \<noteq> None \<Longrightarrow> moved a [] p q"
proof (induction cmds arbitrary: p)
  case Nil
  then show ?case by (simp add: moved_same)
next
  case (Cons cmd cmds)
  then obtain m where m: "process_command now cmd p = Some m" "process_commands now cmds m = Some q"
    by (auto split: bind_splits)
  have rest: "moved a [] m q" using Cons.IH [OF m(2) Cons.prems(2)] .
  then have a: "conns m a \<noteq> None" by (auto simp: moved_def)
  have "moved a [] p m"
  proof (cases cmd)
    case (Send b prio r ch bs)
    show ?thesis
    proof (cases "b = a \<and> conns p a \<noteq> None")
      case True
      then obtain c c' where c: "conns p a = Some c" "send_to_conn now prio r ch bs c = Some c'"
        "conns m a = Some c'"
        using m(1) Send by (auto split: bind_splits)
      then show ?thesis using send_to_conn_mode [OF c(2)] mode_run_stays by (simp add: moved_def)
    next
      case False
      then show ?thesis using m(1) a Send
        by (intro moved_same) (auto split: option.splits bind_splits if_splits)
    qed
  next
    case (Close b)
    then show ?thesis using m(1) a
      by (intro moved_same) (auto split: if_splits bind_splits)
  qed
  then show ?case using moved_trans [OF _ rest] by simp
qed

lemma keep_alive_mode: "keep_alive e now c = Some c' \<Longrightarrow> connect_mode c' = connect_mode c"
  by (auto simp: keep_alive_def split: if_splits bind_splits dest: send_ping_to_conn_mode)

lemma periodic_ping_mode: "periodic_ping e now c = Some c' \<Longrightarrow> connect_mode c' = connect_mode c"
  by (auto simp: periodic_ping_def split: if_splits bind_splits dest: send_ping_to_conn_mode)

lemma update_conn_moved:
  assumes "update_conn e now a c p = Some q" "conns p a = Some c"
  shows "moved a (held_messages e now a c p) p q"
    and "b \<noteq> a \<Longrightarrow> conns q b = conns p b"
proof -
  obtain c1 r l n dead where up: "keep_alive e now c = Some c1"
    "update (env_wire e) (env_send_to e) sliding_window now a (conn_layer c1, net p) = Some (r, (l, n))"
    "(case r of Inl _ \<Rightarrow> Some True | Inr _ \<Rightarrow> gave_up now (c1\<lparr>conn_layer := l\<rparr>)) = Some dead"
    "(if dead then close_conn_internal a Low 0 (put_conn a (c1\<lparr>conn_layer := l\<rparr>) (p\<lparr>net := n\<rparr>))
      else update_live_conn e now a (c1\<lparr>conn_layer := l\<rparr>) (p\<lparr>net := n\<rparr>)) = Some q"
    using assms(1) by (auto simp: update_conn_def Let_def split: bind_splits)
  have mode: "connect_mode c1 = connect_mode c" using keep_alive_mode [OF up(1)] .
  have "moved a (held_messages e now a c p) p q \<and> (b \<noteq> a \<longrightarrow> conns q b = conns p b)" for b
  proof (cases dead)
    case True
    then have "conns q = (conns p)(a \<mapsto> c1\<lparr>conn_layer := l\<rparr>)"
      using up(4) close_conn_internal_conns by (fastforce simp: put_conn_def)
    then show ?thesis using assms(2) mode mode_run_stays by (auto simp: moved_def)
  next
    case False
    then obtain c2 where c2: "periodic_ping e now (c1\<lparr>conn_layer := l\<rparr>) = Some c2"
      using up(4) by (auto simp: update_live_conn_def split: bind_splits)
    let ?l = "conn_layer c2"
    obtain c3 p3 where p3: "process_queued_messages e now a (output_queue ?l)
        (c2\<lparr>conn_layer := ?l\<lparr>output_queue := []\<rparr>\<rparr>, p\<lparr>net := n\<rparr>) = Some (c3, p3)" "q = put_conn a c3 p3"
      using up(4) c2 False by (auto simp: update_live_conn_def recv_def split: bind_splits)
    have "held_messages e now a c p = output_queue ?l"
      using up(1-3) c2 False by (simp add: held_messages_def)
    moreover have "mode_run (output_queue ?l) (connect_mode c) (connect_mode c3)"
      using process_queued_messages_mode [OF p3(1)] periodic_ping_mode [OF c2] mode by simp
    moreover have "conns p3 = conns p"
      using process_queued_messages_conns [OF p3(1)] by (simp add: same_conns_def)
    ultimately show ?thesis using p3(2) assms(2) by (auto simp: moved_def put_conn_def)
  qed
  then show "moved a (held_messages e now a c p) p q"
    and "b \<noteq> a \<Longrightarrow> conns q b = conns p b"
    by blast+
qed

lemma update_conns_moved:
  "update_conns e now order p = Some q \<Longrightarrow> conns p a \<noteq> None \<Longrightarrow>
     moved a (heard_conns e now a order p) p q"
proof (induction order arbitrary: p)
  case Nil
  then show ?case by (simp add: moved_same)
next
  case (Cons b order)
  obtain c where c: "conns p a = Some c" using Cons.prems(2) by blast
  obtain m where m: "(case conns p b of Some d \<Rightarrow> update_conn e now b d p | None \<Rightarrow> Some p) = Some m"
    "update_conns e now order m = Some q"
    using Cons.prems(1) by (auto split: bind_splits)
  have first: "moved a (if b = a then held_messages e now a c p else []) p m"
  proof (cases "b = a")
    case True
    then show ?thesis using m(1) c update_conn_moved(1) [of e now a c p m] by simp
  next
    case False
    then have "conns m a = conns p a"
      using m(1) update_conn_moved(2) [of e now b _ p m a] by (auto split: option.splits)
    then show ?thesis using c False by (intro moved_same) simp_all
  qed
  show ?case
    using moved_trans [OF first Cons.IH [OF m(2) moved_conns [OF first]]] m(1) c by simp
qed

lemma update_conns_gone:
  "update_conns e now order p = Some q \<Longrightarrow> conns p a = None \<Longrightarrow> conns q a = None"
proof (induction order arbitrary: p)
  case (Cons b order)
  obtain m where m: "(case conns p b of Some d \<Rightarrow> update_conn e now b d p | None \<Rightarrow> Some p) = Some m"
    "update_conns e now order m = Some q"
    using Cons.prems(1) by (auto split: bind_splits)
  have "conns m a = conns p a"
    using m(1) update_conn_moved(2) [of e now b _ p m a] Cons.prems(2)
    by (cases "b = a") (auto split: option.splits)
  then show ?case using Cons.IH [OF m(2)] Cons.prems(2) by simp
qed simp

lemma update_cycle_moved:
  assumes "update_cycle e now req_order conn_order p = Some q"
    and "conns p a \<noteq> None" and "conns q a \<noteq> None"
  shows "moved a (heard_cycle e now req_order conn_order a p) p q"
proof -
  let ?p0 = "p\<lparr>packet_queue := []\<rparr>"
  obtain p1 p2 p3 where p: "process_packets e now (packet_queue p) ?p0 = Some p1"
    "process_commands now (command_queue p1) (p1\<lparr>command_queue := []\<rparr>) = Some p2"
    "update_req_conns e now req_order p2 = Some p3" "update_conns e now conn_order p3 = Some q"
    using assms(1) by (auto simp: update_cycle_def split: bind_splits)
  have req: "conns p3 = conns p2" using update_req_conns_same [OF p(3)] by (simp add: same_conns_def)
  have "moved a (heard_packets e now a (packet_queue p) ?p0) ?p0 p1"
    using process_packets_moved [OF p(1)] assms(2) by simp
  then have packets: "moved a (heard_packets e now a (packet_queue p) ?p0) p (p1\<lparr>command_queue := []\<rparr>)"
    by (simp add: moved_def)
  have kept: "conns p3 a \<noteq> None" using update_conns_gone [OF p(4), of a] assms(3) by auto
  then have "conns p2 a \<noteq> None" using req by simp
  from process_commands_moved [OF p(2) this] have "moved a [] (p1\<lparr>command_queue := []\<rparr>) p3"
    using req by (simp add: moved_def)
  from moved_trans [OF moved_trans [OF packets this] update_conns_moved [OF p(4) kept]]
  show ?thesis using p(1-3) by (simp add: heard_cycle_def)
qed

lemma close_all_conns: "close_all as p = Some q \<Longrightarrow> conns q = conns p"
  by (induction as arbitrary: p) (auto split: bind_splits dest: close_conn_internal_conns)

section \<open>The steps of the peer\<close>

lemma node_step_moved:
  assumes "node_step e ev n n'" "conns (node_peer n) a \<noteq> None" "conns (node_peer n') a \<noteq> None"
  shows "moved a (heard e a ev n) (node_peer n) (node_peer n')"
  using assms
proof (induction rule: node_step.induct)
  case (listen limit n)
  then show ?case by (intro moved_same) (auto simp: listen_def split: if_splits)
next
  case (push cmd n p)
  then show ?case by (intro moved_same) (auto simp: push_command_def split: if_splits)
next
  case (connect now r i j t n)
  obtain rs where "snd (peer_connect now r i j t (node_peer n)) = node_peer n\<lparr>req_conns := rs\<rparr>"
    using peer_calls_fields(1) by blast
  then show ?case using connect by (intro moved_same) simp_all
next
  case (ping now r n)
  have "conns (snd (peer_ping e now r (node_peer n))) = conns (node_peer n)"
    by (simp add: peer_ping_def split: option.split)
  then show ?case using ping by (intro moved_same) simp_all
next
  case (take k n)
  obtain ms where "snd (peer_recv_many k (node_peer n)) = node_peer n\<lparr>message_queue := ms\<rparr>"
    using peer_recv_many_fields by blast
  then show ?case using take by (intro moved_same) simp_all
next
  case (ban b t n)
  then show ?case by (intro moved_same) (simp_all add: ban_addr_def ban_addr_internal_def)
next
  case (unban b n)
  then show ?case by (intro moved_same) (simp_all add: unban_addr_def)
next
  case (cycle n now req_order conn_order p)
  then show ?case using update_cycle_moved [of "node_env e n"] by simp
next
  case (shutdown n now close_order req_order conn_order p)
  then obtain m where m: "close_all close_order (node_peer n) = Some m"
    "update_cycle (node_env e n) now req_order conn_order m = Some p"
    by (auto simp: shutdown_def split: bind_splits)
  have "moved a (heard_cycle (node_env e n) now req_order conn_order a m) m p"
    using update_cycle_moved [OF m(2)] shutdown.prems close_all_conns [OF m(1)] by simp
  then show ?case using m(1) close_all_conns [OF m(1)] by (simp add: moved_def)
next
  case (datagram n b bs p)
  then show ?case using receive_datagram_fields(1) [OF datagram.hyps(2)] by (intro moved_same) simp_all
next
  case (retry n b bs p)
  then show ?case using receive_datagram_fields(1) [OF retry.hyps(2)] by (intro moved_same) simp_all
qed (simp_all add: moved_same set_ping_res_def close_def)

lemma conn_life_moved:
  "conn_life e a n msgs n' \<Longrightarrow> moved a msgs (node_peer n) (node_peer n')"
proof (induction rule: conn_life.induct)
  case begins
  then show ?case by (simp add: moved_same)
next
  case (continues msgs n' ev n'')
  show ?case
    using moved_trans [OF continues.IH node_step_moved [OF continues.hyps(2)]]
      moved_conns [OF continues.IH] continues.hyps(3) by blast
qed

section \<open>Properties\<close>

text \<open>C12: a connection that another peer opened becomes connected only through the handshake. In
  any run of the peer in which the address keeps its connection, over any number of update
  cycles and calls, if the connection is unverified at the start and connected at the end, then
  among the messages handed to it, in the order in which they were handed to it, there is a
  connection request (0x09) and after it a new incoming connection (0x13).\<close>
theorem connected_only_by_handshake:
  assumes "conn_life e a n msgs n'"
    and "conns (node_peer n) a = Some c" and "connect_mode c = UnverfiedSender"
    and "conns (node_peer n') a = Some c'" and "connect_mode c' = Connected"
  shows "\<exists>xs bs ys bs' zs. msgs = xs @ (0x09 # bs) # ys @ (0x13 # bs') # zs"
  using conn_life_moved [OF assms(1)] assms(2-5) unverified_to_connected by (auto simp: moved_def)

text \<open>A connection whose layer has put out the two messages of the handshake.\<close>

definition handshake_messages :: "bytes list" where
  "handshake_messages =
     [connection_request (sample_env True) 3, new_incoming_reply network_wire 4 sample_addr 3]"

definition waiting_conn :: conn where
  "waiting_conn = (sample_conn UnverfiedSender)
     \<lparr>conn_layer := sample_layer\<lparr>output_queue := handshake_messages\<rparr>\<rparr>"

definition waiting_node :: "((bytes \<times> socket_addr) list) node" where
  "waiting_node = sample_listening
     \<lparr>node_peer := insert_conn sample_addr waiting_conn (peer_new []), update_phase := Working\<rparr>"

lemma sample_layer_last: "last_update sample_layer = 0" "bandwidth_exceeded sample_layer = False"
  by (simp_all add: sample_layer_def layer_new_def size_sub_def HEADER_SIZE_def PACKET_HEADER_SIZE_def
      IP_UDP_HEADER_SIZE_def)

lemma waiting_update:
  "update network_wire recording sliding_window 5 sample_addr (conn_layer waiting_conn, [])
     = Some (Inr (), ((conn_layer waiting_conn)\<lparr>last_update := 5\<rparr>, []))"
proof -
  have "cache_is_empty cache_new"
    by (simp add: cache_is_empty_def cache_new_def cache_index_def PACKET_HISTORY_SIZE_def)
  then show ?thesis
    by (simp add: update_def waiting_conn_def sample_layer_fields sample_layer_last usub_def
        check_alive_def send_acks_def send_naks_def send_queued_def sw_should_send_ack_def sw_new_def)
qed

theorem connected_only_by_handshake_witness:
  "\<exists>n' c' msgs. conn_life (sample_env True) sample_addr waiting_node msgs n' \<and>
     conns (node_peer n') sample_addr = Some c' \<and> connect_mode c' = Connected \<and>
     (\<exists>xs bs ys bs' zs. msgs = xs @ (0x09 # bs) # ys @ (0x13 # bs') # zs)"
proof -
  let ?e = "node_env (sample_env True) waiting_node" and ?p = "node_peer waiting_node"
  define c where "c = waiting_conn
    \<lparr>conn_layer := sample_layer\<lparr>last_update := 5, output_queue := []\<rparr>\<rparr>"
  have e: "env_wire ?e = network_wire" "env_send_to ?e = recording" "own_guid ?e = 42"
    by (simp_all add: node_env_def sample_env_fields)
  have p: "conns ?p = [sample_addr \<mapsto> waiting_conn]" "net ?p = []" "message_queue ?p = []"
    "packet_queue ?p = []" "command_queue ?p = []" "?p\<lparr>net := []\<rparr> = ?p"
    "?p\<lparr>packet_queue := [], command_queue := []\<rparr> = ?p"
    by (simp_all add: waiting_node_def insert_conn_def peer_new_def)
  have ready: "sender_ready k (l\<lparr>last_update := 5, output_queue := []\<rparr>) = sender_ready k l"
    for k and l :: "sliding_window_state layer"
    by (simp add: sender_ready_def sender_inv_def)
  have c: "connect_mode c = UnverfiedSender" "sender_ready (Suc 1) (conn_layer c)"
    "MIN_MTU_SIZE \<le> max_size_of_packet (conn_layer c) + 32"
    using sample_layer_ready [of "Suc 1"] ready [of "Suc 1" sample_layer]
    by (simp_all add: c_def waiting_conn_def sample_conn_def sample_layer_fields MIN_MTU_SIZE_def)
  obtain c1 where c1: "process_message ?e 5 sample_addr (connection_request (sample_env True) 3) (c, ?p)
      = Some (Inr (), (c1, ?p))"
    "connect_mode c1 = HandlingConnectionRequest" "sender_ready (Suc 0) (conn_layer c1)"
    using server_accepts_request [of ?e sample_addr c 1 5 42 3 ?p] c
    by (auto simp: connection_request_def e sample_env_fields network_wire_format
        sample_addr_valid simp del: online_to_u8.simps)
  obtain c2 q where c2: "process_message ?e 5 sample_addr (new_incoming_reply network_wire 4 sample_addr 3)
      (c1, ?p) = Some (Inr (), (c2, q))" "connect_mode c2 = Connected"
    using server_is_connected [of ?e sample_addr c1 0 ?p 5 sample_addr 4 3] c1
    by (auto simp: e p network_wire_format sample_addr_valid MESSAGE_QUEUE_SIZE_def)
  have run: "process_queued_messages ?e 5 sample_addr handshake_messages (c, ?p) = Some (c2, q)"
    using c1(1) c2(1) by (simp add: handshake_messages_def)
  have dead: "is_dead sample_layer = False"
    by (simp add: sample_layer_def layer_new_def size_sub_def HEADER_SIZE_def PACKET_HEADER_SIZE_def
        IP_UDP_HEADER_SIZE_def)
  have "update_conn ?e 5 sample_addr waiting_conn ?p = Some (put_conn sample_addr c2 q)"
    using waiting_update run
    by (simp add: update_conn_def keep_alive_def gave_up_def update_live_conn_def periodic_ping_def
        recv_def e p c_def waiting_conn_def sample_conn_def dead usub_def)
  then have "update_cycle ?e 5 [] [sample_addr] ?p = Some (put_conn sample_addr c2 q)"
    by (simp add: update_cycle_def p)
  moreover have "update_phase waiting_node = Working" by (simp add: waiting_node_def)
  ultimately have step: "node_step (sample_env True) (Cycle 5 [] [sample_addr]) waiting_node
      (waiting_node\<lparr>node_peer := put_conn sample_addr c2 q, update_phase := Waiting\<rparr>)"
    by (intro node_step.cycle)
  let ?n = "waiting_node\<lparr>node_peer := put_conn sample_addr c2 q, update_phase := Waiting\<rparr>"
  have end': "conns (node_peer ?n) sample_addr = Some c2" by (simp add: put_conn_def)
  have "conn_life (sample_env True) sample_addr waiting_node [] waiting_node"
    using p(1) by (intro conn_life.begins) simp
  from conn_life.continues [OF this step] end' obtain msgs where
    life: "conn_life (sample_env True) sample_addr waiting_node msgs ?n" by auto
  have "connect_mode waiting_conn = UnverfiedSender"
    by (simp add: waiting_conn_def sample_conn_def)
  then have "\<exists>xs bs ys bs' zs. msgs = xs @ (0x09 # bs) # ys @ (0x13 # bs') # zs"
    using p(1) by (intro connected_only_by_handshake [OF life _ _ end' c2(2)]) simp_all
  then show ?thesis using life end' c2(2) by blast
qed

end
