(* ===== verification/Float32.thy ===== *)
theory Float32
  imports Float64
begin

text \<open>
  The single-precision arithmetic of the UDT controller. Its values come from the network, so
  infinities, NaN and the sign of zero matter here: an \<open>f32\<close> is NaN, an infinity, or a sign and
  a magnitude. An operation computes the exact result and rounds it to 24 bits, ties to even,
  with gradual underflow and overflow to infinity. \<open>from_bits\<close> and \<open>to_bits\<close> convert from and to
  the pattern that travels on the wire.
\<close>

section \<open>Values and rounding\<close>

datatype f32 = NaN | Inf bool | Num bool rat \<comment> \<open>the sign (true: negative), the magnitude\<close>

definition unit_of :: "rat \<Rightarrow> rat" where
  "unit_of m = 2 powi (max (binade m) (- 126) - 23)"

definition round_magnitude :: "rat \<Rightarrow> rat" where
  "round_magnitude m = (if m = 0 then 0 else unit_of m * of_int (round_even (m / unit_of m)))"

definition f32_of :: "bool \<Rightarrow> rat \<Rightarrow> f32" where
  "f32_of negative m =
     (let r = round_magnitude m in if r < 2 ^ 128 then Num negative r else Inf negative)"

definition f32_literal :: "rat \<Rightarrow> f32" where
  "f32_literal x = f32_of (x < 0) \<bar>x\<bar>"

definition f32_of_nat :: "nat \<Rightarrow> f32" where
  "f32_of_nat n = f32_of False (of_nat n)"

fun signed :: "bool \<Rightarrow> rat \<Rightarrow> rat" where
  "signed negative m = (if negative then - m else m)"

section \<open>Operations\<close>

fun f32_neg :: "f32 \<Rightarrow> f32" where
  "f32_neg NaN = NaN"
| "f32_neg (Inf s) = Inf (\<not> s)"
| "f32_neg (Num s m) = Num (\<not> s) m"

fun f32_add :: "f32 \<Rightarrow> f32 \<Rightarrow> f32" where
  "f32_add (Num s m) (Num t n) =
     (let x = signed s m + signed t n
      in if x = 0 then Num (s \<and> t) 0 else f32_of (x < 0) \<bar>x\<bar>)"
| "f32_add (Inf s) (Inf t) = (if s = t then Inf s else NaN)"
| "f32_add (Inf s) (Num t n) = Inf s"
| "f32_add (Num s m) (Inf t) = Inf t"
| "f32_add NaN b = NaN"
| "f32_add a NaN = NaN"

definition f32_sub :: "f32 \<Rightarrow> f32 \<Rightarrow> f32" where
  "f32_sub a b = f32_add a (f32_neg b)"

fun f32_mul :: "f32 \<Rightarrow> f32 \<Rightarrow> f32" where
  "f32_mul (Num s m) (Num t n) = f32_of (s \<noteq> t) (m * n)"
| "f32_mul (Inf s) (Inf t) = Inf (s \<noteq> t)"
| "f32_mul (Inf s) (Num t n) = (if n = 0 then NaN else Inf (s \<noteq> t))"
| "f32_mul (Num s m) (Inf t) = (if m = 0 then NaN else Inf (s \<noteq> t))"
| "f32_mul NaN b = NaN"
| "f32_mul a NaN = NaN"

fun f32_div :: "f32 \<Rightarrow> f32 \<Rightarrow> f32" where
  "f32_div (Num s m) (Num t n) =
     (if n = 0 then if m = 0 then NaN else Inf (s \<noteq> t) else f32_of (s \<noteq> t) (m / n))"
| "f32_div (Inf s) (Inf t) = NaN"
| "f32_div (Inf s) (Num t n) = Inf (s \<noteq> t)"
| "f32_div (Num s m) (Inf t) = Num (s \<noteq> t) 0"
| "f32_div NaN b = NaN"
| "f32_div a NaN = NaN"

text \<open>\<open>partial_cmp\<close>, and the comparisons it gives.\<close>

datatype ordering = Less | Equal | Greater

definition compare_rat :: "rat \<Rightarrow> rat \<Rightarrow> ordering" where
  "compare_rat x y = (if x < y then Less else if x = y then Equal else Greater)"

fun partial_cmp :: "f32 \<Rightarrow> f32 \<Rightarrow> ordering option" where
  "partial_cmp (Num s m) (Num t n) = Some (compare_rat (signed s m) (signed t n))"
| "partial_cmp (Inf s) (Inf t) = Some (if s = t then Equal else if s then Less else Greater)"
| "partial_cmp (Inf s) (Num t n) = Some (if s then Less else Greater)"
| "partial_cmp (Num s m) (Inf t) = Some (if t then Greater else Less)"
| "partial_cmp NaN b = None"
| "partial_cmp a NaN = None"

definition f32_less :: "f32 \<Rightarrow> f32 \<Rightarrow> bool" where
  "f32_less a b \<longleftrightarrow> partial_cmp a b = Some Less"

definition f32_ge :: "f32 \<Rightarrow> f32 \<Rightarrow> bool" where
  "f32_ge a b \<longleftrightarrow> partial_cmp a b = Some Greater \<or> partial_cmp a b = Some Equal"

text \<open>The cast \<open>as isize\<close>: towards zero, saturating, zero for NaN. \<open>isize\<close> is \<open>int\<close> within bounds.\<close>

fun f32_to_isize :: "f32 \<Rightarrow> int" where
  "f32_to_isize NaN = 0"
| "f32_to_isize (Inf s) = (if s then - (2 ^ 63) else 2 ^ 63 - 1)"
| "f32_to_isize (Num s m) =
     (if s then max (- \<lfloor>m\<rfloor>) (- (2 ^ 63)) else min \<lfloor>m\<rfloor> (2 ^ 63 - 1))"

definition isize :: "int \<Rightarrow> int option" where
  "isize x = (if - (2 ^ 63) \<le> x \<and> x < 2 ^ 63 then Some x else None)"

section \<open>The pattern on the wire\<close>

definition from_bits :: "f32_bits \<Rightarrow> f32" where
  "from_bits b =
     (let s = bit b 31; e = unat (drop_bit 23 b AND 0xFF); f = unat (b AND 0x7FFFFF) in
      if e = 255 then if f = 0 then Inf s else NaN
      else if e = 0 then Num s (of_nat f * 2 powi (- 149))
      else Num s (of_nat (2 ^ 23 + f) * 2 powi (int e - 150)))"

fun to_bits :: "f32 \<Rightarrow> f32_bits" where
  "to_bits NaN = 0x7FC00000"
| "to_bits (Inf s) = (if s then 0xFF800000 else 0x7F800000)"
| "to_bits (Num s m) =
     (let e = max (binade m) (- 126);
          f = nat \<lfloor>m / 2 powi (e - 23)\<rfloor>;
          magnitude = (if m = 0 then 0 else if f < 2 ^ 23 then f
            else nat (e + 127) * 2 ^ 23 + (f - 2 ^ 23))
      in word_of_nat (if s then 2 ^ 31 + magnitude else magnitude))"

section \<open>Facts\<close>

lemma unit_of_pos: "0 < unit_of m"
  by (simp add: unit_of_def)

lemma unit_of_le:
  assumes "1 \<le> m"
  shows "unit_of m \<le> m"
proof -
  have "0 \<le> binade m"
  proof (rule ccontr)
    assume "\<not> 0 \<le> binade m"
    then have "(2 :: rat) powi (binade m + 1) \<le> 2 powi 0"
      by (intro power_int_increasing) auto
    then show False using less_binade [of m] assms by simp
  qed
  then have "unit_of m \<le> 2 powi binade m"
    unfolding unit_of_def by (intro power_int_increasing) auto
  also have "\<dots> \<le> m" using binade_le [of m] assms by simp
  finally show ?thesis .
qed

lemma round_even_le: "of_int (round_even y) \<le> y + 1"
proof -
  have "round_even y \<le> \<lfloor>y\<rfloor> + 1" by (simp add: round_even_def Let_def)
  then have "of_int (round_even y) \<le> (of_int (\<lfloor>y\<rfloor> + 1) :: rat)" by (simp only: of_int_le_iff)
  also have "\<dots> \<le> y + 1" by simp
  finally show ?thesis .
qed

lemma round_magnitude_bounds:
  assumes "1 \<le> m"
  shows "0 < round_magnitude m" and "round_magnitude m \<le> 2 * m"
proof -
  let ?u = "unit_of m"
  have u: "0 < ?u" "?u \<le> m" using unit_of_pos unit_of_le [OF assms] by auto
  have "1 \<le> round_even (m / ?u)" using u by (intro round_even_ge) (simp add: pos_le_divide_eq)
  then show "0 < round_magnitude m" using assms u by (simp add: round_magnitude_def)
  have "?u * of_int (round_even (m / ?u)) \<le> ?u * (m / ?u + 1)"
    using u by (intro mult_left_mono round_even_le) simp
  also have "\<dots> = m + ?u" using u by (simp add: field_simps)
  finally show "round_magnitude m \<le> 2 * m" using assms u by (simp add: round_magnitude_def)
qed

lemma f32_of_nat_finite:
  assumes "0 < n" and "n < 2 ^ 64"
  shows "\<exists>m. 0 < m \<and> f32_of_nat n = Num False m"
proof -
  have n: "(1 :: rat) \<le> of_nat n" using assms(1) by simp
  have "(of_nat n :: rat) < of_nat (2 ^ 64)" using assms(2) by (simp only: of_nat_less_iff)
  then have "round_magnitude (of_nat n) < 2 ^ 128"
    using round_magnitude_bounds(2) [OF n] by simp
  then show ?thesis
    using round_magnitude_bounds(1) [OF n] by (auto simp: f32_of_nat_def f32_of_def Let_def)
qed

lemma f32_of_number: "f32_of s m \<noteq> NaN"
  by (simp add: f32_of_def Let_def)

lemma f32_div_number:
  assumes "a \<noteq> NaN" and "0 < m"
  shows "f32_div a (Num s m) \<noteq> NaN"
  using assms by (cases a) (auto simp: f32_of_number)

end
