(* ===== verification/Udt.thy ===== *)
theory Udt
  imports Congestion Float32 "HOL-Library.Product_Lexorder"
begin

text \<open>
  The congestion controller of the feature \<open>udt\<close>, \<open>congestion_controller/udt.rs\<close>: its state, every
  method of the trait and the dictionary \<open>udt\<close>. The standard library leaves the precision of
  \<open>f32::powf\<close> open, so \<open>powf\<close> is a parameter. \<open>isize\<close> is \<open>int\<close> with its bounds checked.

  The recursive selection is proved to be a position of the sorted list; \<open>udt_inv\<close> holds in every
  reachable state, so the selection returns and the window and the timeout have their bounds.
  Outside slow start the controller grants nothing (\<open>udt_no_bandwidth\<close>), and two inputs panic.
\<close>

section \<open>State\<close>

definition UDT_SYN :: u64 where "UDT_SYN = 10"
definition MIN_CWND :: usize where "MIN_CWND = 2"
definition MAX_CWND :: usize where "MAX_CWND = 512"
definition DEFAULT_TRANSFER_RATE :: f32 where "DEFAULT_TRANSFER_RATE = f32_literal (36 / 10000)"
definition DEFAULT_BYTE_INTERVAL :: f32 where
  "DEFAULT_BYTE_INTERVAL = f32_div (f32_literal 1) DEFAULT_TRANSFER_RATE"
definition PACKET_ARRIVAL_HISTORY_SIZE :: usize where "PACKET_ARRIVAL_HISTORY_SIZE = 64"
definition INTERVAL_SIZE :: usize where "INTERVAL_SIZE = 33"

record udt_state =
  udt_cwnd :: usize
  udt_mtu :: usize \<comment> \<open>\<open>mtu_size_excluding_header\<close>\<close>
  udt_next_seq :: u32
  arrival_rate :: "f32 option"
  snd_interval :: f32 \<comment> \<open>\<open>snd\<close>\<close>
  bytes_can_send_this_tick :: int
  packet_arrival_history_index :: usize
  packet_arrival_history :: "f32 list"
  pings_last_interval :: "u64 list"
  last_packet_arrival_time :: u64
  last_rtt_on_increase_send_rate :: u64
  udt_oldest_unsent_ack :: u64
  udt_next_block :: u32 \<comment> \<open>\<open>next_congestion_control_block\<close>\<close>
  had_packet_loss_this_block :: bool
  slow_start :: bool \<comment> \<open>\<open>is_in_slow_start\<close>\<close>

definition udt_new :: "usize \<Rightarrow> udt_state" where
  "udt_new mtu =
     \<lparr>udt_cwnd = MIN_CWND, udt_mtu = mtu, udt_next_seq = 0,
      arrival_rate = Some DEFAULT_TRANSFER_RATE, snd_interval = DEFAULT_BYTE_INTERVAL,
      bytes_can_send_this_tick = 0, packet_arrival_history_index = 0,
      packet_arrival_history = replicate PACKET_ARRIVAL_HISTORY_SIZE (Num False 0),
      pings_last_interval = [], last_packet_arrival_time = 0,
      last_rtt_on_increase_send_rate = 1000, udt_oldest_unsent_ack = 0, udt_next_block = 0,
      had_packet_loss_this_block = False, slow_start = True\<rparr>"

section \<open>The send interval\<close>

definition cap_min_snd :: "udt_state \<Rightarrow> udt_state" where
  "cap_min_snd s =
     (if partial_cmp (snd_interval s) (f32_literal 500) = Some Greater
      then s\<lparr>snd_interval := f32_literal 500\<rparr> else s)"

text \<open>\<open>None\<close> is the \<open>unwrap\<close> of a missing rate; every caller has checked that there is one.\<close>

definition end_slow_start :: "udt_state \<Rightarrow> udt_state option" where
  "end_slow_start s =
     do {
       rate \<leftarrow> arrival_rate s;
       Some (cap_min_snd (s\<lparr>slow_start := False, snd_interval := f32_div (f32_literal 1) rate\<rparr>))
     }"

definition send_increment :: "(f32 \<Rightarrow> f32 \<Rightarrow> f32) \<Rightarrow> rat \<Rightarrow> udt_state \<Rightarrow> f32" where
  "send_increment powf factor s =
     f32_div
       (f32_mul (f32_literal factor) (powf (f32_add (snd_interval s) (f32_literal 1)) (f32_literal 2)))
       (powf (f32_literal 501) (f32_literal 2))"

definition increase_time_between_sends :: "(f32 \<Rightarrow> f32 \<Rightarrow> f32) \<Rightarrow> udt_state \<Rightarrow> udt_state" where
  "increase_time_between_sends powf s =
     cap_min_snd (s\<lparr>snd_interval := f32_mul (snd_interval s)
       (f32_sub (f32_literal (102 / 100)) (send_increment powf (2 / 100) s))\<rparr>)"

definition decrease_time_between_sends :: "(f32 \<Rightarrow> f32 \<Rightarrow> f32) \<Rightarrow> udt_state \<Rightarrow> udt_state" where
  "decrease_time_between_sends powf s =
     s\<lparr>snd_interval := f32_mul (snd_interval s)
       (f32_add (f32_literal (99 / 100)) (send_increment powf (1 / 100) s))\<rparr>"

section \<open>The arrival rate\<close>

text \<open>The loop that splits a list around a pivot; \<open>None\<close> is the \<open>unwrap\<close> of a comparison with NaN.\<close>

fun split_around :: "f32 \<Rightarrow> f32 list \<Rightarrow> (f32 list \<times> f32 list \<times> f32 list) option" where
  "split_around pivot [] = Some ([], [], [])"
| "split_around pivot (e # es) =
     do {
       c \<leftarrow> partial_cmp e pivot;
       (lows, sames, highs) \<leftarrow> split_around pivot es;
       Some (case c of
           Less \<Rightarrow> (e # lows, sames, highs)
         | Equal \<Rightarrow> (lows, e # sames, highs)
         | Greater \<Rightarrow> (lows, sames, e # highs))
     }"

lemma split_around_length:
  "split_around pivot es = Some (lows, sames, highs) \<Longrightarrow>
     length lows + length sames + length highs = length es"
  by (induction es arbitrary: lows sames highs)
    (auto split: bind_splits ordering.splits prod.splits)

lemma partial_cmp_refl: "partial_cmp x x = Some c \<Longrightarrow> c = Equal"
  by (cases x) (auto simp: compare_rat_def)

lemma split_around_equal:
  "split_around pivot es = Some (lows, sames, highs) \<Longrightarrow> pivot \<in> set es \<Longrightarrow> 0 < length sames"
proof (induction es arbitrary: lows sames highs)
  case (Cons e es)
  then obtain c ls ss hs where c: "partial_cmp e pivot = Some c"
    and es: "split_around pivot es = Some (ls, ss, hs)"
    and eq: "(lows, sames, highs) = (case c of Less \<Rightarrow> (e # ls, ss, hs)
      | Equal \<Rightarrow> (ls, e # ss, hs) | Greater \<Rightarrow> (ls, ss, e # hs))"
    by (auto split: bind_splits)
  show ?case
  proof (cases "e = pivot")
    case True
    then show ?thesis using c eq by (auto dest: partial_cmp_refl)
  next
    case False
    then show ?thesis using Cons.IH [OF es] Cons.prems(2) eq by (cases c) auto
  qed
qed simp

lemma split_around_shorter:
  assumes "split_around (list ! (length list div 2)) list = Some (lows, sames, highs)"
    and "list \<noteq> []"
  shows "length lows < length list \<and> length highs < length list"
proof -
  have "0 < length sames"
    using assms by (intro split_around_equal [OF assms(1)]) simp
  then show ?thesis
    using split_around_length [OF assms(1)] by linarith
qed

function find_kth_element_recursive :: "f32 list \<Rightarrow> usize \<Rightarrow> f32 option" where
  "find_kth_element_recursive list k =
     (if length list = 1 then Some (list ! 0)
      else if list = [] then None
      else
        let pivot = list ! (length list div 2) in
        case split_around pivot list of
          None \<Rightarrow> None
        | Some (lows, sames, highs) \<Rightarrow>
            if k < length lows then find_kth_element_recursive lows k
            else if k < length lows + length sames then Some pivot
            else find_kth_element_recursive highs (k - length lows - length sames))"
  by pat_completeness auto
termination
  by (relation "measure (\<lambda>(list, k). length list)") (auto dest!: split_around_shorter)

declare find_kth_element_recursive.simps [simp del]

definition find_median_arrival_rate :: "udt_state \<Rightarrow> f32 option" where
  "find_median_arrival_rate s =
     find_kth_element_recursive (packet_arrival_history s)
       (length (packet_arrival_history s) div 2)"

definition add_in_range :: "f32 \<Rightarrow> f32 \<Rightarrow> f32 \<Rightarrow> f32 \<times> usize \<Rightarrow> f32 \<times> usize" where
  "add_in_range low high x = (\<lambda>(sum, count).
     if f32_ge x low \<and> f32_less x high then (f32_add sum x, count + 1) else (sum, count))"

definition calc_arrival_rate :: "udt_state \<Rightarrow> f32 option option" where
  "calc_arrival_rate s =
     (if packet_arrival_history_index s < PACKET_ARRIVAL_HISTORY_SIZE then Some None
      else do {
        median \<leftarrow> find_median_arrival_rate s;
        let (sum, count) =
          fold (add_in_range (f32_div median (f32_literal 8)) (f32_mul median (f32_literal 8)))
            (packet_arrival_history s) (Num False 0, 0);
        Some (if count > 0 then Some (f32_div sum (f32_of_nat count)) else None)
      })"

section \<open>Methods\<close>

definition udt_should_send_ack :: "u64 \<Rightarrow> u64 \<Rightarrow> udt_state \<Rightarrow> bool option" where
  "udt_should_send_ack now time_since_last_update s =
     do {
       age \<leftarrow> usub now (udt_oldest_unsent_ack s);
       if age \<ge> UDT_SYN then Some True
       else do {
         next_update \<leftarrow> uadd now time_since_last_update;
         due \<leftarrow> uadd (udt_oldest_unsent_ack s) UDT_SYN;
         Some (next_update < due)
       }
     }"

definition udt_get_seq_and_increment :: "udt_state \<Rightarrow> (u32 \<times> udt_state) option" where
  "udt_get_seq_and_increment s =
     do {
       n \<leftarrow> uadd (udt_next_seq s) 1;
       Some (udt_next_seq s, s\<lparr>udt_next_seq := n\<rparr>)
     }"

text \<open>The product of the two casts and the sum are \<open>isize\<close> operations; the last cast of a
  negative number to \<open>usize\<close> wraps.\<close>

definition udt_get_transmission_bandwidth ::
  "u64 \<Rightarrow> u64 \<Rightarrow> bool \<Rightarrow> udt_state \<Rightarrow> (usize \<times> udt_state) option" where
  "udt_get_transmission_bandwidth now time_since_last_update is_continuous_send s =
     (if slow_start s then Some (udt_cwnd s * udt_mtu s, s)
      else
        let base = max (bytes_can_send_this_tick s) 0;
            time = (if \<not> is_continuous_send \<and> time_since_last_update > 100 then 100
              else time_since_last_update)
        in do {
          earned \<leftarrow> isize (sint time * f32_to_isize (f32_div (f32_literal 1) (snd_interval s)));
          n \<leftarrow> isize (base + earned);
          Some (if n < 0 then nat (n + 2 ^ 64) else 0, s\<lparr>bytes_can_send_this_tick := n\<rparr>)
        })"

definition udt_get_rto :: "udt_state \<Rightarrow> u64 option" where
  "udt_get_rto s =
     do {
       twice \<leftarrow> uadd (last_rtt_on_increase_send_rate s) (last_rtt_on_increase_send_rate s);
       Some (max 100 (min twice 10000))
     }"

text \<open>\<open>on_resend\<close> and \<open>on_recv_nak\<close> have the same body.\<close>

definition udt_on_loss :: "(f32 \<Rightarrow> f32 \<Rightarrow> f32) \<Rightarrow> udt_state \<Rightarrow> udt_state" where
  "udt_on_loss powf s =
     (case (if slow_start s then end_slow_start s else None) of
        Some s \<Rightarrow> s
      | None \<Rightarrow>
          if \<not> had_packet_loss_this_block s then
            (increase_time_between_sends powf s)\<lparr>had_packet_loss_this_block := True\<rparr>
          else s)"

definition udt_on_resend :: "(f32 \<Rightarrow> f32 \<Rightarrow> f32) \<Rightarrow> u64 \<Rightarrow> udt_state \<Rightarrow> udt_state" where
  "udt_on_resend powf now s = udt_on_loss powf s"

definition udt_on_recv_nak :: "(f32 \<Rightarrow> f32 \<Rightarrow> f32) \<Rightarrow> udt_state \<Rightarrow> udt_state" where
  "udt_on_recv_nak powf s = udt_on_loss powf s"

definition update_window_size_slow_start :: "usize \<Rightarrow> udt_state \<Rightarrow> udt_state option" where
  "update_window_size_slow_start total_bytes_acked s =
     do {
       window \<leftarrow> size_div total_bytes_acked (udt_mtu s);
       if window < MIN_CWND then Some (s\<lparr>udt_cwnd := MIN_CWND\<rparr>)
       else if window > MAX_CWND then
         (if arrival_rate s \<noteq> None then end_slow_start (s\<lparr>udt_cwnd := MAX_CWND\<rparr>)
          else Some (s\<lparr>udt_cwnd := MAX_CWND\<rparr>))
       else Some (s\<lparr>udt_cwnd := window\<rparr>)
     }"

text \<open>The sums over the pings of an interval, from the previous ping on.\<close>

fun ping_sums :: "u64 \<Rightarrow> u64 list \<Rightarrow> u64 \<Rightarrow> u64 \<Rightarrow> (u64 \<times> u64) option" where
  "ping_sums previous [] slope_sum average = Some (slope_sum, average)"
| "ping_sums previous (p # ps) slope_sum average =
     do {
       slope \<leftarrow> usub p previous;
       slope_sum \<leftarrow> uadd slope_sum slope;
       average \<leftarrow> uadd average p;
       ping_sums p ps slope_sum average
     }"

definition update_window_size_syn ::
  "(f32 \<Rightarrow> f32 \<Rightarrow> f32) \<Rightarrow> u64 \<Rightarrow> u32 \<Rightarrow> bool \<Rightarrow> udt_state \<Rightarrow> udt_state option" where
  "update_window_size_syn powf rtt seq is_continuous_send s =
     (if \<not> is_continuous_send then
        Some (s\<lparr>udt_next_block := udt_next_seq s, pings_last_interval := []\<rparr>)
      else
        let pings = pings_last_interval s @ [rtt];
            pings = (if length pings > INTERVAL_SIZE then tl pings else pings);
            s = s\<lparr>pings_last_interval := pings\<rparr>
        in
          if seq > udt_next_block s \<and> unat (seq - udt_next_block s) \<ge> INTERVAL_SIZE
             \<and> length pings = INTERVAL_SIZE then
            do {
              (slope_sum, sum) \<leftarrow> ping_sums (hd pings) (tl pings) 0 (hd pings);
              let average = sum div word_of_nat (length pings);
              let s = (if slope_sum > average div 10 then increase_time_between_sends powf s
                else decrease_time_between_sends powf (s\<lparr>last_rtt_on_increase_send_rate := rtt\<rparr>));
              Some (s\<lparr>pings_last_interval := [], had_packet_loss_this_block := False,
                      udt_next_block := seq\<rparr>)
            }
          else Some s)"

definition udt_on_recv_ack ::
  "(f32 \<Rightarrow> f32 \<Rightarrow> f32) \<Rightarrow> u64 \<Rightarrow> u64 \<Rightarrow> f32_bits option \<Rightarrow> usize \<Rightarrow> u32 \<Rightarrow> bool \<Rightarrow> udt_state \<Rightarrow>
     udt_state option" where
  "udt_on_recv_ack powf now rtt rate total_bytes_acked seq is_continuous_send s =
     (let s = (case rate of Some r \<Rightarrow> s\<lparr>arrival_rate := Some (from_bits r)\<rparr> | None \<Rightarrow> s);
          s = (if udt_oldest_unsent_ack s = 0 then s\<lparr>udt_oldest_unsent_ack := now\<rparr> else s)
      in
        if slow_start s then
          update_window_size_slow_start total_bytes_acked
            (s\<lparr>udt_next_block := seq, last_rtt_on_increase_send_rate := rtt\<rparr>)
        else update_window_size_syn powf rtt seq is_continuous_send s)"

definition udt_on_recv_packet :: "u64 \<Rightarrow> usize \<Rightarrow> bool \<Rightarrow> udt_state \<Rightarrow> udt_state" where
  "udt_on_recv_packet now sz is_continuous_send s =
     (if now > last_packet_arrival_time s then
        let interval = now - last_packet_arrival_time s;
            i = packet_arrival_history_index s;
            s = (if is_continuous_send then
                   s\<lparr>packet_arrival_history := (packet_arrival_history s)
                       [i mod PACKET_ARRIVAL_HISTORY_SIZE :=
                         f32_div (f32_of_nat sz) (f32_of_nat (unat interval))],
                     packet_arrival_history_index := i + 1\<rparr>
                 else s)
        in s\<lparr>last_packet_arrival_time := now\<rparr>
      else s)"

definition udt_on_send_ack ::
  "bool \<Rightarrow> f32_bits option \<Rightarrow> udt_state \<Rightarrow> (f32_bits option \<times> udt_state) option" where
  "udt_on_send_ack needs rate s =
     (let s = s\<lparr>udt_oldest_unsent_ack := 0\<rparr> in
      if needs then
        do {
          calculated \<leftarrow> calc_arrival_rate s;
          Some (map_option to_bits calculated, s)
        }
      else Some (rate, s))"

definition udt_on_send_packet :: "usize \<Rightarrow> udt_state \<Rightarrow> udt_state option" where
  "udt_on_send_packet sz s =
     (if slow_start s then Some s
      else do {
        n \<leftarrow> isize (bytes_can_send_this_tick s - int sz);
        Some (s\<lparr>bytes_can_send_this_tick := n\<rparr>)
      })"

definition udt :: "(f32 \<Rightarrow> f32 \<Rightarrow> f32) \<Rightarrow> udt_state congestion_controller" where
  "udt powf =
     \<lparr>cc_new = udt_new,
      should_send_ack = udt_should_send_ack,
      is_in_slow_start = slow_start,
      get_seq_and_increment = udt_get_seq_and_increment,
      get_transmission_bandwidth = udt_get_transmission_bandwidth,
      get_rto = udt_get_rto,
      on_resend = udt_on_resend powf,
      on_recv_ack = udt_on_recv_ack powf,
      on_recv_nak = udt_on_recv_nak powf,
      on_recv_packet = udt_on_recv_packet,
      on_send_ack = udt_on_send_ack,
      on_send_packet = udt_on_send_packet\<rparr>"

lemma udt_simps [simp]:
  "cc_new (udt powf) = udt_new"
  "should_send_ack (udt powf) = udt_should_send_ack"
  "is_in_slow_start (udt powf) = slow_start"
  "get_seq_and_increment (udt powf) = udt_get_seq_and_increment"
  "get_transmission_bandwidth (udt powf) = udt_get_transmission_bandwidth"
  "get_rto (udt powf) = udt_get_rto"
  "on_resend (udt powf) = udt_on_resend powf"
  "on_recv_ack (udt powf) = udt_on_recv_ack powf"
  "on_recv_nak (udt powf) = udt_on_recv_nak powf"
  "on_recv_packet (udt powf) = udt_on_recv_packet"
  "on_send_ack (udt powf) = udt_on_send_ack"
  "on_send_packet (udt powf) = udt_on_send_packet"
  by (simp_all add: udt_def)

section \<open>The selection is a position of the sorted list\<close>

text \<open>The order of the values other than NaN.\<close>

fun f32_key :: "f32 \<Rightarrow> int \<times> rat" where
  "f32_key NaN = (0, 0)"
| "f32_key (Inf s) = (if s then - 1 else 1, 0)"
| "f32_key (Num s m) = (0, signed s m)"

lemma partial_cmp_key:
  assumes "x \<noteq> NaN" and "y \<noteq> NaN"
  shows "partial_cmp x y = Some (if f32_key x < f32_key y then Less
     else if f32_key x = f32_key y then Equal else Greater)"
  using assms by (cases x; cases y) (auto simp: compare_rat_def less_prod_def)

lemma split_around_numbers:
  assumes "NaN \<notin> set es" and "pivot \<noteq> NaN"
  shows "split_around pivot es = Some
     (filter (\<lambda>e. f32_key e < f32_key pivot) es, filter (\<lambda>e. f32_key e = f32_key pivot) es,
      filter (\<lambda>e. f32_key pivot < f32_key e) es)"
  using assms by (induction es) (auto simp: partial_cmp_key)

lemma sort_three_way:
  fixes f :: "'a \<Rightarrow> 'b::linorder"
  shows "sort (map f xs) = sort (map f (filter (\<lambda>x. f x < p) xs))
     @ map f (filter (\<lambda>x. f x = p) xs) @ sort (map f (filter (\<lambda>x. p < f x) xs))"
proof (rule properties_for_sort)
  show "mset (sort (map f (filter (\<lambda>x. f x < p) xs))
      @ map f (filter (\<lambda>x. f x = p) xs) @ sort (map f (filter (\<lambda>x. p < f x) xs))) = mset (map f xs)"
    by (induction xs) auto
  have "sorted (map f (filter (\<lambda>x. f x = p) xs))" by (induction xs) auto
  then show "sorted (sort (map f (filter (\<lambda>x. f x < p) xs))
      @ map f (filter (\<lambda>x. f x = p) xs) @ sort (map f (filter (\<lambda>x. p < f x) xs)))"
    by (auto simp: sorted_append)
qed

lemma nth_sort_three_way:
  fixes f :: "'a \<Rightarrow> 'b::linorder"
  assumes "lows = filter (\<lambda>x. f x < p) xs" and "sames = filter (\<lambda>x. f x = p) xs"
  shows "sort (map f xs) ! k =
     (if k < length lows then sort (map f lows) ! k
      else if k < length lows + length sames then p
      else sort (map f (filter (\<lambda>x. p < f x) xs)) ! (k - length lows - length sames))"
proof -
  have "map f sames ! i = p" if "i < length sames" for i
    using nth_mem [OF that] that by (simp add: assms(2))
  then show ?thesis
    unfolding sort_three_way [of f xs p] assms(1) [symmetric] assms(2) [symmetric]
    by (auto simp: nth_append)
qed

lemma find_kth_element_sorted:
  assumes "NaN \<notin> set list" and "k < length list"
  shows "map_option f32_key (find_kth_element_recursive list k) = Some (sort (map f32_key list) ! k)"
  using assms
proof (induction list k rule: find_kth_element_recursive.induct)
  case (1 list k)
  note numbers = \<open>NaN \<notin> set list\<close>
  let ?pivot = "list ! (length list div 2)"
  let ?lows = "filter (\<lambda>e. f32_key e < f32_key ?pivot) list"
  let ?sames = "filter (\<lambda>e. f32_key e = f32_key ?pivot) list"
  let ?highs = "filter (\<lambda>e. f32_key ?pivot < f32_key e) list"
  show ?case
  proof (cases "length list = 1")
    case True
    with 1 show ?thesis by (auto simp: find_kth_element_recursive.simps length_Suc_conv)
  next
    case False
    have "list \<noteq> []" using 1(4) by auto
    then have "?pivot \<in> set list" by (auto intro!: nth_mem div_less_dividend)
    with 1(3) have "?pivot \<noteq> NaN" by auto
    with 1(3) have parts: "split_around ?pivot list = Some (?lows, ?sames, ?highs)"
      by (rule split_around_numbers)
    have length: "length ?lows + length ?sames + length ?highs = length list"
      using split_around_length [OF parts] .
    note IH = 1(1,2) [OF False \<open>list \<noteq> []\<close> refl parts refl refl]
    have step: "find_kth_element_recursive list k =
        (if k < length ?lows then find_kth_element_recursive ?lows k
         else if k < length ?lows + length ?sames then Some ?pivot
         else find_kth_element_recursive ?highs (k - length ?lows - length ?sames))"
      using False \<open>list \<noteq> []\<close> parts
      by (subst find_kth_element_recursive.simps) (simp only: Let_def if_False option.case prod.case)
    show ?thesis
      unfolding step nth_sort_three_way [OF refl refl, of f32_key list k "f32_key ?pivot"]
      using IH numbers length \<open>k < length list\<close> by (auto simp del: length_greater_0_conv)
  qed
qed

section \<open>The laws of a controller\<close>

lemma cap_min_snd_next_seq [simp]: "udt_next_seq (cap_min_snd s) = udt_next_seq s"
  by (simp add: cap_min_snd_def)

lemma end_slow_start_next_seq: "end_slow_start s = Some s' \<Longrightarrow> udt_next_seq s' = udt_next_seq s"
  by (auto simp: end_slow_start_def split: bind_splits)

lemma time_between_sends_next_seq [simp]:
  "udt_next_seq (increase_time_between_sends powf s) = udt_next_seq s"
  "udt_next_seq (decrease_time_between_sends powf s) = udt_next_seq s"
  by (simp_all add: increase_time_between_sends_def decrease_time_between_sends_def)

lemma udt_on_loss_next_seq [simp]: "udt_next_seq (udt_on_loss powf s) = udt_next_seq s"
  by (auto simp: udt_on_loss_def dest: end_slow_start_next_seq split: option.splits if_splits)

lemma update_window_size_next_seq:
  "update_window_size_slow_start acked s = Some s' \<Longrightarrow> udt_next_seq s' = udt_next_seq s"
  "update_window_size_syn powf rtt seq cont s = Some s' \<Longrightarrow> udt_next_seq s' = udt_next_seq s"
  by (auto simp: update_window_size_slow_start_def update_window_size_syn_def Let_def
      dest: end_slow_start_next_seq split: bind_splits if_splits prod.splits)

interpretation udt: controller_laws "udt powf" "\<lambda>s. unat (udt_next_seq s)"
proof unfold_locales
  fix s s' :: udt_state and q :: u32
  show "get_seq_and_increment (udt powf) s = Some (q, s') \<Longrightarrow>
      unat q = unat (udt_next_seq s) \<and> unat (udt_next_seq s') = Suc (unat (udt_next_seq s))"
    by (auto simp: udt_get_seq_and_increment_def checked_arith split: bind_splits)
  show "Suc (unat (udt_next_seq s)) < 2 ^ 32 \<Longrightarrow> get_seq_and_increment (udt powf) s \<noteq> None"
    by (simp add: udt_get_seq_and_increment_def uadd_def)
qed (auto simp: udt_new_def udt_get_transmission_bandwidth_def Let_def udt_on_resend_def
    udt_on_recv_ack_def udt_on_recv_nak_def udt_on_recv_packet_def udt_on_send_ack_def
    udt_on_send_packet_def dest!: update_window_size_next_seq split: if_splits bind_splits
    option.splits)

section \<open>The invariant\<close>

text \<open>The history has 64 entries, none of them NaN, so the selection of the median returns; the
  window has the bounds of slow start; an interval has at most 33 pings.\<close>

definition udt_inv :: "udt_state \<Rightarrow> bool" where
  "udt_inv s \<longleftrightarrow>
     length (packet_arrival_history s) = PACKET_ARRIVAL_HISTORY_SIZE \<and>
     NaN \<notin> set (packet_arrival_history s) \<and>
     MIN_CWND \<le> udt_cwnd s \<and> udt_cwnd s \<le> MAX_CWND \<and>
     length (pings_last_interval s) \<le> INTERVAL_SIZE"

lemmas udt_sizes = PACKET_ARRIVAL_HISTORY_SIZE_def MIN_CWND_def MAX_CWND_def INTERVAL_SIZE_def

lemma udt_inv_new: "udt_inv (udt_new mtu)"
  by (simp add: udt_inv_def udt_new_def udt_sizes)

lemma udt_inv_snd_interval [simp]:
  "udt_inv (cap_min_snd s) \<longleftrightarrow> udt_inv s"
  "udt_inv (increase_time_between_sends powf s) \<longleftrightarrow> udt_inv s"
  "udt_inv (decrease_time_between_sends powf s) \<longleftrightarrow> udt_inv s"
  by (simp_all add: udt_inv_def cap_min_snd_def increase_time_between_sends_def
      decrease_time_between_sends_def)

lemma udt_inv_end_slow_start: "end_slow_start s = Some s' \<Longrightarrow> udt_inv s' \<longleftrightarrow> udt_inv s"
  by (auto simp: end_slow_start_def udt_inv_def split: bind_splits)
    (simp_all add: cap_min_snd_def split: if_splits)

lemma udt_inv_fields [simp]:
  "udt_inv (s\<lparr>udt_next_seq := q\<rparr>) \<longleftrightarrow> udt_inv s"
  "udt_inv (s\<lparr>arrival_rate := r\<rparr>) \<longleftrightarrow> udt_inv s"
  "udt_inv (s\<lparr>bytes_can_send_this_tick := b\<rparr>) \<longleftrightarrow> udt_inv s"
  "udt_inv (s\<lparr>last_packet_arrival_time := t\<rparr>) \<longleftrightarrow> udt_inv s"
  "udt_inv (s\<lparr>last_rtt_on_increase_send_rate := t\<rparr>) \<longleftrightarrow> udt_inv s"
  "udt_inv (s\<lparr>udt_oldest_unsent_ack := t\<rparr>) \<longleftrightarrow> udt_inv s"
  "udt_inv (s\<lparr>udt_next_block := q\<rparr>) \<longleftrightarrow> udt_inv s"
  "udt_inv (s\<lparr>had_packet_loss_this_block := l\<rparr>) \<longleftrightarrow> udt_inv s"
  by (simp_all add: udt_inv_def)

lemma udt_inv_update:
  "udt_inv s \<Longrightarrow> MIN_CWND \<le> w \<Longrightarrow> w \<le> MAX_CWND \<Longrightarrow> udt_inv (s\<lparr>udt_cwnd := w\<rparr>)"
  "udt_inv s \<Longrightarrow> length ps \<le> INTERVAL_SIZE \<Longrightarrow> udt_inv (s\<lparr>pings_last_interval := ps\<rparr>)"
  by (simp_all add: udt_inv_def)

lemma udt_inv_on_loss: "udt_inv s \<Longrightarrow> udt_inv (udt_on_loss powf s)"
  by (auto simp: udt_on_loss_def udt_inv_end_slow_start split: option.splits if_splits)

lemma udt_inv_slow_start:
  "update_window_size_slow_start acked s = Some s' \<Longrightarrow> udt_inv s \<Longrightarrow> udt_inv s'"
  by (auto simp: update_window_size_slow_start_def udt_inv_update udt_sizes
      dest: udt_inv_end_slow_start split: bind_splits if_splits)

lemma udt_inv_syn:
  "update_window_size_syn powf rtt seq cont s = Some s' \<Longrightarrow> udt_inv s \<Longrightarrow> udt_inv s'"
proof -
  have "length (if length ps > INTERVAL_SIZE then tl ps else ps) \<le> INTERVAL_SIZE"
    if "udt_inv s" "ps = pings_last_interval s @ [rtt]" for ps
    using that by (simp add: udt_inv_def)
  then show "update_window_size_syn powf rtt seq cont s = Some s' \<Longrightarrow> udt_inv s \<Longrightarrow> udt_inv s'"
    by (auto simp: update_window_size_syn_def Let_def udt_inv_update
        split: bind_splits if_splits prod.splits)
qed

lemma udt_inv_recv_packet:
  assumes "udt_inv s"
  shows "udt_inv (udt_on_recv_packet now sz cont s)"
proof (cases "last_packet_arrival_time s < now")
  case True
  let ?interval = "unat (now - last_packet_arrival_time s)"
  have "now - last_packet_arrival_time s \<noteq> 0" using True by auto
  then have "0 < ?interval" by (simp add: unat_gt_0)
  moreover have "?interval < 2 ^ 64" using unsigned_less [of "now - last_packet_arrival_time s"] by simp
  ultimately obtain m where "0 < m" "f32_of_nat ?interval = Num False m"
    using f32_of_nat_finite by blast
  then have "f32_div (f32_of_nat sz) (f32_of_nat ?interval) \<noteq> NaN"
    by (simp add: f32_div_number f32_of_number f32_of_nat_def)
  then show ?thesis
    using assms True
    by (auto simp: udt_on_recv_packet_def udt_inv_def Let_def
        dest!: set_update_subset_insert [THEN subsetD])
qed (simp add: udt_on_recv_packet_def assms)

interpretation udt_inv: controller_invariant "udt powf" udt_inv "\<lambda>mtu. True"
proof unfold_locales
  fix e s s'
  assume inv: "udt_inv s" and step: "cc_step (udt powf) e s = Some s'"
  show "udt_inv s'"
  proof (cases e)
    case (RecvAck now rtt rate acked seq cont)
    then show ?thesis
      using inv step
      by (auto simp: udt_on_recv_ack_def Let_def elim!: udt_inv_slow_start udt_inv_syn
          split: option.splits if_splits)
  qed (use inv step in \<open>auto simp: udt_inv_on_loss udt_on_resend_def udt_on_recv_nak_def
      udt_inv_recv_packet udt_get_transmission_bandwidth_def udt_get_seq_and_increment_def
      udt_on_send_ack_def udt_on_send_packet_def Let_def split: bind_splits if_splits\<close>)
qed (simp add: udt_inv_new)

section \<open>Properties\<close>

text \<open>C36: after any events, the recursive selection of the median returns: no comparison meets NaN
  and no list runs out. Its value is the entry at position 32 of the sorted history of arrival
  rates, and an acknowledgement that needs the rate can be made.\<close>
theorem median_is_sorted_middle:
  assumes "cc_run (udt powf) es (udt_new mtu) = Some s"
  shows "map_option f32_key (find_median_arrival_rate s)
      = Some (sort (map f32_key (packet_arrival_history s)) ! 32) \<and>
     udt_on_send_ack needs rate s \<noteq> None"
proof -
  have inv: "udt_inv s" using udt_inv.reachable_inv [of powf es mtu s] assms by simp
  then have median: "map_option f32_key (find_median_arrival_rate s)
      = Some (sort (map f32_key (packet_arrival_history s)) ! 32)"
    using find_kth_element_sorted [of "packet_arrival_history s" 32]
    by (simp add: udt_inv_def find_median_arrival_rate_def udt_sizes)
  have "find_median_arrival_rate (s\<lparr>udt_oldest_unsent_ack := 0\<rparr>) = find_median_arrival_rate s"
    by (simp add: find_median_arrival_rate_def)
  then have "udt_on_send_ack needs rate s \<noteq> None"
    using median by (auto simp: udt_on_send_ack_def calc_arrival_rate_def Let_def split: prod.splits)
  with median show ?thesis by simp
qed

theorem median_is_sorted_middle_witness:
  "\<exists>s. cc_run (udt (\<lambda>a b. a)) [RecvPacket 7 1400 True, RecvPacket 9 1400 True] (udt_new 1464) = Some s
     \<and> packet_arrival_history_index s = 2 \<and> udt_on_send_ack True None s \<noteq> None"
proof -
  obtain s where s: "cc_run (udt (\<lambda>a b. a)) [RecvPacket 7 1400 True, RecvPacket 9 1400 True]
      (udt_new 1464) = Some s" and "packet_arrival_history_index s = 2"
    by (simp add: udt_on_recv_packet_def udt_new_def)
  with median_is_sorted_middle [OF s] show ?thesis by blast
qed

text \<open>C38: after any events, the window of slow start is between 2 and 512 datagrams, and the
  retransmission timeout, when the sum does not overflow, is between 100 and 10000 ms.\<close>
theorem udt_window_and_rto_bounds:
  assumes "cc_run (udt powf) es (udt_new mtu) = Some s"
  shows "2 \<le> udt_cwnd s \<and> udt_cwnd s \<le> 512 \<and>
     (\<forall>rto. udt_get_rto s = Some rto \<longrightarrow> 100 \<le> rto \<and> rto \<le> 10000)"
proof -
  have "udt_inv s" using udt_inv.reachable_inv [of powf es mtu s] assms by simp
  then show ?thesis
    by (auto simp: udt_inv_def udt_sizes udt_get_rto_def max_def min_def split: bind_splits)
qed

theorem udt_window_and_rto_bounds_witness:
  "\<exists>s. cc_run (udt (\<lambda>a b. a)) [RecvAck 5 40 None 5856 1 True, NextNumber] (udt_new 1464) = Some s
     \<and> 2 \<le> udt_cwnd s \<and> udt_cwnd s \<le> 512"
proof -
  obtain s where
    "cc_run (udt (\<lambda>a b. a)) [RecvAck 5 40 None 5856 1 True, NextNumber] (udt_new 1464) = Some s"
    by (simp add: udt_on_recv_ack_def udt_new_def update_window_size_slow_start_def size_div_def
        udt_get_seq_and_increment_def uadd_def udt_sizes)
  with udt_window_and_rto_bounds [OF this] show ?thesis by simp
qed

text \<open>Outside slow start the granted bandwidth is zero, whatever the allowance has grown to: the
  condition of the last \<open>if\<close> of \<open>get_transmission_bandwidth\<close> is inverted.\<close>

lemma udt_no_bandwidth:
  assumes "\<not> slow_start s" and "0 \<le> sint since"
    and "0 \<le> f32_to_isize (f32_div (f32_literal 1) (snd_interval s))"
    and "udt_get_transmission_bandwidth now since cont s = Some (bandwidth, s')"
  shows "bandwidth = 0" and "\<not> slow_start s'" and "snd_interval s' = snd_interval s"
proof -
  define earned where
    "earned = sint since * f32_to_isize (f32_div (f32_literal 1) (snd_interval s))"
  have "0 \<le> earned" using assms(2,3) by (simp add: earned_def)
  then show "bandwidth = 0" and "\<not> slow_start s'" and "snd_interval s' = snd_interval s"
    using assms unfolding udt_get_transmission_bandwidth_def Let_def isize_def if_distrib [of sint]
    by (auto simp flip: earned_def split: if_splits bind_splits)
qed

lemma ping_sums_decreasing:
  "Suc i < length (p # ps) \<Longrightarrow> (p # ps) ! Suc i < (p # ps) ! i \<Longrightarrow> ping_sums p ps slope average = None"
proof (induction ps arbitrary: p i slope average)
  case (Cons q ps)
  show ?case
  proof (cases i)
    case 0
    with Cons.prems show ?thesis by (auto simp: usub_def)
  next
    case (Suc j)
    with Cons show ?thesis by (auto split: bind_splits)
  qed
qed simp

text \<open>C39: outside slow start, an interval in which one round-trip time is shorter than the one before
  it panics when it ends: the slope is a difference of unsigned numbers.\<close>
theorem decreasing_rtt_panics:
  assumes "\<not> slow_start s" and "pings_last_interval s = pings" and "length pings = 32"
    and "udt_next_block s < seq" and "33 \<le> unat (seq - udt_next_block s)"
    and "i < 32" and "(pings @ [rtt]) ! Suc i < (pings @ [rtt]) ! i"
  shows "udt_on_recv_ack powf now rtt rate acked seq True s = None"
proof -
  obtain p ps where ps: "pings @ [rtt] = p # ps" by (cases pings) auto
  then have "ping_sums p ps 0 p = None"
    using assms(3,6,7) by (intro ping_sums_decreasing [of i]) (simp_all flip: ps)
  then show ?thesis
    using assms ps
    by (auto simp: udt_on_recv_ack_def update_window_size_syn_def Let_def udt_sizes
        split: option.splits)
qed

theorem decreasing_rtt_panics_witness:
  "udt_on_recv_ack (\<lambda>a b. a) 900 39 None 0 40 True
     ((udt_new 1464)\<lparr>slow_start := False, pings_last_interval := replicate 32 40\<rparr>) = None"
  using decreasing_rtt_panics
    [of "(udt_new 1464)\<lparr>slow_start := False, pings_last_interval := replicate 32 40\<rparr>"
      "replicate 32 40" 40 31 39]
  by (simp add: udt_new_def nth_append)

lemma from_bits_infinity: "from_bits 0x7F800000 = Inf False"
  by code_simp

lemma infinite_reciprocal:
  "f32_div (f32_literal 1) (Inf False) = Num False 0"
  "f32_to_isize (f32_div (f32_literal 1) (Num False 0)) = 2 ^ 63 - 1"
  by code_simp+

lemma slow_start_goes_on:
  assumes "slow_start s" and "0 < udt_mtu s" and "acked div udt_mtu s \<le> 512"
  shows "\<exists>s'. update_window_size_slow_start acked s = Some s' \<and> slow_start s' \<and>
     arrival_rate s' = arrival_rate s"
  using assms by (simp add: update_window_size_slow_start_def size_div_def udt_sizes)

text \<open>C40: the arrival rate in an acknowledgement is used as it comes from the network. When a peer
  sends the pattern of infinity during slow start and then a negative acknowledgement, the send
  interval is zero, and the next update at least two milliseconds later overflows and panics.\<close>
theorem infinite_rate_panics:
  assumes "slow_start s" and "0 < udt_mtu s" and "acked div udt_mtu s \<le> 512" and "2 \<le> sint since"
  shows "\<exists>s'. udt_on_recv_ack powf now rtt (Some 0x7F800000) acked seq cont s = Some s' \<and>
     udt_get_transmission_bandwidth now' since cont' (udt_on_recv_nak powf s') = None"
proof -
  obtain s' where ack: "udt_on_recv_ack powf now rtt (Some 0x7F800000) acked seq cont s = Some s'"
    and s': "slow_start s'" "arrival_rate s' = Some (Inf False)"
  proof (cases "udt_oldest_unsent_ack s = 0")
    case True
    then show ?thesis
      using that assms(1) slow_start_goes_on [of "s\<lparr>arrival_rate := Some (Inf False),
          udt_oldest_unsent_ack := now, udt_next_block := seq,
          last_rtt_on_increase_send_rate := rtt\<rparr>" acked] assms(2,3)
      by (auto simp: udt_on_recv_ack_def from_bits_infinity)
  next
    case False
    then show ?thesis
      using that assms(1) slow_start_goes_on [of "s\<lparr>arrival_rate := Some (Inf False),
          udt_next_block := seq, last_rtt_on_increase_send_rate := rtt\<rparr>" acked] assms(2,3)
      by (auto simp: udt_on_recv_ack_def from_bits_infinity)
  qed
  have "partial_cmp (Num False 0) (f32_literal 500) \<noteq> Some Greater" by code_simp
  then have nak: "udt_on_recv_nak powf s' = s'\<lparr>slow_start := False, snd_interval := Num False 0\<rparr>"
    using s' by (simp add: udt_on_recv_nak_def udt_on_loss_def end_slow_start_def cap_min_snd_def
        infinite_reciprocal)
  have "2 \<le> sint (if \<not> cont' \<and> since > 100 then 100 else since)" using assms(4) by simp
  then have "isize (sint (if \<not> cont' \<and> since > 100 then 100 else since) * (2 ^ 63 - 1)) = None"
    by (simp add: isize_def)
  then have "udt_get_transmission_bandwidth now' since cont' (udt_on_recv_nak powf s') = None"
    by (simp add: nak udt_get_transmission_bandwidth_def infinite_reciprocal Let_def)
  with ack show ?thesis by blast
qed

theorem infinite_rate_panics_witness:
  "\<exists>s'. udt_on_recv_ack (\<lambda>a b. a) 90 40 (Some 0x7F800000) 0 1 True (udt_new 1464) = Some s' \<and>
     udt_get_transmission_bandwidth 120 30 True (udt_on_recv_nak (\<lambda>a b. a) s') = None"
  by (rule infinite_rate_panics) (simp_all add: udt_new_def)

end
