(* ===== verification/Udt_Layer.thy ===== *)
theory Udt_Layer
  imports Udt Layer_Transmit
begin

text \<open>
  The reliability layer with the controller of the feature \<open>udt\<close>. Once slow start is over, no
  update puts a fragment on the wire any more.
\<close>

lemma pack_packets_no_bandwidth:
  assumes "pack_packets cc now since cont l = Some (ps, l')"
    and "get_transmission_bandwidth cc now since cont (controller l) = Some (0, c)"
  shows "ps = [] \<and> outgoing_queue l' = outgoing_queue l \<and> controller l' = c"
proof -
  have "pack_retransmit cc now 0 m fs empty_packing c = (fs, empty_packing, c)" for m fs
    by (cases fs) (simp_all add: empty_packing_def)
  moreover have "pack_outgoing 0 m q i empty_packing = Some (q, i, empty_packing)" for m q i
    by (subst pack_outgoing.simps) (simp add: empty_packing_def)
  ultimately show ?thesis
    using assms by (auto simp: pack_packets_def split: bind_splits)
      (simp_all add: empty_packing_def)
qed

text \<open>C37: with the controller \<open>udt\<close> outside slow start, \<open>update\<close> packs nothing: the socket is not
  touched, the queue stays as it is, and the controller is still outside slow start with the same
  send interval, so the next update finds the same condition.\<close>
theorem udt_sends_nothing:
  assumes "\<not> slow_start (controller l)" and "0 \<le> sint since"
    and "0 \<le> f32_to_isize (f32_div (f32_literal 1) (snd_interval (controller l)))"
    and "send_queued w send_to (udt powf) now since addr (l, net) = Some (r, (l', net'))"
  shows "r = Inr () \<and> net' = net \<and> outgoing_queue l' = outgoing_queue l \<and>
     \<not> slow_start (controller l') \<and> snd_interval (controller l') = snd_interval (controller l)"
proof (cases "\<not> cache_is_empty (retransmit_cache l) \<or> outgoing_queue l \<noteq> []")
  case True
  let ?l = "l\<lparr>bandwidth_exceeded := outgoing_queue l \<noteq> []\<rparr>"
  obtain ps l1 where pack: "pack_packets (udt powf) now since (bandwidth_exceeded l) ?l = Some (ps, l1)"
    and rest: "and_then (send_packets w send_to (udt powf) now addr (slow_start (controller l)) ps
        (l1, net)) (\<lambda>_ (l, net). Some (Inr (), (l\<lparr>bandwidth_exceeded := outgoing_queue l \<noteq> []\<rparr>, net)))
      = Some (r, (l', net'))"
    using assms(4) True by (auto simp: send_queued_def Let_def split: bind_splits)
  then obtain b c where band:
    "udt_get_transmission_bandwidth now since (bandwidth_exceeded l) (controller l) = Some (b, c)"
    by (auto simp: pack_packets_def split: bind_splits)
  note none = udt_no_bandwidth [OF assms(1-3) band]
  have "ps = [] \<and> outgoing_queue l1 = outgoing_queue l \<and> controller l1 = c"
    using pack_packets_no_bandwidth [OF pack] band none(1) by simp
  then show ?thesis using rest none(2,3) by auto
qed (use assms in \<open>auto simp: send_queued_def Let_def\<close>)

text \<open>A layer with one message queued, whose controller has left slow start at one millisecond for
  a byte.\<close>

definition udt_layer :: "udt_state layer" where
  "udt_layer = (the (layer_new (udt (\<lambda>a b. a)) 0 1492))
     \<lparr>controller := (udt_new 1464)\<lparr>slow_start := False, snd_interval := Num False 1\<rparr>,
      outgoing_queue := [\<lparr>weight = 3, send_priority = High,
        outgoing = new_fragment Reliable 0 [1, 2, 3] sample_layer\<rparr>]\<rparr>"

lemma one_byte_a_millisecond: "f32_to_isize (f32_div (f32_literal 1) (Num False 1)) = 1"
  by code_simp

lemma udt_layer_controller:
  "controller udt_layer = (udt_new 1464)\<lparr>slow_start := False, snd_interval := Num False 1\<rparr>"
  by (simp add: udt_layer_def)

lemma udt_layer_returns:
  "\<exists>r l' net'. send_queued network_wire recording (udt (\<lambda>a b. a)) 50 10 addr (udt_layer, [])
     = Some (r, (l', net'))"
proof -
  have empty: "cache_is_empty cache_new"
    by (simp add: cache_is_empty_def cache_new_def cache_index_def PACKET_HISTORY_SIZE_def)
  show ?thesis
    using cache_is_empty_retransmit [OF empty]
    by (simp add: send_queued_def pack_packets_def udt_layer_def layer_new_def size_sub_def
        HEADER_SIZE_def PACKET_HEADER_SIZE_def IP_UDP_HEADER_SIZE_def Let_def udt_new_def
        udt_get_transmission_bandwidth_def one_byte_a_millisecond isize_def udt_get_rto_def
        uadd_def pack_outgoing.simps empty_packing_def)
qed

theorem udt_sends_nothing_witness:
  "\<exists>l'. send_queued network_wire recording (udt (\<lambda>a b. a)) 50 10 (V4 [127, 0, 0, 1] 9) (udt_layer, [])
     = Some (Inr (), (l', [])) \<and> outgoing_queue l' = outgoing_queue udt_layer"
proof -
  obtain r l' net' where
    "send_queued network_wire recording (udt (\<lambda>a b. a)) 50 10 (V4 [127, 0, 0, 1] 9) (udt_layer, [])
      = Some (r, (l', net'))" using udt_layer_returns by blast
  moreover from udt_sends_nothing [OF _ _ _ this]
  have "r = Inr () \<and> net' = [] \<and> outgoing_queue l' = outgoing_queue udt_layer"
    by (simp add: udt_layer_controller one_byte_a_millisecond)
  ultimately show ?thesis by blast
qed

end
