(* ===== verification/Delivery.thy ===== *)
theory Delivery
  imports Layer_Transmit Layer_Order
begin

text \<open>
  Both ends of a connection together: a message that one layer sends, over a network that loses
  and reorders nothing, is put out by the layer at the other end. The receiving half shows that
  consecutive packets amount to the concatenation of their fragments (\<open>with_core\<close>: handling a
  fragment neither reads nor writes the rest of the layer); the sending half that \<open>send\<close> and
  \<open>update\<close> put the pieces of the message, consecutively numbered, into consecutive packets.
\<close>

section \<open>What the handling of fragments depends on\<close>

text \<open>The layer \<open>x\<close> with those fields of \<open>l\<close> that the handling of fragments reads and writes.\<close>

definition with_core :: "'c layer \<Rightarrow> 'c layer \<Rightarrow> 'c layer" where
  "with_core x l =
     x\<lparr>output_queue := output_queue l, reliable_window := reliable_window l,
       split_fragments := split_fragments l, ordered_fragments := ordered_fragments l,
       recv_sequence_index := recv_sequence_index l, recv_ordering_index := recv_ordering_index l\<rparr>"

lemma with_core_simps [simp]:
  "reliable_window (with_core x l) = reliable_window l"
  "split_fragments (with_core x l) = split_fragments l"
  "ordered_fragments (with_core x l) = ordered_fragments l"
  "output_queue (with_core x l) = output_queue l"
  "recv_ordering_index (with_core x l) = recv_ordering_index l"
  "recv_sequence_index (with_core x l) = recv_sequence_index l"
  "seq_window (with_core x l) = seq_window x" "acks (with_core x l) = acks x"
  "naks (with_core x l) = naks x" "outgoing_queue (with_core x l) = outgoing_queue x"
  "retransmit_cache (with_core x l) = retransmit_cache x" "last_update (with_core x l) = last_update x"
  "controller (with_core x l) = controller x"
  "with_core x (with_core y l) = with_core x l" "with_core (with_core x l) m = with_core x m"
  "with_core l l = l"
  by (simp_all add: with_core_def)

lemma build_split_fragment_core:
  "build_split_fragment f (with_core x l) =
     map_option (map_prod id (with_core x)) (build_split_fragment f l)"
  by (auto simp: build_split_fragment_def with_core_def Let_def split: bind_split option.split)

lemma handle_ordered_core:
  "handle_ordered oi f (with_core x l) = map_option (with_core x) (handle_ordered oi f l)"
  by (auto simp: handle_ordered_def with_core_def Let_def split: bind_split option.split)

lemma deliver_core: "deliver f (with_core x l) = map_option (with_core x) (deliver f l)"
  by (auto simp: deliver_def handle_ordered_core split: option.split) (simp add: with_core_def)

lemma handle_unique_fragment_core:
  "handle_unique_fragment f (with_core x l) = map_option (with_core x) (handle_unique_fragment f l)"
  by (auto simp: handle_unique_fragment_def build_split_fragment_core deliver_core
      split: bind_split option.split)

lemma handle_fragment_core:
  "handle_fragment f (with_core x l) = map_option (map_prod id (with_core x)) (handle_fragment f l)"
proof -
  have "with_core x l\<lparr>reliable_window := w\<rparr> = with_core x (l\<lparr>reliable_window := w\<rparr>)" for w
    by (simp add: with_core_def)
  then show ?thesis
    by (auto simp: handle_fragment_def handle_unique_fragment_core
        split: bind_split option.split prod.split sum.split bool.split)
qed

lemma handle_fragments_core:
  "handle_fragments fs (with_core x l) = map_option (map_prod id (with_core x)) (handle_fragments fs l)"
proof (induction fs arbitrary: l)
  case (Cons f fs)
  show ?case
  proof (cases "handle_fragment f l")
    case (Some r)
    then show ?thesis
      by (cases r; cases "fst r") (simp_all add: handle_fragment_core Cons.IH)
  qed (simp add: handle_fragment_core)
qed simp

lemma handle_fragments_append:
  "handle_fragments (fs @ gs) l = and_then (handle_fragments fs l) (\<lambda>_. handle_fragments gs)"
proof (induction fs arbitrary: l)
  case (Cons f fs)
  show ?case
  proof (cases "handle_fragment f l")
    case (Some r)
    then show ?thesis by (cases r; cases "fst r") (simp_all add: Cons.IH)
  qed simp
qed simp

section \<open>Consecutive packets\<close>

lemma settled_prefix_start:
  assumes "settled k w" "seen k w = {..<n}"
  shows "unat (start_index w) = n"
proof -
  have "(LEAST i. i \<notin> {..<n}) = n" by (rule Least_equality) auto
  then show ?thesis using settled_start [OF assms(1)] assms(2) by simp
qed

text \<open>What receiving packets in order leaves alone, besides the core.\<close>

definition undisturbed :: "'c layer \<Rightarrow> 'c layer \<Rightarrow> bool" where
  "undisturbed l l' \<longleftrightarrow>
     naks l' = naks l \<and> outgoing_queue l' = outgoing_queue l \<and>
     retransmit_cache l' = retransmit_cache l \<and> last_update l' = last_update l"

lemma undisturbed_simps [simp]:
  "undisturbed l l" "undisturbed (with_core x m) l' \<longleftrightarrow> undisturbed x l'"
  "undisturbed (l\<lparr>time_last_datagram_recved := now\<rparr>) l' \<longleftrightarrow> undisturbed l l'"
  by (simp_all add: undisturbed_def)

lemma undisturbed_trans: "undisturbed l m \<Longrightarrow> undisturbed m n \<Longrightarrow> undisturbed l n"
  by (simp add: undisturbed_def)

lemma consecutive_packet:
  assumes w: "settled SEQ_WINDOW_SIZE (seq_window l)" "seen SEQ_WINDOW_SIZE (seq_window l) = {..<n}"
    and seq: "unat seq = n" and small: "n + SEQ_WINDOW_SIZE < 2 ^ 32"
  shows "\<exists>x. handle_packet cc now sz co ne seq fs l = handle_fragments fs (with_core x l) \<and>
     settled SEQ_WINDOW_SIZE (seq_window x) \<and> seen SEQ_WINDOW_SIZE (seq_window x) = {..<Suc n} \<and>
     acks x = acks l @ [seq] \<and> undisturbed l x \<and>
     controller x = on_recv_packet cc now sz co (controller l)"
proof -
  let ?w = "seq_window l" and ?n = SEQ_WINDOW_SIZE
  have start: "unat (start_index ?w) = n" using settled_prefix_start [OF w] .
  have eq: "start_index ?w = seq" using start seq by (simp add: word_unat_eq_iff)
  have pos: "0 < ?n" by (simp add: SEQ_WINDOW_SIZE_def)
  have inv: "window_inv ?n ?w" "window_map ?n ?w (unat seq) = None"
    using w(1) eq by (simp_all add: settled_def)
  obtain w1 f where w1: "window_insert ?n seq now ?w = (Inr True, w1)" "start_index w1 = seq"
    "window_inv ?n w1" "furthest_index w1 = Some f" "seq \<le> f"
    using window_insert_spec [OF inv(1), of seq now] inv(2) eq pos by auto
  obtain c v where v: "window_shift ?n w1 = Some (c, v)" "unat (start_index v) = n + c"
    using window_shift_spec [OF w1(3,4)] w1(2,5) small seq by auto
  obtain v' where v': "insert_and_shift ?n seq now ?w = Some (Inr (unat seq \<notin> seen ?n ?w), v')"
    "settled ?n v'" "seen ?n v' = insert (unat seq) (seen ?n ?w)"
    using insert_and_shift_spec [OF w(1), of seq now] start small seq eq pos by auto
  have "v' = v" using v'(1) w1(1) v(1) by (simp add: insert_and_shift_def)
  then have set: "settled ?n v" "seen ?n v = {..<Suc n}"
    using v'(2,3) w(2) seq by (simp_all add: lessThan_Suc)
  then have "c \<noteq> 0" using settled_prefix_start [OF set] v(2) by simp
  then show ?thesis
    using w1(1) v(1) set by (intro exI [of _ "l\<lparr>seq_window := v,
        controller := on_recv_packet cc now sz co (controller l), needs_arrival_rate := ne,
        acks := acks l @ [seq]\<rparr>"]) (simp add: handle_packet_def with_core_def undisturbed_def)
qed

text \<open>A receiver that takes a list of datagrams.\<close>

fun receive_all ::
  "wire \<Rightarrow> 'c congestion_controller \<Rightarrow> u64 \<Rightarrow> bytes list \<Rightarrow> 'c layer \<Rightarrow>
     ('c layer, layer_error, unit) step" where
  "receive_all w cc now [] l = Some (Inr (), l)"
| "receive_all w cc now (d # ds) l =
     and_then (handle_datagram w cc now d l) (\<lambda>_. receive_all w cc now ds)"

lemma receive_all_packets:
  assumes "wire_format w" and "encodes w needs n ps ds"
    and "settled SEQ_WINDOW_SIZE (seq_window l)" "seen SEQ_WINDOW_SIZE (seq_window l) = {..<n}"
    and "n + length ps < 2 ^ 24" and "\<forall>f \<in> set (concat (map snd ps)). wire_fragment f"
    and "handle_fragments (concat (map snd ps)) l = Some (Inr (), l')"
    and ctrl: "\<And>sz co c. P c \<Longrightarrow> P (on_recv_packet cc now sz co c)" and "P (controller l)"
  shows "\<exists>x seqs. receive_all w cc now ds l = Some (Inr (), with_core x l') \<and>
     settled SEQ_WINDOW_SIZE (seq_window x) \<and>
     seen SEQ_WINDOW_SIZE (seq_window x) = {..<n + length ps} \<and>
     acks x = acks l @ seqs \<and> map unat seqs = [n..<n + length ps] \<and>
     undisturbed l x \<and> P (controller x)"
  using assms(2-7,9)
proof (induction ps arbitrary: n ds l l')
  case Nil
  then show ?case by (intro exI [of _ l] exI [of _ "[]"]) simp
next
  case (Cons p ps)
  obtain sz fs where p: "p = (sz, fs)" by force
  obtain seq d rest where d: "ds = d # rest" "unat seq = n"
    "put_datagram w (Packet False True needs seq fs) = Some d" "encodes w needs (Suc n) ps rest"
    using Cons.prems(1) by (auto simp: p)
  let ?l = "l\<lparr>time_last_datagram_recved := now\<rparr>"
  have "wire_datagram (Packet False True needs seq fs)"
    using Cons.prems(4,5) d(2) by (simp add: p fits_u24_def)
  from wire_format.try_get_datagram_put_Packet [OF assms(1) this]
  have parse: "try_get_datagram w d = Inr (Packet False True needs seq fs, [])"
    using d(3) by (simp add: put_datagram_Packet del: put_datagram.simps)
  obtain m where m: "handle_fragments fs l = Some (Inr (), m)"
    "handle_fragments (concat (map snd ps)) m = Some (Inr (), l')"
    using Cons.prems(6) by (auto simp: p handle_fragments_append and_then_Inr_iff)
  obtain x where x: "handle_packet cc now (length d) True needs seq fs ?l
      = handle_fragments fs (with_core x ?l)"
    "settled SEQ_WINDOW_SIZE (seq_window x)" "seen SEQ_WINDOW_SIZE (seq_window x) = {..<Suc n}"
    "acks x = acks l @ [seq]" "undisturbed l x" "P (controller x)"
    using consecutive_packet [of ?l n seq cc now "length d" True needs fs] Cons.prems(2-4,7) d(2) ctrl
    by (auto simp: SEQ_WINDOW_SIZE_def)
  have "with_core x ?l = with_core x l" by (simp add: with_core_def)
  then have "handle_datagram w cc now d l = Some (Inr (), with_core x m)"
    using parse x(1) m(1) by (simp add: handle_datagram_def handle_fragments_core)
  moreover have "handle_fragments (concat (map snd ps)) (with_core x m) = Some (Inr (), with_core x l')"
    by (simp add: handle_fragments_core m(2))
  then obtain y seqs where
    "receive_all w cc now rest (with_core x m) = Some (Inr (), with_core y (with_core x l'))"
    "settled SEQ_WINDOW_SIZE (seq_window y)" "seen SEQ_WINDOW_SIZE (seq_window y) = {..<Suc n + length ps}"
    "acks y = (acks l @ [seq]) @ seqs" "map unat seqs = [Suc n..<Suc n + length ps]"
    "undisturbed x y" "P (controller y)"
    using Cons.IH [of "Suc n" rest "with_core x m" "with_core x l'"] d(4) x(2-6) Cons.prems(4,5)
    by auto
  moreover have "[n..<n + length (p # ps)] = n # [Suc n..<Suc n + length ps]"
    by (simp add: upt_conv_Cons del: upt_Suc)
  ultimately show ?case
    using d(2) undisturbed_trans [OF x(5)]
    by (intro exI [of _ y] exI [of _ "seq # seqs"]) (simp add: d(1) del: upt_Suc)
qed

section \<open>The message at the receiver\<close>

text \<open>Messages that the receiver does not hold back: of an unordered class, or the next of their
  ordering channel.\<close>

definition deliverable :: "fragment \<Rightarrow> 'c layer \<Rightarrow> bool" where
  "deliverable f l \<longleftrightarrow> sequence_index f = None \<and>
     (case ordering_info f of
        None \<Rightarrow> True
      | Some oi \<Rightarrow>
          channels_ok l \<and> unat (channel oi) < ORDERING_CHANNEL_SIZE \<and>
          ordering_index oi = recv_ordering_index l ! unat (channel oi) \<and>
          unat (ordering_index oi) + 1 < 2 ^ 32 \<and> ordered_fragments l ! unat (channel oi) = [])"

definition delivered :: "fragment \<Rightarrow> 'c layer \<Rightarrow> 'c layer" where
  "delivered f l =
     (case ordering_info f of
        None \<Rightarrow> l
      | Some oi \<Rightarrow>
          let ch = unat (channel oi) in
          l\<lparr>recv_ordering_index := (recv_ordering_index l)[ch := recv_ordering_index l ! ch + 1],
            recv_sequence_index := (recv_sequence_index l)[ch := 0],
            ordered_fragments := (ordered_fragments l)[ch := []]\<rparr>)
     \<lparr>output_queue := output_queue l @ [data f]\<rparr>"

lemma delivered_simps [simp]:
  "output_queue (delivered f l) = output_queue l @ [data f]"
  "split_fragments (delivered f l) = split_fragments l" "acks (delivered f l) = acks l"
  "reliable_window (delivered f l) = reliable_window l"
  by (simp_all add: delivered_def Let_def split: option.split)

lemma deliver_deliverable:
  assumes "deliverable f l"
  shows "deliver f l = Some (delivered f l)"
proof (cases "ordering_info f")
  case None
  then show ?thesis by (simp add: deliver_def delivered_def)
next
  case (Some oi)
  let ?ch = "channel oi"
  have on: "ordered_on ?ch (recv_ordering_index l ! unat ?ch) f"
    using assms Some by (cases oi) (simp add: deliverable_def ordered_on_def)
  have d: "unat ?ch < ORDERING_CHANNEL_SIZE" "channels_ok l" "ordered_fragments l ! unat ?ch = []"
    "unat (recv_ordering_index l ! unat ?ch) + 1 < 2 ^ 32"
    using assms Some by (auto simp: deliverable_def)
  have "uadd (recv_ordering_index l ! unat ?ch) 1 = Some (recv_ordering_index l ! unat ?ch + 1)"
    using d(4) by (simp add: uadd_def)
  from deliver_current [OF on d(1,2) this] show ?thesis
    using d(3) Some by (simp add: delivered_def Let_def)
qed

lemma deliverable_fields:
  assumes "ordering_info g = ordering_info f" "sequence_index g = sequence_index f" "data g = data f"
  shows "deliverable g l = deliverable f l" "delivered g l = delivered f l"
  using assms by (simp_all add: deliverable_def delivered_def)

lemma pieces_handled:
  assumes fresh: "fresh_pieces max_size id' f limit fs l" and deliv: "deliverable f l"
    and f: "split_info f = None" "calc_header_size f + SPLIT_INFO_SIZE < max_size"
    and count: "piece_count max_size f < 2 ^ 32"
  shows "\<exists>w. handle_fragments fs l = Some (Inr (), set_window w (delivered f l)) \<and>
     room_for 512 limit w \<and>
     seen 512 w = seen 512 (reliable_window l) \<union> (\<lambda>f. unat (the (reliable_index f))) ` set fs"
proof -
  have pieces: "mset (map unnumbered fs) = mset (message_pieces max_size id' f)"
    using fresh by (simp add: fresh_pieces_def)
  have like: "ordering_info g = ordering_info f \<and> sequence_index g = sequence_index f"
    if "g \<in> set fs" for g
  proof -
    have "unnumbered g \<in> set (message_pieces max_size id' f)"
      using that pieces by (metis image_eqI list.set_map mset_eq_setD)
    then have "ordering_info (unnumbered g) = ordering_info f \<and> sequence_index (unnumbered g) = sequence_index f"
      by (auto simp: message_pieces_def piece_def split: if_splits)
    then show ?thesis by (simp add: unnumbered_def)
  qed
  obtain g where g: "handle_unique_fragments fs l = deliver g l"
    "ordering_info g = ordering_info f" "sequence_index g = sequence_index f" "data g = data f"
  proof (cases "calc_full_size f > max_size")
    case True
    have "fs \<noteq> []" using pieces True by (auto simp: message_pieces_def piece_count_def)
    then have "last fs \<in> set fs" by simp
    moreover have "handle_unique_fragments fs l = deliver ((last fs)\<lparr>data := data f\<rparr>) l"
      using handle_pieces [OF pieces True f(2) count, of l] fresh by (simp add: fresh_pieces_def)
    ultimately show ?thesis using that [of "(last fs)\<lparr>data := data f\<rparr>"] like by simp
  next
    case False
    then have "mset (map unnumbered fs) = {#f#}" using pieces by (simp add: message_pieces_def)
    then obtain g where g: "fs = [g]" "unnumbered g = f"
      by (metis (no_types, lifting) list.simps(8) list.simps(9) map_eq_Cons_conv map_is_Nil_conv
          mset_single_iff_right)
    have "split_info g = None" "data g = data f" using g f by (auto simp: unnumbered_def)
    then show ?thesis
      using that [of g] like [of g] g(1)
      by (cases "deliver g l") (simp_all add: handle_unique_fragment_def)
  qed
  have "deliver g l = Some (delivered f l)"
    using deliver_deliverable [of g l] deliv
    unfolding deliverable_fields [OF g(2-4)] by blast
  then show ?thesis
    using fresh g(1) by (intro handle_fragments_fresh) (auto simp: fresh_pieces_def)
qed

section \<open>The message at the sender\<close>

definition same_transmission :: "'c layer \<Rightarrow> 'c layer \<Rightarrow> bool" where
  "same_transmission l l' \<longleftrightarrow>
     retransmit_cache l' = retransmit_cache l \<and> controller l' = controller l \<and>
     send_reliable_index l' = send_reliable_index l"

lemma push_outgoing_same: "push_outgoing p f l = Some l' \<Longrightarrow> same_transmission l l'"
  by (auto simp: push_outgoing_def get_next_weight_def init_next_weight_def Let_def
      same_transmission_def split: bind_splits option.splits)

lemma split_loop_same: "split_loop p f sz n i k bs l = Some l' \<Longrightarrow> same_transmission l l'"
proof (induction p f sz n i k bs l rule: split_loop.induct)
  case (2 p f sz n i k bs l)
  then show ?case
    by (auto simp: Let_def same_transmission_def dest!: push_outgoing_same split: bind_splits)
qed (simp add: same_transmission_def)

lemma send_same: "send p r ch bs l = Some l' \<Longrightarrow> same_transmission l l'"
  by (auto simp: send_def label_fragment_def split_fragment_def Let_def same_transmission_def
      dest!: push_outgoing_same split_loop_same split: bind_splits if_splits)

text \<open>A sender with nothing to send and nothing in flight.\<close>

definition idle :: "'c layer \<Rightarrow> bool" where
  "idle l \<longleftrightarrow> layer_inv l \<and> outgoing_queue l = [] \<and> held (retransmit_cache l) = {#}"

lemma packed_message:
  assumes idle: "idle l" and room: "sender_room ch l"
    and send: "send p r ch bs l = Some l1"
    and pack: "pack_packets cc now since cont (l1\<lparr>bandwidth_exceeded := b\<rparr>) = Some (ps, l2)"
    and all: "outgoing_queue l2 = []"
  defines "f \<equiv> new_fragment r ch bs l"
  shows "mset (map unnumbered (concat (map snd ps)))
      = mset (message_pieces (max_size_of_packet l) (send_split_id l) f)"
    and "map unat (reliable_numbers (concat (map snd ps)))
      = [unat (send_reliable_index l)..<unat (send_reliable_index l2)]"
    and "\<forall>g \<in> set (concat (map snd ps)). fields_match g \<and> calc_full_size g \<le> max_size_of_packet l"
proof -
  have inv: "layer_inv l" and none: "queued l = {#}" "held (retransmit_cache l) = {#}"
    using idle by (simp_all add: idle_def queued_def)
  have l1: "sender_inv l1" "max_size_of_packet l1 = max_size_of_packet l"
    "queued l1 = mset (message_pieces (max_size_of_packet l) (send_split_id l) f)"
    using send_spec [of l ch p r bs] inv room send none(1) by (auto simp: layer_inv_def f_def)
  have same: "retransmit_cache l1 = retransmit_cache l" "send_reliable_index l1 = send_reliable_index l"
    using send_same [OF send] by (simp_all add: same_transmission_def)
  have inv1: "layer_inv (l1\<lparr>bandwidth_exceeded := b\<rparr>)"
    using inv l1(1,2) none(2) by (simp add: layer_inv_def sender_inv_def same)
  obtain taken fresh where pk: "concat (map snd ps) = taken @ fresh"
    "held (retransmit_cache l1) = mset taken + held (retransmit_cache l2)"
    "packs_fresh (max_size_of_packet l1) (outgoing_queue l1) (send_reliable_index l1)
       (outgoing_queue l2) (send_reliable_index l2) fresh"
    "\<forall>(sz, fs) \<in> set ps. sz = total_size fs \<and> sz \<le> max_size_of_packet l1"
    using pack_packets_spec [OF inv1 pack] by auto
  have "taken = []" using pk(2) none(2) by (simp add: same)
  then have fresh: "concat (map snd ps) = fresh" using pk(1) by simp
  show "mset (map unnumbered (concat (map snd ps)))
      = mset (message_pieces (max_size_of_packet l) (send_split_id l) f)"
    using pk(3) all l1(3) by (simp add: fresh packs_fresh_def queued_def)
  show "map unat (reliable_numbers (concat (map snd ps)))
      = [unat (send_reliable_index l)..<unat (send_reliable_index l2)]"
    using pk(3) by (simp add: fresh packs_fresh_def same)
  have "calc_full_size g \<le> max_size_of_packet l" if g: "g \<in> set fresh" for g
  proof -
    obtain sz fs where "(sz, fs) \<in> set ps" "g \<in> set fs" using g unfolding fresh [symmetric] by force
    then have "calc_full_size g \<le> total_size fs" "total_size fs \<le> max_size_of_packet l"
      using pk(4) l1(2) by (auto simp: total_size_def member_le_sum_list)
    then show ?thesis by simp
  qed
  then show "\<forall>g \<in> set (concat (map snd ps)). fields_match g \<and> calc_full_size g \<le> max_size_of_packet l"
    using pk(3) by (simp add: fresh packs_fresh_def)
qed

lemma pack_retransmit_number:
  "pack_retransmit sliding_window now b m q pk c = (rest, pk', c') \<Longrightarrow> next_seq c' = next_seq c"
  by (induction q arbitrary: pk c)
    (auto simp: sw_on_resend_def Let_def split: if_splits)

lemma pack_packets_number:
  "pack_packets sliding_window now since cont l = Some (ps, l') \<Longrightarrow>
     next_seq (controller l') = next_seq (controller l)"
  by (auto simp: pack_packets_def sw_get_transmission_bandwidth_def Let_def
      dest: pack_retransmit_number split: bind_splits prod.splits)

lemma message_pieces_nonempty: "message_pieces m i f \<noteq> []"
  by (simp add: message_pieces_def piece_count_def)

lemma piece_count_bound:
  assumes "length (message_pieces m i f) \<le> 512" "m < 2 ^ 13"
  shows "piece_count m f < 2 ^ 32"
proof (cases "calc_full_size f > m")
  case True
  then show ?thesis using assms(1) by (simp add: message_pieces_def)
next
  case False
  have "piece_count m f \<le> length (data f) + 1"
    using div_le_dividend [of "length (data f) - 1" "piece_size m f"]
    unfolding piece_count_def by linarith
  then show ?thesis using False assms(2) by (simp add: calc_full_size_def)
qed

section \<open>The link\<close>

text \<open>The two ends agree on the numbers that have been used.\<close>

definition linked :: "sliding_window_state layer \<Rightarrow> 'c layer \<Rightarrow> bool" where
  "linked ls lr \<longleftrightarrow>
     settled SEQ_WINDOW_SIZE (seq_window lr) \<and>
     seen SEQ_WINDOW_SIZE (seq_window lr) = {..<unat (next_seq (controller ls))} \<and>
     settled 512 (reliable_window lr) \<and>
     seen 512 (reliable_window lr) = {..<unat (send_reliable_index ls)} \<and>
     split_fragments lr (send_split_id ls) = None"

lemma reliable_numbers_all:
  "\<forall>g \<in> set fs. is_reliable (reliability g) \<and> reliable_index g \<noteq> None \<Longrightarrow>
     map Some (reliable_numbers fs) = map reliable_index fs"
  by (induction fs) auto

text \<open>The fragments of the packed message are new to the receiver.\<close>

lemma packed_message_fresh:
  assumes linked: "linked ls lr" and r: "is_reliable (reliability f)"
    and pieces: "mset (map unnumbered fs) = mset (message_pieces m (send_split_id ls) f)"
    and numbers: "map unat (reliable_numbers fs) = [unat (send_reliable_index ls)..<k]"
    and match: "\<forall>g \<in> set fs. fields_match g"
    and count: "length fs \<le> 512" and small: "unat (send_reliable_index ls) + 1024 < 2 ^ 32"
  shows "fresh_pieces m (send_split_id ls) f (unat (send_reliable_index ls) + 512) fs lr"
    and "\<forall>g \<in> set fs. reliability g = reliability f \<and> sequence_index g = sequence_index f \<and>
      ordering_info g = ordering_info f \<and>
      (\<exists>i. reliable_index g = Some i \<and> unat i < unat (send_reliable_index ls) + 512)"
proof -
  let ?n = "unat (send_reliable_index ls)"
  have like: "reliability g = reliability f \<and> sequence_index g = sequence_index f \<and>
      ordering_info g = ordering_info f" if "g \<in> set fs" for g
  proof -
    have "unnumbered g \<in> set (message_pieces m (send_split_id ls) f)"
      using that pieces by (metis image_eqI list.set_map mset_eq_setD)
    then have "reliability (unnumbered g) = reliability f \<and>
        sequence_index (unnumbered g) = sequence_index f \<and> ordering_info (unnumbered g) = ordering_info f"
      by (auto simp: message_pieces_def piece_def split: if_splits)
    then show ?thesis by (simp add: unnumbered_def)
  qed
  have "\<forall>g \<in> set fs. is_reliable (reliability g) \<and> reliable_index g \<noteq> None"
    using like match r by (auto simp: fields_match_def)
  then have eq: "map Some (reliable_numbers fs) = map reliable_index fs" by (rule reliable_numbers_all)
  have len: "length (reliable_numbers fs) = length fs" using arg_cong [OF eq, of length] by simp
  then have k: "k - ?n = length fs" using arg_cong [OF numbers, of length] by simp
  have dist: "distinct (map reliable_index fs)"
    using arg_cong [OF numbers, of distinct] by (simp flip: eq add: distinct_map inj_on_def)
  have index: "\<exists>i. reliable_index g = Some i \<and> ?n \<le> unat i \<and> unat i < ?n + 512" if "g \<in> set fs" for g
  proof -
    have "reliable_index g \<in> set (map Some (reliable_numbers fs))" using that by (simp add: eq)
    then obtain i where i: "reliable_index g = Some i" "i \<in> set (reliable_numbers fs)" by auto
    then have "unat i \<in> set [?n..<k]" by (metis image_eqI list.set_map numbers)
    then show ?thesis using i(1) k count by auto
  qed
  then show "\<forall>g \<in> set fs. reliability g = reliability f \<and> sequence_index g = sequence_index f \<and>
      ordering_info g = ordering_info f \<and>
      (\<exists>i. reliable_index g = Some i \<and> unat i < ?n + 512)"
    using like by blast
  have start: "unat (start_index (reliable_window lr)) = ?n"
    using linked settled_prefix_start [of 512 "reliable_window lr" ?n] by (simp add: linked_def)
  show "fresh_pieces m (send_split_id ls) f (?n + 512) fs lr"
    unfolding fresh_pieces_def room_for_def
    using linked pieces dist index start small by (auto simp: linked_def) (metis not_le)
qed

section \<open>Properties\<close>

text \<open>C1: a message sent at one end of a connection is put out at the other. On an idle sender, with
  a message of a reliable class that is unordered or the next of its channel, \<open>send\<close> followed by
  an \<open>update\<close> that sends all of it puts datagrams on the wire which, received in their order, end
  with exactly the message in the output queue, split or not.\<close>
theorem message_transferred:
  assumes "wire_format w" and "idle ls" and "sender_room ch ls" and "linked ls lr"
    and "is_reliable r" and "\<not> is_sequenced r" and "deliverable (new_fragment r ch bs ls) lr"
    and "send p r ch bs ls = Some l1"
    and "send_queued w recording sliding_window now since addr (l1, []) = Some (Inr (), (l2, net))"
    and "outgoing_queue l2 = []"
    and "length (message_pieces (max_size_of_packet ls) (send_split_id ls) (new_fragment r ch bs ls)) \<le> 512"
    and "max_size_of_packet ls < 2 ^ 13" and "unat (send_reliable_index ls) + 512 \<le> 2 ^ 24"
    and "unat (send_ordering_index ls ! unat ch) < 2 ^ 24" and "unat (next_seq (controller l2)) < 2 ^ 24"
  shows "\<exists>lr'. receive_all w cc later (map fst net) lr = Some (Inr (), lr') \<and>
     output_queue lr' = output_queue lr @ [bs]"
proof -
  let ?m = "max_size_of_packet ls" and ?f = "new_fragment r ch bs ls"
  have l1: "queued l1 = mset (message_pieces ?m (send_split_id ls) ?f)"
    using send_spec [of ls ch p r bs] assms(2,3,8) by (auto simp: idle_def layer_inv_def queued_def)
  have ctrl: "controller l1 = controller ls" using send_same [OF assms(8)] by (simp add: same_transmission_def)
  have "outgoing_queue l1 \<noteq> []"
    using l1 message_pieces_nonempty [of ?m "send_split_id ls" ?f] by (auto simp: queued_def)
  then obtain ps l2' l3 where pack:
    "pack_packets sliding_window now since (bandwidth_exceeded l1) (l1\<lparr>bandwidth_exceeded := True\<rparr>)
      = Some (ps, l2')"
    and sent: "send_packets w recording sliding_window now addr
      (sw_is_in_slow_start (controller l1)) ps (l2', []) = Some (Inr (), (l3, net))"
    and l2: "l2 = l3\<lparr>bandwidth_exceeded := outgoing_queue l3 \<noteq> []\<rparr>"
    using assms(9) by (auto simp: send_queued_def Let_def and_then_Inr_iff split: bind_splits)
  let ?fs = "concat (map snd ps)" and ?n = "unat (next_seq (controller ls))"
  have num: "unat (next_seq (controller l2')) = ?n" using pack_packets_number [OF pack] ctrl by simp
  obtain ds where ds: "encodes w (sw_is_in_slow_start (controller l1)) ?n ps ds"
    "net = map (\<lambda>d. (d, addr)) ds" "unat (next_seq (controller l3)) = ?n + length ps"
    "outgoing_queue l3 = outgoing_queue l2'"
    using sliding.sent_datagrams [OF sent num] by (auto simp: recording_all)
  have all: "outgoing_queue l2' = []" using assms(10) ds(4) l2 by simp
  note packed = packed_message [OF assms(2,3,8) pack all]
  have len: "length ?fs \<le> 512" using assms(11) arg_cong [OF packed(1), of size] by simp
  note fresh = packed_message_fresh [OF assms(4) _ packed(1,2) _ len]
  have fresh: "fresh_pieces ?m (send_split_id ls) ?f (unat (send_reliable_index ls) + 512) ?fs lr"
    "\<forall>g \<in> set ?fs. sequence_index g = sequence_index ?f \<and> ordering_info g = ordering_info ?f \<and>
      (\<exists>i. reliable_index g = Some i \<and> unat i < unat (send_reliable_index ls) + 512)"
    using fresh packed(3) assms(5,13) by auto
  have room: "calc_header_size ?f + SPLIT_INFO_SIZE < ?m"
    using header_new_fragment [of r ch bs ls] assms(3) by (simp add: sender_room_def SPLIT_INFO_SIZE_def)
  have "piece_count ?m ?f < 2 ^ 32"
    using piece_count_bound [OF assms(11,12)] .
  from pieces_handled [OF fresh(1) assms(7) _ room this] obtain win where
    l': "handle_fragments ?fs lr = Some (Inr (), set_window win (delivered ?f lr))"
    by auto
  have "wire_fragment g" if g: "g \<in> set ?fs" for g
  proof -
    have "length (data g) \<le> calc_full_size g" by (simp add: calc_full_size_def)
    then have "length (data g) < 2 ^ 13" using packed(3) g assms(12) by fastforce
    then show ?thesis
      using packed(3) fresh(2) g assms(6,13,14)
      by (fastforce simp: wire_fragment_def fits_u24_def new_fragment_def)
  qed
  moreover have "?n + length ps < 2 ^ 24" using assms(15) ds(3) l2 by simp
  ultimately show ?thesis
    using receive_all_packets [OF assms(1) ds(1) _ _ _ _ l', of "\<lambda>_. True" cc later] assms(4) ds(2)
    by (auto simp: linked_def comp_def)
qed

lemma one_message_sends:
  "\<exists>l2 net. send_queued network_wire recording sliding_window 50 10 (V4 [127, 0, 0, 1] 9)
       (one_message_layer, []) = Some (Inr (), (l2, net)) \<and>
     outgoing_queue l2 = [] \<and> next_seq (controller l2) = 1"
proof -
  have empty: "get_retransmit_fragments now rto cache_new = Some cache_new" for now rto
    by (simp add: get_retransmit_fragments_def cache_is_empty_def cache_new_def cache_index_def
        PACKET_HISTORY_SIZE_def)
  have none: "retransmit_fragments cache_new = []" by (simp add: cache_new_def)
  obtain l2 where pack: "pack_packets sliding_window 50 10 False
      (one_message_layer\<lparr>bandwidth_exceeded := True\<rparr>) = Some ([(9, [one_message_sent])], l2)"
    "outgoing_queue l2 = []" "retransmit_cache l2 = cache_new" "next_seq (controller l2) = 0"
    by (simp add: pack_packets_def one_message_layer_def sample_layer_fields Let_def empty none
        sw_get_transmission_bandwidth_def sw_new_def pack_outgoing.simps empty_packing_def
        heap_peek_def heap_pop_def calc_full_size_def calc_header_size_def assign_reliable_index_def
        uadd_def add_fragment_def close_packet_def one_message_sent_def)
  have queue: "outgoing_queue one_message_layer \<noteq> []" "bandwidth_exceeded one_message_layer = False"
    by (simp_all add: one_message_layer_def sample_layer_fields)
  show ?thesis
    using pack queue
    by (simp add: send_queued_def sw_get_seq_and_increment_def uadd_def Let_def
        send_datagram_def put_datagram_Packet recording_def cache_insert_def cache_new_def
        cache_index_def PACKET_HISTORY_SIZE_def one_message_sent_def new_fragment_def
        sw_on_send_packet_def)
qed

lemma sample_layers_linked: "linked sample_layer sample_layer" "idle sample_layer"
proof -
  have "settled (2 ^ 7) (window_new (2 ^ 7) :: u64 window)" by (rule settled_new)
  moreover have "seen 128 (window_new 128 :: u64 window) = {}"
    by (auto simp: seen_def window_new_def window_map_def pending_def split: if_splits)
  ultimately show "linked sample_layer sample_layer"
    using empty_window_room
    by (simp add: linked_def sample_layer_fields SEQ_WINDOW_SIZE_def room_for_def sw_new_def)
  show "idle sample_layer"
    using layer_inv_new [OF sample_layer_new]
    by (simp add: idle_def sample_layer_fields held_def slots_held_def cache_new_def
        PACKET_HISTORY_SIZE_def)
qed

theorem message_transferred_witness:
  "\<exists>(net :: (bytes \<times> socket_addr) list) lr'. receive_all network_wire sliding_window 60 (map fst net) sample_layer
       = Some (Inr (), lr') \<and> output_queue lr' = [[1, 2, 3]]"
proof -
  obtain l2 net where sent: "send_queued network_wire recording sliding_window 50 10
      (V4 [127, 0, 0, 1] 9) (one_message_layer, []) = Some (Inr (), (l2, net))"
    "outgoing_queue l2 = []" "next_seq (controller l2) = 1"
    using one_message_sends by blast
  have "calc_full_size (new_fragment Reliable 0 [1, 2, 3] sample_layer) = 9"
    by (simp add: calc_full_size_def calc_header_size_def new_fragment_def)
  then have "message_pieces 1460 0 (new_fragment Reliable 0 [1, 2, 3] sample_layer)
      = [new_fragment Reliable 0 [1, 2, 3] sample_layer]"
    by (simp add: message_pieces_def)
  moreover have "deliverable (new_fragment Reliable 0 [1, 2, 3] sample_layer) sample_layer"
    by (simp add: deliverable_def new_fragment_def)
  ultimately have "\<exists>lr'. receive_all network_wire sliding_window 60 (map fst net) sample_layer
      = Some (Inr (), lr') \<and> output_queue lr' = output_queue sample_layer @ [[1, 2, 3]]"
    using sent sample_layers_linked sample_layer_room(2) [of 0]
    by (intro message_transferred [OF network_wire_format _ _ _ _ _ _ one_message_send sent(1,2)])
      (simp_all add: sample_layer_fields)
  then show ?thesis unfolding sample_layer_fields append_Nil by blast
qed

end
