(* ===== verification/Spec2Isabelle.thy ===== *)
theory Spec2Isabelle
  imports Peer_Life Udt_Layer Delivery
begin

text \<open>
  RukNet is an implementation of the RakNet protocol in Rust: messages with a reliability class
  over UDP. This development models the library and proves what its parts promise, and, where
  they do not keep a promise, the behaviour they have instead. Paths are under \<open>src/src/\<close>.

  \<^bold>\<open>The program.\<close> A \<open>Peer\<close> (\<open>peer.rs\<close>) owns a socket and two tasks. The receiving task queues the
  datagrams. The update task runs \<open>update_cycle\<close>: it processes the queued packets, then the
  commands of the application, then the pending connection requests, then every connection. A
  packet of an unknown address is an offline message (pings, the two requests that open a
  connection); a packet of a known one goes to the reliability layer of its connection
  (\<open>reliability/layer.rs\<close>), which decodes it (\<open>proto/bytes.rs\<close>), drops duplicates
  (\<open>reliability/window.rs\<close>), reassembles split messages, orders the channels, and puts out
  messages: online protocol messages (the handshake, pings, the disconnection) or data for the
  application. Sending goes the other way: \<open>send\<close> labels and splits a message and queues the
  fragments by weight; the layer's \<open>update\<close> packs them into packets as far as the congestion
  controller (\<open>reliability/congestion_controller/\<close>) allows, and keeps the reliable ones in the
  retransmission cache (\<open>reliability/retransmit_cache.rs\<close>) until they are acknowledged.

  \<^bold>\<open>Conventions.\<close> The arithmetic is that of a build with overflow checks: an operation on a word
  that would overflow, an index out of range, a division by zero, an \<open>unwrap\<close> of nothing is a
  panic, the value \<open>None\<close> of an outer option; so is a wait that only the waiting task could end.
  \<open>usize\<close> is \<open>nat\<close> with checked subtraction and division (its other operations do not reach
  \<open>2 ^ 64\<close>). An error is \<open>Inl\<close>, and a handler that can fail returns the state it leaves behind
  with it (\<open>step\<close>, with \<open>and_then\<close> for the question mark). \<open>'net\<close> is the state of the network:
  the socket is a parameter that takes bytes and an address and says whether the call succeeded.

  \<^bold>\<open>The theories.\<close>
  \<^item> \<open>Prelude\<close>: word types, checked arithmetic, arrays, \<open>step\<close>; lemmas on ring indices and lists.
  \<^item> \<open>Fragment\<close>: \<open>reliability/fragment.rs\<close>, \<open>proto/datagram.rs\<close>; \<open>Message\<close>: \<open>proto/message.rs\<close>,
    the constants of \<open>proto/mod.rs\<close>, the errors of \<open>error.rs\<close>.
  \<^item> \<open>Wire\<close>: the number layouts of the \<open>bytes\<close> crate, a parameter with its laws (locale
    \<open>wire_format\<close>, interpreted by network byte order); \<open>Utf8\<close>: \<open>String::from_utf8_lossy\<close>;
    \<open>Codec\<close>: \<open>proto/bytes.rs\<close>, both traits. Decoding inverts encoding, the decoder accepts only
    well-formed packets, lengths are what \<open>calc_full_size\<close> says.
  \<^item> \<open>Window\<close>: \<open>reliability/window.rs\<close>, for every size that is a power of two. The ring refines the
    set of indices seen (locale \<open>receive_window\<close>, interpretation \<open>ring\<close>).
  \<^item> \<open>Retransmit_Cache\<close>: \<open>reliability/retransmit_cache.rs\<close>. The ring refines a map of packets in
    flight; runs of the cache (\<open>cache_run\<close>) lose no fragment.
  \<^item> \<open>Binary_Heap\<close>: the algorithm of \<open>std::collections::BinaryHeap\<close> with \<open>Reverse\<close>, the queue of
    outgoing fragments (locale \<open>priority_queue\<close>, interpretation \<open>heap\<close>).
  \<^item> \<open>Congestion\<close>: the trait \<open>CongestionController\<close> as the record of its methods, and what the
    layer needs of it (locale \<open>controller_laws\<close>), and the runs of a controller (\<open>cc_run\<close>) with the
    locale \<open>controller_invariant\<close>. \<open>Float64\<close>: double precision, a rational number rounded to 53
    bits; \<open>Sliding_Window\<close>: \<open>congestion_controller/sliding_window.rs\<close>, the default (interpretations
    \<open>sliding\<close>, \<open>sliding_inv\<close>). \<open>Float32\<close>: single precision with infinities and NaN; \<open>Udt\<close>:
    \<open>congestion_controller/udt.rs\<close>, the feature \<open>udt\<close> (interpretations \<open>udt\<close>, \<open>udt_inv\<close>);
    \<open>Udt_Layer\<close>: a layer with that controller. A connection has the default controller.
  \<^item> \<open>Layer\<close>: the state, the sending and the receiving side of \<open>reliability/layer.rs\<close>;
    \<open>Layer_Update\<close>: its \<open>update\<close>. \<open>Layer_Send\<close>: \<open>send\<close> queues exactly the pieces of a message
    and keeps the queue sendable. \<open>Layer_Receive\<close>: pieces in any order give the message back.
    \<open>Layer_Order\<close>: ordered and sequenced channels. \<open>Layer_Transmit\<close>: packing and sending.
    \<open>Delivery\<close>: the two ends of a connection together.
  \<^item> \<open>Conn\<close>: \<open>conn.rs\<close>, \<open>app.rs\<close>; \<open>Peer\<close>: \<open>peer.rs\<close>, one definition per handler;
    \<open>Peer_Invariant\<close>: what every elementary change keeps, every handler and cycle keeps (locale
    \<open>peer_invariant\<close>, interpretations \<open>counting\<close>, \<open>bounding\<close>); \<open>Peer_Correct\<close>: admission, the
    handshake as a relation on connection modes (\<open>mode_step\<close>, \<open>mode_run\<close>), the path of a message to
    the application, and the inputs that stop the task. \<open>Peer_Run\<close>: \<open>Peer::new\<close>, \<open>listen\<close>,
    \<open>close\<close>, and the two tasks and the application as a step relation (\<open>node_step\<close>, \<open>node_run\<close>),
    its invariant, and what closing does. \<open>Peer_Life\<close>: one connection over the cycles of a run
    (\<open>conn_life\<close>), the messages it is given and the modes they lead it through.

  \<^bold>\<open>Parameters.\<close> The record \<open>env\<close> of \<open>Peer\<close> holds what is not in the repository: the number
  layouts, the socket, what the application takes from its queue while the task waits for room,
  and whether \<open>DashMap::remove\<close> returns while the caller holds a reference into the map (its
  documentation says it may deadlock). The order in which a map is iterated is the list of its
  keys, an argument. Time is an argument of every step. \<open>f32::powf\<close>, whose precision the standard
  library leaves open, is an argument of the UDT controller. \<open>Peer_Run\<close> relies on what tokio
  documents of \<open>Notify::notify_waiters\<close> and \<open>select\<close>.

  \<^bold>\<open>Bounds.\<close> No definition uses fuel: every loop is structural, or recursive with a measure
  (bytes left, fragments queued, positions of the heap). The ring sizes are those of the code,
  128, 512 and 128. Hypotheses such as \<open>n + 128 < 2 ^ 32\<close> keep sequence numbers away from the
  overflow at which the code panics; the wire format already ends at \<open>2 ^ 24\<close>.

  \<^bold>\<open>Not modelled.\<close> When a step runs: spawning, the interval and the wake-ups are the runtime's, and
  the step relation leaves the order free, with a cycle as one step, so a queue that is filled or
  emptied by another task during a cycle is seen by the next cycle. Debug output and the texts
  of errors.
\<close>

end
